(* ===== verification/Prelude.thy ===== *)
theory Prelude
  imports Complex_Main "HOL-Library.Word" "HOL-Library.Multiset"
begin

text \<open>
  Shared vocabulary of the development: C integers and pointers, the ways in which a run of
  C code can fail to return (undefined behaviour, a blocked thread), the environment that
  decides which fallible library calls succeed, and mutexes.

  A C function that may misbehave is a HOL function into \<open>'a outcome\<close>: \<open>Inr x\<close> is a normal
  return with \<open>x\<close> (the return code, the out-parameters and the new state), \<open>Inl\<close> says why
  control never comes back. A C return code such as -1 is a normal return: it is part
  of \<open>x\<close>.
\<close>

unbundle bit_operations_syntax

section \<open>Replacing one entry of a list of lists\<close>

lemma mset_concat_replace:
  "i < length xs \<Longrightarrow> mset (concat (map f (xs[i := x]))) + mset (f (xs ! i)) =
   mset (concat (map f xs)) + mset (f x)"
  by (induction xs arbitrary: i) (auto split: nat.split)

lemma mset_concat_update:
  "i < length xs \<Longrightarrow> f x = f (xs ! i) @ ys \<Longrightarrow>
   mset (concat (map f (xs[i := x]))) = mset (concat (map f xs)) + mset ys"
  by (induction xs arbitrary: i) (auto split: nat.split)

section \<open>Integers and pointers\<close>

type_synonym u8 = "8 word"
type_synonym u32 = "32 word"
type_synonym u64 = "64 word"

text \<open>
  Objects live in typed heaps (theory \<open>Typed_Heap\<close>); an address is a number and 0 is
  \<open>NULL\<close>. A function pointer is an opaque number too, again with 0 for \<open>NULL\<close>.
\<close>

type_synonym addr = nat
type_synonym fnptr = nat

definition INT_MIN :: int where "INT_MIN = - (2 ^ 31)"
definition INT_MAX :: int where "INT_MAX = 2 ^ 31 - 1"

text \<open>\<open>SIZE_MAX\<close> of a 64-bit platform.\<close>

definition SIZE_MAX :: u64 where "SIZE_MAX = - 1"

lemma unat_SIZE_MAX: "unat SIZE_MAX = 18446744073709551615"
proof -
  have "uint (- 1 :: u64) = 18446744073709551615"
    by (simp add: uint_word_ariths)
  then show ?thesis by (simp add: SIZE_MAX_def unat_eq_nat_uint)
qed

section \<open>Runs that do not return\<close>

datatype ub = Null_deref | Use_after_free | Out_of_bounds | Div_by_zero | Bad_unlock
  | Wild_call | Uninit_read | Float_range

datatype stop = Undef ub | Deadlock | Blocked | Out_of_fuel

type_synonym 'a outcome = "stop + 'a"

named_theorems outcome_simps "evaluation of sequenced outcomes"

definition bindo :: "'a outcome \<Rightarrow> ('a \<Rightarrow> 'b outcome) \<Rightarrow> 'b outcome" where
  "bindo m f = (case m of Inl s \<Rightarrow> Inl s | Inr x \<Rightarrow> f x)"

lemma bindo_Inl [simp, outcome_simps]: "bindo (Inl s) f = Inl s"
  by (simp add: bindo_def)

lemma bindo_Inr [simp, outcome_simps]: "bindo (Inr x) f = f x"
  by (simp add: bindo_def)

lemma bindo_eq_Inr: "bindo m f = Inr y \<longleftrightarrow> (\<exists>x. m = Inr x \<and> f x = Inr y)"
  by (cases m) auto

lemma bindo_eq_Inl:
  "bindo m f = Inl s \<longleftrightarrow> m = Inl s \<or> (\<exists>x. m = Inr x \<and> f x = Inl s)"
  by (cases m) auto

lemma bindo_InrE:
  assumes "bindo m f = Inr y"
  obtains x where "m = Inr x" and "f x = Inr y"
  using assms by (cases m) auto

lemma bindo_assoc: "bindo (bindo m f) g = bindo m (\<lambda>x. bindo (f x) g)"
  by (cases m) auto

lemma bindo_if [outcome_simps]:
  "bindo (if b then m else n) f = (if b then bindo m f else bindo n f)"
  by simp

lemma bindo_cong [fundef_cong]:
  "m = n \<Longrightarrow> (\<And>x. n = Inr x \<Longrightarrow> f x = g x) \<Longrightarrow> bindo m f = bindo n g"
  by (cases n) auto

section \<open>Pointers to tables\<close>

text \<open>
  A table has one owner, the variable or field that points to it, so its contents are kept
  in the pointer. \<open>Freed\<close> is a pointer left behind by \<open>free\<close>.
\<close>

datatype 't ptr = Null | Live 't | Freed

definition deref :: "'t ptr \<Rightarrow> 't outcome" where
  "deref p = (case p of Null \<Rightarrow> Inl (Undef Null_deref) | Live t \<Rightarrow> Inr t
     | Freed \<Rightarrow> Inl (Undef Use_after_free))"

lemma deref_simps [simp]:
  "deref Null = Inl (Undef Null_deref)" "deref (Live t) = Inr t"
  "deref Freed = Inl (Undef Use_after_free)"
  by (simp_all add: deref_def)

section \<open>The environment: fallible calls, locking, live blocks\<close>

text \<open>
  \<open>sched\<close> schedules the results of the calls the program does not control (\<open>malloc\<close>,
  \<open>calloc\<close>, \<open>realloc\<close>, the allocating functions of bstrlib, the pthread calls), in the
  order in which they are made; once the schedule is used up every further call succeeds.
  \<open>pthreads\<close> is the global \<open>fra_p_pthreads\<close> of \<open>src/lock.c\<close>. \<open>live\<close> counts the
  blocks of strings and tables that are allocated and not yet freed.
\<close>

record env =
  sched :: "bool list"
  pthreads :: bool
  live :: int

definition draw :: "env \<Rightarrow> bool \<times> env" where
  "draw v = (case sched v of [] \<Rightarrow> (True, v) | b # bs \<Rightarrow> (b, v\<lparr>sched := bs\<rparr>))"

definition take_block :: "env \<Rightarrow> bool \<times> env" where
  "take_block v = (let (ok, v) = draw v in (ok, if ok then v\<lparr>live := live v + 1\<rparr> else v))"

definition drop_block :: "env \<Rightarrow> env" where
  "drop_block v = v\<lparr>live := live v - 1\<rparr>"

definition calm :: "env \<Rightarrow> bool" where
  "calm v \<longleftrightarrow> sched v = []"

lemma draw_calm: "calm v \<Longrightarrow> draw v = (True, v)"
  by (simp add: calm_def draw_def)

lemma take_block_calm: "calm v \<Longrightarrow> take_block v = (True, v\<lparr>live := live v + 1\<rparr>)"
  by (simp add: take_block_def draw_calm)

lemma calm_live [simp]: "calm (v\<lparr>live := n\<rparr>) = calm v"
  by (simp add: calm_def)

lemma calm_drop_block [simp]: "calm (drop_block v) = calm v"
  by (simp add: drop_block_def)

lemma draw_live: "draw v = (ok, v') \<Longrightarrow> live v' = live v \<and> pthreads v' = pthreads v"
  by (auto simp: draw_def split: list.splits)

lemma take_block_live:
  "take_block v = (ok, v') \<Longrightarrow>
   live v' = live v + (if ok then 1 else 0) \<and> pthreads v' = pthreads v"
  by (auto simp: take_block_def split: prod.splits dest: draw_live)

lemma drop_block_live [simp]: "live (drop_block v) = live v - 1"
  by (simp add: drop_block_def)

lemma drop_block_pthreads [simp]: "pthreads (drop_block v) = pthreads v"
  by (simp add: drop_block_def)

text \<open>An environment in which every call succeeds, for the witnesses.\<close>

definition quiet_env :: env where
  "quiet_env = \<lparr>sched = [], pthreads = False, live = 0\<rparr>"

lemma calm_quiet [simp]: "calm quiet_env" "calm (quiet_env\<lparr>live := n\<rparr>)"
  by (simp_all add: quiet_env_def calm_def)

section \<open>Mutexes\<close>

text \<open>
  A default pthread mutex, seen from the one thread the library runs in: locking it while
  it is held blocks for ever. The calls return 0 on success and an error number, here 1,
  when the environment makes them fail.
\<close>

type_synonym mutex = bool

definition pthread_mutex_lock :: "env \<Rightarrow> mutex \<Rightarrow> (int \<times> env \<times> mutex) outcome" where
  "pthread_mutex_lock v m =
     (if m then Inl Deadlock
      else let (ok, v) = draw v in Inr (if ok then (0, v, True) else (1, v, False)))"

definition pthread_mutex_unlock :: "env \<Rightarrow> mutex \<Rightarrow> (int \<times> env \<times> mutex) outcome" where
  "pthread_mutex_unlock v m =
     (if \<not> m then Inl (Undef Bad_unlock)
      else let (ok, v) = draw v in Inr (if ok then (0, v, False) else (1, v, True)))"

text \<open>The macros \<open>fra_p_lock\<close> and \<open>fra_p_unlock\<close>; the jump on failure is the caller's.\<close>

definition fra_p_lock :: "env \<Rightarrow> mutex \<Rightarrow> (int \<times> env \<times> mutex) outcome" where
  "fra_p_lock v m = (if pthreads v then pthread_mutex_lock v m else Inr (0, v, m))"

definition fra_p_unlock :: "env \<Rightarrow> mutex \<Rightarrow> (int \<times> env \<times> mutex) outcome" where
  "fra_p_unlock v m = (if pthreads v then pthread_mutex_unlock v m else Inr (0, v, m))"

lemma fra_p_lock_single [simp]: "\<not> pthreads v \<Longrightarrow> fra_p_lock v m = Inr (0, v, m)"
  by (simp add: fra_p_lock_def)

lemma fra_p_unlock_single [simp]: "\<not> pthreads v \<Longrightarrow> fra_p_unlock v m = Inr (0, v, m)"
  by (simp add: fra_p_unlock_def)

lemma fra_p_lock_calm:
  "calm v \<Longrightarrow> \<not> m \<Longrightarrow> fra_p_lock v m = Inr (0, v, pthreads v)"
  by (simp add: fra_p_lock_def pthread_mutex_lock_def draw_calm)

lemma fra_p_unlock_calm:
  "calm v \<Longrightarrow> fra_p_unlock v (pthreads v) = Inr (0, v, False)"
  by (simp add: fra_p_unlock_def pthread_mutex_unlock_def draw_calm)

end
