(* ===== verification/Murmur3.thy ===== *)
theory Murmur3
  imports Prelude
begin

text \<open>
  The hash functions of \<open>src/murmur3.c\<close>. A key is a buffer of bytes; every read is checked
  against the end of the buffer, so a normal return means that the C code stayed inside it.
  Block reads are those of a little-endian machine, the only ones \<open>getblock\<close> supports.
  \<open>len\<close> is the C \<open>int\<close>; no caller passes a negative one, so it is a \<open>nat\<close> here.
\<close>

section \<open>Platform-specific functions and the finalisation mix\<close>

definition rotl32 :: "u32 \<Rightarrow> nat \<Rightarrow> u32" where
  "rotl32 x r = push_bit r x OR drop_bit (32 - r) x"

definition rotl64 :: "u64 \<Rightarrow> nat \<Rightarrow> u64" where
  "rotl64 x r = push_bit r x OR drop_bit (64 - r) x"

definition fmix32 :: "u32 \<Rightarrow> u32" where
  "fmix32 h =
     (let h = h XOR drop_bit 16 h;
          h = h * 0x85ebca6b;
          h = h XOR drop_bit 13 h;
          h = h * 0xc2b2ae35;
          h = h XOR drop_bit 16 h
      in h)"

definition fmix64 :: "u64 \<Rightarrow> u64" where
  "fmix64 k =
     (let k = k XOR drop_bit 33 k;
          k = k * 0xff51afd7ed558ccd;
          k = k XOR drop_bit 33 k;
          k = k * 0xc4ceb9fe1a85ec53;
          k = k XOR drop_bit 33 k
      in k)"

section \<open>Reads from the key\<close>

definition read_u8 :: "u8 list \<Rightarrow> nat \<Rightarrow> u8 outcome" where
  "read_u8 data off = (if off < length data then Inr (data ! off) else Inl (Undef Out_of_bounds))"

text \<open>The little-endian value of a sequence of bytes.\<close>

fun le_word :: "u8 list \<Rightarrow> 'a::len word" where
  "le_word [] = 0"
| "le_word (b # bs) = ucast b OR push_bit 8 (le_word bs)"

definition getblock32 :: "u8 list \<Rightarrow> nat \<Rightarrow> u32 outcome" where
  "getblock32 data off =
     (if off + 4 \<le> length data then Inr (le_word (take 4 (drop off data)))
      else Inl (Undef Out_of_bounds))"

definition getblock64 :: "u8 list \<Rightarrow> nat \<Rightarrow> u64 outcome" where
  "getblock64 data off =
     (if off + 8 \<le> length data then Inr (le_word (take 8 (drop off data)))
      else Inl (Undef Out_of_bounds))"

text \<open>One label of a tail switch: \<open>k ^= tail[i] << sh\<close> on entry at label \<open>lab\<close> or above.\<close>

definition tail_case ::
  "nat \<Rightarrow> nat \<Rightarrow> u8 list \<Rightarrow> nat \<Rightarrow> nat \<Rightarrow> 'a::len word \<Rightarrow> 'a word outcome" where
  "tail_case r lab data off sh k =
     (if lab \<le> r then bindo (read_u8 data off) (\<lambda>b. Inr (k XOR push_bit sh (ucast b)))
      else Inr k)"

section \<open>The 32-bit hash\<close>

definition mixk32 :: "u32 \<Rightarrow> u32" where
  "mixk32 k1 =
     (let k1 = k1 * 0xcc9e2d51;
          k1 = rotl32 k1 15;
          k1 = k1 * 0x1b873593
      in k1)"

fun body32 :: "u8 list \<Rightarrow> nat \<Rightarrow> nat \<Rightarrow> u32 \<Rightarrow> u32 outcome" where
  "body32 data off 0 h1 = Inr h1"
| "body32 data off (Suc n) h1 =
     bindo (getblock32 data off) (\<lambda>k1.
       let h1 = h1 XOR mixk32 k1;
           h1 = rotl32 h1 13;
           h1 = h1 * 5 + 0xe6546b64
       in body32 data (off + 4) n h1)"

definition tail32 :: "u8 list \<Rightarrow> nat \<Rightarrow> nat \<Rightarrow> u32 \<Rightarrow> u32 outcome" where
  "tail32 data t r h1 =
     bindo (tail_case r 3 data (t + 2) 16 0) (\<lambda>k1.
     bindo (tail_case r 2 data (t + 1) 8 k1) (\<lambda>k1.
     bindo (tail_case r 1 data t 0 k1) (\<lambda>k1.
       Inr (if 1 \<le> r then h1 XOR mixk32 k1 else h1))))"

definition MurmurHash3_x86_32 :: "u8 list \<Rightarrow> nat \<Rightarrow> u32 \<Rightarrow> u32 outcome" where
  "MurmurHash3_x86_32 data len seed =
     (let nblocks = len div 4 in
      bindo (body32 data 0 nblocks seed) (\<lambda>h1.
      bindo (tail32 data (nblocks * 4) (len mod 4) h1) (\<lambda>h1.
        Inr (fmix32 (h1 XOR of_nat len)))))"

section \<open>The 128-bit hash for 32-bit machines\<close>

type_synonym quad = "u32 \<times> u32 \<times> u32 \<times> u32"

definition mixk128_1 :: "u32 \<Rightarrow> u32" where
  "mixk128_1 k1 = rotl32 (k1 * 0x239b961b) 15 * 0xab0e9789"

definition mixk128_2 :: "u32 \<Rightarrow> u32" where
  "mixk128_2 k2 = rotl32 (k2 * 0xab0e9789) 16 * 0x38b34ae5"

definition mixk128_3 :: "u32 \<Rightarrow> u32" where
  "mixk128_3 k3 = rotl32 (k3 * 0x38b34ae5) 17 * 0xa1e38b93"

definition mixk128_4 :: "u32 \<Rightarrow> u32" where
  "mixk128_4 k4 = rotl32 (k4 * 0xa1e38b93) 18 * 0x239b961b"

definition round128 :: "quad \<Rightarrow> quad \<Rightarrow> quad" where
  "round128 = (\<lambda>(k1, k2, k3, k4) (h1, h2, h3, h4).
     (let h1 = h1 XOR mixk128_1 k1;
          h1 = rotl32 h1 19; h1 = h1 + h2; h1 = h1 * 5 + 0x561ccd1b;
          h2 = h2 XOR mixk128_2 k2;
          h2 = rotl32 h2 17; h2 = h2 + h3; h2 = h2 * 5 + 0x0bcaa747;
          h3 = h3 XOR mixk128_3 k3;
          h3 = rotl32 h3 15; h3 = h3 + h4; h3 = h3 * 5 + 0x96cd1c35;
          h4 = h4 XOR mixk128_4 k4;
          h4 = rotl32 h4 13; h4 = h4 + h1; h4 = h4 * 5 + 0x32ac3b17
      in (h1, h2, h3, h4)))"

fun body128 :: "u8 list \<Rightarrow> nat \<Rightarrow> nat \<Rightarrow> quad \<Rightarrow> quad outcome" where
  "body128 data off 0 h = Inr h"
| "body128 data off (Suc n) h =
     bindo (getblock32 data off) (\<lambda>k1.
     bindo (getblock32 data (off + 4)) (\<lambda>k2.
     bindo (getblock32 data (off + 8)) (\<lambda>k3.
     bindo (getblock32 data (off + 12)) (\<lambda>k4.
       body128 data (off + 16) n (round128 (k1, k2, k3, k4) h)))))"

definition tail128 :: "u8 list \<Rightarrow> nat \<Rightarrow> nat \<Rightarrow> quad \<Rightarrow> quad outcome" where
  "tail128 data t r = (\<lambda>(h1, h2, h3, h4).
     bindo (tail_case r 15 data (t + 14) 16 0) (\<lambda>k4.
     bindo (tail_case r 14 data (t + 13) 8 k4) (\<lambda>k4.
     bindo (tail_case r 13 data (t + 12) 0 k4) (\<lambda>k4.
     let h4 = (if 13 \<le> r then h4 XOR mixk128_4 k4 else h4) in
     bindo (tail_case r 12 data (t + 11) 24 0) (\<lambda>k3.
     bindo (tail_case r 11 data (t + 10) 16 k3) (\<lambda>k3.
     bindo (tail_case r 10 data (t + 9) 8 k3) (\<lambda>k3.
     bindo (tail_case r 9 data (t + 8) 0 k3) (\<lambda>k3.
     let h3 = (if 9 \<le> r then h3 XOR mixk128_3 k3 else h3) in
     bindo (tail_case r 8 data (t + 7) 24 0) (\<lambda>k2.
     bindo (tail_case r 7 data (t + 6) 16 k2) (\<lambda>k2.
     bindo (tail_case r 6 data (t + 5) 8 k2) (\<lambda>k2.
     bindo (tail_case r 5 data (t + 4) 0 k2) (\<lambda>k2.
     let h2 = (if 5 \<le> r then h2 XOR mixk128_2 k2 else h2) in
     bindo (tail_case r 4 data (t + 3) 24 0) (\<lambda>k1.
     bindo (tail_case r 3 data (t + 2) 16 k1) (\<lambda>k1.
     bindo (tail_case r 2 data (t + 1) 8 k1) (\<lambda>k1.
     bindo (tail_case r 1 data t 0 k1) (\<lambda>k1.
     let h1 = (if 1 \<le> r then h1 XOR mixk128_1 k1 else h1) in
       Inr (h1, h2, h3, h4)))))))))))))))))"

definition final128 :: "nat \<Rightarrow> quad \<Rightarrow> quad" where
  "final128 len = (\<lambda>(h1, h2, h3, h4).
     (let h1 = h1 XOR of_nat len; h2 = h2 XOR of_nat len;
          h3 = h3 XOR of_nat len; h4 = h4 XOR of_nat len;
          h1 = h1 + h2; h1 = h1 + h3; h1 = h1 + h4;
          h2 = h2 + h1; h3 = h3 + h1; h4 = h4 + h1;
          h1 = fmix32 h1; h2 = fmix32 h2; h3 = fmix32 h3; h4 = fmix32 h4;
          h1 = h1 + h2; h1 = h1 + h3; h1 = h1 + h4;
          h2 = h2 + h1; h3 = h3 + h1; h4 = h4 + h1
      in (h1, h2, h3, h4)))"

definition MurmurHash3_x86_128 :: "u8 list \<Rightarrow> nat \<Rightarrow> u32 \<Rightarrow> quad outcome" where
  "MurmurHash3_x86_128 data len seed =
     (let nblocks = len div 16 in
      bindo (body128 data 0 nblocks (seed, seed, seed, seed)) (\<lambda>h.
      bindo (tail128 data (nblocks * 16) (len mod 16) h) (\<lambda>h.
        Inr (final128 len h))))"

section \<open>The 128-bit hash for 64-bit machines\<close>

type_synonym pair64 = "u64 \<times> u64"

definition mixk64_1 :: "u64 \<Rightarrow> u64" where
  "mixk64_1 k1 = rotl64 (k1 * 0x87c37b91114253d5) 31 * 0x4cf5ad432745937f"

definition mixk64_2 :: "u64 \<Rightarrow> u64" where
  "mixk64_2 k2 = rotl64 (k2 * 0x4cf5ad432745937f) 33 * 0x87c37b91114253d5"

definition round64 :: "pair64 \<Rightarrow> pair64 \<Rightarrow> pair64" where
  "round64 = (\<lambda>(k1, k2) (h1, h2).
     (let h1 = h1 XOR mixk64_1 k1;
          h1 = rotl64 h1 27; h1 = h1 + h2; h1 = h1 * 5 + 0x52dce729;
          h2 = h2 XOR mixk64_2 k2;
          h2 = rotl64 h2 31; h2 = h2 + h1; h2 = h2 * 5 + 0x38495ab5
      in (h1, h2)))"

fun body64 :: "u8 list \<Rightarrow> nat \<Rightarrow> nat \<Rightarrow> pair64 \<Rightarrow> pair64 outcome" where
  "body64 data off 0 h = Inr h"
| "body64 data off (Suc n) h =
     bindo (getblock64 data off) (\<lambda>k1.
     bindo (getblock64 data (off + 8)) (\<lambda>k2.
       body64 data (off + 16) n (round64 (k1, k2) h)))"

definition tail64 :: "u8 list \<Rightarrow> nat \<Rightarrow> nat \<Rightarrow> pair64 \<Rightarrow> pair64 outcome" where
  "tail64 data t r = (\<lambda>(h1, h2).
     bindo (tail_case r 15 data (t + 14) 48 0) (\<lambda>k2.
     bindo (tail_case r 14 data (t + 13) 40 k2) (\<lambda>k2.
     bindo (tail_case r 13 data (t + 12) 32 k2) (\<lambda>k2.
     bindo (tail_case r 12 data (t + 11) 24 k2) (\<lambda>k2.
     bindo (tail_case r 11 data (t + 10) 16 k2) (\<lambda>k2.
     bindo (tail_case r 10 data (t + 9) 8 k2) (\<lambda>k2.
     bindo (tail_case r 9 data (t + 8) 0 k2) (\<lambda>k2.
     let h2 = (if 9 \<le> r then h2 XOR mixk64_2 k2 else h2) in
     bindo (tail_case r 8 data (t + 7) 56 0) (\<lambda>k1.
     bindo (tail_case r 7 data (t + 6) 48 k1) (\<lambda>k1.
     bindo (tail_case r 6 data (t + 5) 40 k1) (\<lambda>k1.
     bindo (tail_case r 5 data (t + 4) 32 k1) (\<lambda>k1.
     bindo (tail_case r 4 data (t + 3) 24 k1) (\<lambda>k1.
     bindo (tail_case r 3 data (t + 2) 16 k1) (\<lambda>k1.
     bindo (tail_case r 2 data (t + 1) 8 k1) (\<lambda>k1.
     bindo (tail_case r 1 data t 0 k1) (\<lambda>k1.
     let h1 = (if 1 \<le> r then h1 XOR mixk64_1 k1 else h1) in
       Inr (h1, h2)))))))))))))))))"

definition final64 :: "nat \<Rightarrow> pair64 \<Rightarrow> pair64" where
  "final64 len = (\<lambda>(h1, h2).
     (let h1 = h1 XOR of_nat len; h2 = h2 XOR of_nat len;
          h1 = h1 + h2; h2 = h2 + h1;
          h1 = fmix64 h1; h2 = fmix64 h2;
          h1 = h1 + h2; h2 = h2 + h1
      in (h1, h2)))"

definition MurmurHash3_x64_128 :: "u8 list \<Rightarrow> nat \<Rightarrow> u32 \<Rightarrow> pair64 outcome" where
  "MurmurHash3_x64_128 data len seed =
     (let nblocks = len div 16 in
      bindo (body64 data 0 nblocks (ucast seed, ucast seed)) (\<lambda>h.
      bindo (tail64 data (nblocks * 16) (len mod 16) h) (\<lambda>h.
        Inr (final64 len h))))"

section \<open>Reference definitions\<close>

text \<open>
  The same hashes without indices or switches: consume the key block by block, pad the rest
  with zeros, finish.
\<close>

definition step32 :: "u32 \<Rightarrow> u32 \<Rightarrow> u32" where
  "step32 h k = rotl32 (h XOR mixk32 k) 13 * 5 + 0xe6546b64"

function murmur32_fold :: "u8 list \<Rightarrow> u32 \<Rightarrow> u32" where
  "murmur32_fold bs h =
     (if 4 \<le> length bs then murmur32_fold (drop 4 bs) (step32 h (le_word (take 4 bs)))
      else h XOR mixk32 (le_word bs))"
  by pat_completeness auto
termination
  by (relation "measure (\<lambda>(bs, h). length bs)") auto

declare murmur32_fold.simps [simp del]

definition murmur32_spec :: "u8 list \<Rightarrow> u32 \<Rightarrow> u32" where
  "murmur32_spec bs seed = fmix32 (murmur32_fold bs seed XOR of_nat (length bs))"

definition absorb128 :: "u8 list \<Rightarrow> quad \<Rightarrow> quad" where
  "absorb128 bs = (\<lambda>(h1, h2, h3, h4).
     (h1 XOR mixk128_1 (le_word (take 4 bs)), h2 XOR mixk128_2 (le_word (take 4 (drop 4 bs))),
      h3 XOR mixk128_3 (le_word (take 4 (drop 8 bs))), h4 XOR mixk128_4 (le_word (drop 12 bs))))"

function murmur128_fold :: "u8 list \<Rightarrow> quad \<Rightarrow> quad" where
  "murmur128_fold bs h =
     (if 16 \<le> length bs
      then murmur128_fold (drop 16 bs)
             (round128 (le_word (take 4 bs), le_word (take 4 (drop 4 bs)),
                        le_word (take 4 (drop 8 bs)), le_word (take 4 (drop 12 bs))) h)
      else absorb128 bs h)"
  by pat_completeness auto
termination
  by (relation "measure (\<lambda>(bs, h). length bs)") auto

declare murmur128_fold.simps [simp del]

definition absorb64 :: "u8 list \<Rightarrow> pair64 \<Rightarrow> pair64" where
  "absorb64 bs = (\<lambda>(h1, h2).
     (h1 XOR mixk64_1 (le_word (take 8 bs)), h2 XOR mixk64_2 (le_word (drop 8 bs))))"

function murmur64_fold :: "u8 list \<Rightarrow> pair64 \<Rightarrow> pair64" where
  "murmur64_fold bs h =
     (if 16 \<le> length bs
      then murmur64_fold (drop 16 bs)
             (round64 (le_word (take 8 bs), le_word (take 8 (drop 8 bs))) h)
      else absorb64 bs h)"
  by pat_completeness auto
termination
  by (relation "measure (\<lambda>(bs, h). length bs)") auto

declare murmur64_fold.simps [simp del]

section \<open>The code computes the reference\<close>

lemma le_word_Cons_xor: "le_word (b # bs) = ucast b XOR push_bit 8 (le_word bs)"
  by (rule bit_word_eqI) (auto simp: bit_simps dest: bit_imp_le_length)

lemma rotl32_0 [simp]: "rotl32 0 r = 0" by (simp add: rotl32_def)
lemma rotl64_0 [simp]: "rotl64 0 r = 0" by (simp add: rotl64_def)

lemma mixk_0 [simp]:
  "mixk32 0 = 0" "mixk128_1 0 = 0" "mixk128_2 0 = 0" "mixk128_3 0 = 0" "mixk128_4 0 = 0"
  "mixk64_1 0 = 0" "mixk64_2 0 = 0"
  by (simp_all add: mixk32_def mixk128_1_def mixk128_2_def mixk128_3_def mixk128_4_def
      mixk64_1_def mixk64_2_def)


text \<open>
  The labels of a switch run downwards through a group of bytes: if the bytes after position
  \<open>j\<close> of the group have been folded in, label \<open>j + 1\<close> folds in the one at \<open>j\<close>. A label that
  the tail is too short for leaves everything as it is, as no byte is left there.
\<close>


lemma tail_case_step:
  assumes "t + r \<le> length data" and "j < e" and "lab = Suc j" and "off = t + j"
    and "k = push_bit (8 + sh) (le_word (drop lab (take e (take r (drop t data)))))"
  shows "tail_case r lab data off sh k =
    Inr (push_bit sh (le_word (drop j (take e (take r (drop t data))))))"
proof (cases "j < r")
  case True
  have "drop j (take e (take r (drop t data))) =
      data ! (t + j) # drop (Suc j) (take e (take r (drop t data)))"
    using assms(1,2) True by (subst Cons_nth_drop_Suc [symmetric]) auto
  with True assms show ?thesis
    by (simp add: tail_case_def read_u8_def le_word_Cons_xor push_bit_xor add.commute xor.commute
        del: le_word.simps)
next
  case False
  with assms show ?thesis by (simp add: tail_case_def)
qed

lemma tail32_read:
  assumes "t + r \<le> length data" and "r < 4"
  shows "tail32 data t r h = Inr (h XOR mixk32 (le_word (take r (drop t data))))"
proof -
  define bs where "bs = take r (drop t data)"
  note rd = tail_case_step [OF assms(1), where e = 3, folded bs_def]
  have len: "length bs = r" using assms by (simp add: bs_def)
  have "tail32 data t r h = Inr (h XOR mixk32 (le_word (take 3 bs)))"
    using len assms(2)
    by (auto simp: tail32_def not_less_eq_eq rd [of 2] rd [of 1] rd [of 0])
  then show ?thesis using len assms(2) by (simp add: bs_def)
qed

lemma tail128_read:
  assumes "t + r \<le> length data" and "r < 16"
  shows "tail128 data t r h = Inr (absorb128 (take r (drop t data)) h)"
proof -
  define bs where "bs = take r (drop t data)"
  have len: "length bs = r" using assms by (simp add: bs_def)
  note rd = tail_case_step [OF assms(1), folded bs_def]
  note rd4 = rd [of 14 16] rd [of 13 16] rd [of 12 16]
  note rd3 = rd [of 11 12] rd [of 10 12] rd [of 9 12] rd [of 8 12]
  note rd2 = rd [of 7 8] rd [of 6 8] rd [of 5 8] rd [of 4 8]
  note rd1 = rd [of 3 4] rd [of 2 4] rd [of 1 4] rd [of 0 4]
  show ?thesis
    using len assms(2)
    by (auto simp: tail128_def absorb128_def not_less_eq_eq rd4 rd3 rd2 rd1 drop_take split: prod.splits simp flip: bs_def)
qed


lemma tail64_read:
  assumes "t + r \<le> length data" and "r < 16"
  shows "tail64 data t r h = Inr (absorb64 (take r (drop t data)) h)"
proof -
  define bs where "bs = take r (drop t data)"
  have len: "length bs = r" using assms by (simp add: bs_def)
  note rd = tail_case_step [OF assms(1), folded bs_def]
  note rd2 = rd [of 14 16] rd [of 13 16] rd [of 12 16] rd [of 11 16] rd [of 10 16] rd [of 9 16]
    rd [of 8 16]
  note rd1 = rd [of 7 8] rd [of 6 8] rd [of 5 8] rd [of 4 8] rd [of 3 8] rd [of 2 8] rd [of 1 8]
    rd [of 0 8]
  show ?thesis
    using len assms(2)
    by (auto simp: tail64_def absorb64_def not_less_eq_eq rd2 rd1 split: prod.splits
        simp flip: bs_def)
qed

text \<open>
  The loop over the blocks followed by the switch over the tail, from any offset, is the
  reference on the bytes that are left.
\<close>

lemma next_block:
  assumes "k \<le> m" and "0 < k"
  shows "m div k = Suc ((m - k) div k)" and "m mod k = (m - k) mod k"
  using assms by (simp_all add: div_if le_mod_geq)

lemma body_tail32:
  "off + m \<le> length data \<Longrightarrow>
   bindo (body32 data off (m div 4) h) (tail32 data (off + m div 4 * 4) (m mod 4)) =
   Inr (murmur32_fold (take m (drop off data)) h)"
proof (induction m arbitrary: off h rule: less_induct)
  case (less m)
  show ?case
  proof (cases "m < 4")
    case True
    with less.prems show ?thesis
      by (simp add: tail32_read murmur32_fold.simps [of _ h])
  next
    case False
    then have m: "4 \<le> m" "0 < (4::nat)" by simp_all
    have "drop 4 (take m (drop off data)) = take (m - 4) (drop (off + 4) data)"
      by (simp add: drop_take add.commute)
    moreover have "take 4 (take m (drop off data)) = take 4 (drop off data)"
      using False by simp
    ultimately show ?thesis
      using False less.prems less.IH [of "m - 4" "off + 4"]
      by (simp add: next_block [OF m] murmur32_fold.simps [of _ h] getblock32_def step32_def Let_def add.assoc)
  qed
qed

lemma body_tail128:
  "off + m \<le> length data \<Longrightarrow>
   bindo (body128 data off (m div 16) h) (tail128 data (off + m div 16 * 16) (m mod 16)) =
   Inr (murmur128_fold (take m (drop off data)) h)"
proof (induction m arbitrary: off h rule: less_induct)
  case (less m)
  show ?case
  proof (cases "m < 16")
    case True
    with less.prems show ?thesis
      by (simp add: tail128_read murmur128_fold.simps [of _ h])
  next
    case False
    then have m: "16 \<le> m" "0 < (16::nat)" by simp_all
    have "drop 16 (take m (drop off data)) = take (m - 16) (drop (off + 16) data)"
      by (simp add: drop_take add.commute)
    moreover have "take 4 (drop i (take m (drop off data))) = take 4 (drop (off + i) data)"
      if "i \<le> 12" for i
      using False that by (simp add: drop_take add.commute)
    moreover have "take 4 (take m (drop off data)) = take 4 (drop off data)"
      using False by simp
    ultimately show ?thesis
      using False less.prems less.IH [of "m - 16" "off + 16"]
      by (simp add: next_block [OF m] murmur128_fold.simps [of _ h] getblock32_def Let_def add.assoc)
  qed
qed

lemma body_tail64:
  "off + m \<le> length data \<Longrightarrow>
   bindo (body64 data off (m div 16) h) (tail64 data (off + m div 16 * 16) (m mod 16)) =
   Inr (murmur64_fold (take m (drop off data)) h)"
proof (induction m arbitrary: off h rule: less_induct)
  case (less m)
  show ?case
  proof (cases "m < 16")
    case True
    with less.prems show ?thesis
      by (simp add: tail64_read murmur64_fold.simps [of _ h])
  next
    case False
    then have m: "16 \<le> m" "0 < (16::nat)" by simp_all
    have "drop 16 (take m (drop off data)) = take (m - 16) (drop (off + 16) data)"
      by (simp add: drop_take add.commute)
    moreover have "take 8 (drop 8 (take m (drop off data))) = take 8 (drop (off + 8) data)"
      using False by (simp add: drop_take add.commute)
    moreover have "take 8 (take m (drop off data)) = take 8 (drop off data)"
      using False by simp
    ultimately show ?thesis
      using False less.prems less.IH [of "m - 16" "off + 16"]
      by (simp add: next_block [OF m] murmur64_fold.simps [of _ h] getblock64_def Let_def add.assoc)
  qed
qed

text \<open>Past the end of the buffer the first read that leaves it is the end of the run.\<close>

lemma tail_case_oob:
  "length data < t + r \<Longrightarrow> lab = Suc j \<Longrightarrow> off = t + j \<Longrightarrow> r = lab \<Longrightarrow>
   tail_case r lab data off sh k = Inl (Undef Out_of_bounds)"
  by (simp add: tail_case_def read_u8_def)

lemma tail_case_skip: "r < lab \<Longrightarrow> tail_case r lab data off sh k = Inr k"
  by (simp add: tail_case_def)

lemma tail32_oob:
  assumes "length data < t + r" and "0 < r" and "r < 4"
  shows "tail32 data t r h = Inl (Undef Out_of_bounds)"
proof -
  have "r \<in> {1, 2, 3}" using assms(2,3) by auto
  then show ?thesis
    using assms(1) by (auto simp: tail32_def tail_case_def read_u8_def)
qed

lemma less_16_cases:
  "0 < r \<Longrightarrow> r < 16 \<Longrightarrow> r \<in> {1, 2, 3, 4, 5, 6, 7, 8, 9, 10, 11, 12, 13, 14, 15}" for r :: nat
  by (simp, presburger)

lemma tail128_oob:
  assumes "length data < t + r" and "0 < r" and "r < 16"
  shows "tail128 data t r h = Inl (Undef Out_of_bounds)"
  using less_16_cases [OF assms(2,3)] assms(1)
  by (cases h) (elim insertE; simp add: tail128_def tail_case_def read_u8_def)

lemma tail64_oob:
  assumes "length data < t + r" and "0 < r" and "r < 16"
  shows "tail64 data t r h = Inl (Undef Out_of_bounds)"
  using less_16_cases [OF assms(2,3)] assms(1)
  by (cases h) (elim insertE; simp add: tail64_def tail_case_def read_u8_def)

lemma body_tail32_oob:
  "off \<le> length data \<Longrightarrow> length data < off + m \<Longrightarrow>
   bindo (body32 data off (m div 4) h) (tail32 data (off + m div 4 * 4) (m mod 4)) =
   Inl (Undef Out_of_bounds)"
proof (induction m arbitrary: off h rule: less_induct)
  case (less m)
  show ?case
  proof (cases "m < 4")
    case True
    with less.prems show ?thesis by (simp add: tail32_oob)
  next
    case False
    then have m: "4 \<le> m" "0 < (4::nat)" by simp_all
    show ?thesis
      using False less.prems less.IH [of "m - 4" "off + 4"]
      by (simp add: next_block [OF m] getblock32_def Let_def add.assoc)
  qed
qed

lemma body_tail128_oob:
  "off \<le> length data \<Longrightarrow> length data < off + m \<Longrightarrow>
   bindo (body128 data off (m div 16) h) (tail128 data (off + m div 16 * 16) (m mod 16)) =
   Inl (Undef Out_of_bounds)"
proof (induction m arbitrary: off h rule: less_induct)
  case (less m)
  show ?case
  proof (cases "m < 16")
    case True
    with less.prems show ?thesis by (simp add: tail128_oob)
  next
    case False
    then have m: "16 \<le> m" "0 < (16::nat)" by simp_all
    show ?thesis
      using False less.prems less.IH [of "m - 16" "off + 16"]
      by (simp add: next_block [OF m] getblock32_def Let_def add.assoc)
  qed
qed

lemma body_tail64_oob:
  "off \<le> length data \<Longrightarrow> length data < off + m \<Longrightarrow>
   bindo (body64 data off (m div 16) h) (tail64 data (off + m div 16 * 16) (m mod 16)) =
   Inl (Undef Out_of_bounds)"
proof (induction m arbitrary: off h rule: less_induct)
  case (less m)
  show ?case
  proof (cases "m < 16")
    case True
    with less.prems show ?thesis by (simp add: tail64_oob)
  next
    case False
    then have m: "16 \<le> m" "0 < (16::nat)" by simp_all
    show ?thesis
      using False less.prems less.IH [of "m - 16" "off + 16"]
      by (simp add: next_block [OF m] getblock64_def Let_def add.assoc)
  qed
qed

lemma hash32_in: "len \<le> length data \<Longrightarrow>
   MurmurHash3_x86_32 data len seed = Inr (murmur32_spec (take len data) seed)"
  using body_tail32 [of 0 len data seed]
  by (simp add: MurmurHash3_x86_32_def murmur32_spec_def Let_def min_def flip: bindo_assoc)

lemma hash32_out: "length data < len \<Longrightarrow>
   MurmurHash3_x86_32 data len seed = Inl (Undef Out_of_bounds)"
  using body_tail32_oob [of 0 data len seed]
  by (simp add: MurmurHash3_x86_32_def flip: bindo_assoc)

section \<open>No information is lost within a block\<close>

text \<open>Every ingredient of the mix is a bijection of machine words; here are the inverses.\<close>


definition xorshift :: "nat \<Rightarrow> 'a::len word \<Rightarrow> 'a word" where
  "xorshift s h = h XOR drop_bit s h"

definition unxorshift_13 :: "u32 \<Rightarrow> u32" where
  "unxorshift_13 h = h XOR drop_bit 13 h XOR drop_bit 26 h"

definition unfmix32 :: "u32 \<Rightarrow> u32" where
  "unfmix32 h = xorshift 16 (unxorshift_13 (xorshift 16 h * 0x7ed1b41d) * 0xa5cb9243)"

definition unfmix64 :: "u64 \<Rightarrow> u64" where
  "unfmix64 k = xorshift 33 (xorshift 33 (xorshift 33 k * 0x9cb4b2f8129337db) * 0x4f74430c22a54005)"

lemma fmix32_xorshift: "fmix32 h = xorshift 16 (xorshift 13 (xorshift 16 h * 0x85ebca6b) * 0xc2b2ae35)"
  by (simp add: fmix32_def xorshift_def Let_def)

lemma fmix64_xorshift:
  "fmix64 k = xorshift 33 (xorshift 33 (xorshift 33 k * 0xff51afd7ed558ccd) * 0xc4ceb9fe1a85ec53)"
  by (simp add: fmix64_def xorshift_def Let_def)

lemma xorshift_half: "LENGTH('a) \<le> 2 * s \<Longrightarrow> xorshift s (xorshift s h) = h" for h :: "'a::len word"
  by (rule bit_word_eqI) (auto simp: xorshift_def bit_simps dest: bit_imp_le_length)

lemma xorshift_13: "unxorshift_13 (xorshift 13 h) = h" "xorshift 13 (unxorshift_13 h) = h"
  by (rule bit_word_eqI,
      auto simp: xorshift_def unxorshift_13_def bit_simps dest: bit_imp_le_length)+

lemma rotl32_unrotl: "0 < r \<Longrightarrow> r < 32 \<Longrightarrow> rotl32 (rotl32 x r) (32 - r) = x"
  by (rule bit_word_eqI) (auto simp: rotl32_def bit_simps)

lemma rotl32_inj: "0 < r \<Longrightarrow> r < 32 \<Longrightarrow> rotl32 x r = rotl32 y r \<longleftrightarrow> x = y"
  by (metis rotl32_unrotl)

lemma mult_unit_cancel: "c * d = 1 \<Longrightarrow> x * c = y * c \<longleftrightarrow> x = y"
  for c :: "'a::comm_monoid_mult"
  by (metis mult.assoc mult.right_neutral)

lemma mult_undo: "c * d = 1 \<Longrightarrow> x * c * d = x" for c :: "'a::comm_monoid_mult"
  by (simp add: mult.assoc)

lemmas undo32 = mult_undo [of "0x85ebca6b :: u32" "0xa5cb9243"]
  mult_undo [of "0xc2b2ae35 :: u32" "0x7ed1b41d"]
  mult_undo [of "0xa5cb9243 :: u32" "0x85ebca6b"] mult_undo [of "0x7ed1b41d :: u32" "0xc2b2ae35"]

lemmas undo64 = mult_undo [of "0xff51afd7ed558ccd :: u64" "0x4f74430c22a54005"]
  mult_undo [of "0xc4ceb9fe1a85ec53 :: u64" "0x9cb4b2f8129337db"]
  mult_undo [of "0x4f74430c22a54005 :: u64" "0xff51afd7ed558ccd"]
  mult_undo [of "0x9cb4b2f8129337db :: u64" "0xc4ceb9fe1a85ec53"]

lemma fmix32_inverse: "unfmix32 (fmix32 h) = h" "fmix32 (unfmix32 h) = h"
  by (simp_all add: fmix32_xorshift unfmix32_def undo32 xorshift_half xorshift_13)

lemma fmix64_inverse: "unfmix64 (fmix64 k) = k" "fmix64 (unfmix64 k) = k"
  by (simp_all add: fmix64_xorshift unfmix64_def undo64 xorshift_half)

lemma fmix32_inj: "fmix32 x = fmix32 y \<longleftrightarrow> x = y"
  by (metis fmix32_inverse(1))

lemma mixk32_inj: "mixk32 x = mixk32 y \<longleftrightarrow> x = y"
  by (simp add: mixk32_def Let_def rotl32_inj mult_unit_cancel [of "0xcc9e2d51 :: u32" "0xdee13bb1"]
      mult_unit_cancel [of "0x1b873593 :: u32" "0x56ed309b"])

lemma xor_cancel: "a XOR b = a XOR c \<longleftrightarrow> b = c" "b XOR a = c XOR a \<longleftrightarrow> b = c"
  for a :: "'a::len word"
  by (metis xor.assoc xor.commute xor.left_neutral xor_self_eq)+

lemma step32_inj: "step32 h k = step32 h' k \<longleftrightarrow> h = h'" "step32 h k = step32 h k' \<longleftrightarrow> k = k'"
  by (simp_all add: step32_def rotl32_inj mult_unit_cancel [of "5 :: u32" "0xcccccccd"] xor_cancel
      mixk32_inj)

lemma murmur32_fold_inj: "murmur32_fold bs h = murmur32_fold bs h' \<longleftrightarrow> h = h'"
proof (induction bs h arbitrary: h' rule: murmur32_fold.induct)
  case (1 bs h)
  then show ?case
    by (auto simp: murmur32_fold.simps [of bs] step32_inj xor_cancel)
qed


lemma murmur32_fold_append:
  "4 dvd length pre \<Longrightarrow> \<exists>h'. \<forall>bs. murmur32_fold (pre @ bs) h = murmur32_fold bs h'"
proof (induction "length pre" arbitrary: pre h rule: less_induct)
  case less
  show ?case
  proof (cases "pre = []")
    case False
    with less.prems have le: "4 \<le> length pre" by (simp add: dvd_imp_le)
    with less.prems have "4 dvd length (drop 4 pre)" by simp
    then have "\<exists>h'. \<forall>bs. murmur32_fold (drop 4 pre @ bs) (step32 h (le_word (take 4 pre))) =
        murmur32_fold bs h'"
      using less.hyps [of "drop 4 pre" "step32 h (le_word (take 4 pre))"] le by simp
    then show ?thesis
      using le by (simp add: murmur32_fold.simps [of "pre @ _"])
  qed auto
qed

lemma le_word_bound: "bit (le_word bs :: 'a::len word) n \<Longrightarrow> n < 8 * length bs"
proof (induction bs arbitrary: n)
  case (Cons b bs)
  then have "bit b n \<or> 8 \<le> n \<and> bit (le_word bs :: 'a word) (n - 8)"
    by (auto simp: bit_simps)
  with Cons.IH [of "n - 8"] show ?case
    using bit_imp_le_length [of b n] by fastforce
qed simp

lemma le_word_inj:
  "length bs = length cs \<Longrightarrow> length bs * 8 \<le> LENGTH('a) \<Longrightarrow>
   (le_word bs :: 'a::len word) = le_word cs \<longleftrightarrow> bs = cs"
proof (induction bs cs rule: list_induct2)
  case (Cons b bs c cs)
  have part: "ucast (le_word (d # ds) :: 'a word) = d \<and>
      drop_bit 8 (le_word (d # ds) :: 'a word) = le_word ds"
    if len: "8 + length ds * 8 \<le> LENGTH('a)" for d ds
  proof
    show "ucast (le_word (d # ds) :: 'a word) = d"
      using len by (intro bit_word_eqI) (auto simp: bit_simps)
    show "drop_bit 8 (le_word (d # ds) :: 'a word) = le_word ds"
      using len le_word_bound [of ds, where 'a = 'a]
      by (intro bit_word_eqI) (fastforce simp: bit_simps dest: bit_imp_le_length)
  qed
  have "b = c \<and> (le_word bs :: 'a word) = le_word cs"
    if "(le_word (b # bs) :: 'a word) = le_word (c # cs)"
    using that part [of bs b] part [of cs c] Cons.prems Cons.hyps by (simp del: le_word.simps)
  with Cons show ?case by auto
qed simp

lemma murmur32_fold_block_inj:
  assumes "length b = length b'" and "length b \<le> 4" and "length b = 4 \<or> post = []"
    and "murmur32_fold (b @ post) h = murmur32_fold (b' @ post) h"
  shows "b = b'"
  using assms
  by (auto simp: murmur32_fold.simps [of "b @ post"] murmur32_fold.simps [of "b' @ post"]
      murmur32_fold.simps [of b] murmur32_fold.simps [of b']
      murmur32_fold_inj step32_inj xor_cancel mixk32_inj le_word_inj split: if_splits)


section \<open>Properties\<close>

text \<open>C23: \<open>MurmurHash3_x86_32\<close> returns exactly when the length it is given does not exceed the
  buffer, and then computes the reference hash of those bytes; otherwise a read leaves the buffer.\<close>

theorem hash32_reference:
  "MurmurHash3_x86_32 data len seed =
     (if len \<le> length data then Inr (murmur32_spec (take len data) seed)
      else Inl (Undef Out_of_bounds))"
  by (simp add: hash32_in hash32_out)

text \<open>C40: the same for \<open>MurmurHash3_x86_128\<close>.\<close>

theorem hash128_reference:
  "MurmurHash3_x86_128 data len seed =
     (if len \<le> length data
      then Inr (final128 len (murmur128_fold (take len data) (seed, seed, seed, seed)))
      else Inl (Undef Out_of_bounds))"
  using body_tail128 [of 0 len data "(seed, seed, seed, seed)"]
    body_tail128_oob [of 0 data len "(seed, seed, seed, seed)"]
  by (simp add: MurmurHash3_x86_128_def Let_def flip: bindo_assoc)

text \<open>The same for \<open>MurmurHash3_x64_128\<close>.\<close>

theorem hash64_reference:
  "MurmurHash3_x64_128 data len seed =
     (if len \<le> length data
      then Inr (final64 len (murmur64_fold (take len data) (ucast seed, ucast seed)))
      else Inl (Undef Out_of_bounds))"
  using body_tail64 [of 0 len data "(ucast seed, ucast seed)"]
    body_tail64_oob [of 0 data len "(ucast seed, ucast seed)"]
  by (simp add: MurmurHash3_x64_128_def Let_def flip: bindo_assoc)

text \<open>Keys of the same length that differ in one aligned four-byte block only, or only in
  the partial block at the end, never collide, whatever the seed.\<close>

theorem hash32_one_block_no_collision:
  assumes "4 dvd length pre" and "length b = length b'" and "length b \<le> 4"
    and "length b = 4 \<or> post = []" and "b \<noteq> b'"
  shows "MurmurHash3_x86_32 (pre @ b @ post) (length (pre @ b @ post)) seed \<noteq>
    MurmurHash3_x86_32 (pre @ b' @ post) (length (pre @ b' @ post)) seed"
proof -
  obtain h where "\<forall>bs. murmur32_fold (pre @ bs) seed = murmur32_fold bs h"
    using murmur32_fold_append [OF assms(1)] by blast
  moreover have "murmur32_fold (b @ post) h \<noteq> murmur32_fold (b' @ post) h"
    using murmur32_fold_block_inj [of b b' post h] assms by blast
  ultimately show ?thesis
    using assms(2) by (simp add: hash32_in murmur32_spec_def fmix32_inj xor_cancel)
qed

theorem hash32_one_block_no_collision_witness:
  "MurmurHash3_x86_32 ([1, 2, 3, 4] @ [5, 6] @ []) 6 55 \<noteq>
   MurmurHash3_x86_32 ([1, 2, 3, 4] @ [5, 7] @ []) 6 55"
  using hash32_one_block_no_collision [of "[1, 2, 3, 4]" "[5, 6]" "[5, 7]" "[]" 55]
  by (simp add: numeral_eq_Suc)

text \<open>For a fixed key the hash is a bijection of the seed: a finalised hash can be traced
  back to one seed only, and every value is reached.\<close>

theorem hash32_seed_bij:
  "bij (\<lambda>seed. projr (MurmurHash3_x86_32 data (length data) seed))"
proof -
  have "inj (\<lambda>seed. projr (MurmurHash3_x86_32 data (length data) seed))"
    by (rule injI) (simp add: hash32_in murmur32_spec_def fmix32_inj xor_cancel murmur32_fold_inj)
  then show ?thesis
    by (simp add: bij_def finite_UNIV_inj_surj)
qed

text \<open>The finalisation mixes are bijections; \<open>unfmix32\<close> and \<open>unfmix64\<close> undo them on
  either side.\<close>

theorem fmix_roundtrip:
  "unfmix32 (fmix32 h) = h \<and> fmix32 (unfmix32 h) = h \<and>
   unfmix64 (fmix64 k) = k \<and> fmix64 (unfmix64 k) = k"
  by (simp add: fmix32_inverse fmix64_inverse)

text \<open>Published test vectors of the three functions.\<close>

definition bytes_of :: "string \<Rightarrow> u8 list" where
  "bytes_of s = map of_char s"

lemma hash_test_vectors:
  "MurmurHash3_x86_32 [] 0 1 = Inr 0x514e28b7"
  "MurmurHash3_x86_32 (bytes_of ''Hello, world!'') 13 1234 = Inr 0xfaf6cdb3"
  by code_simp+

end
