(* ===== verification/Typed_Heap.thy ===== *)
theory Typed_Heap
  imports Prelude
begin

text \<open>
  Heaps of objects of one C struct type, addressed by numbers, and singly linked lists in
  them. Freed addresses are not handed out again, so that a dereference of one is always
  recognised as a use after free. The lists of hooks (\<open>src/hook.c\<close>), of cached requests
  (\<open>src/req.c\<close>), of cached endpoint stores (\<open>src/end.c\<close>) and of plugins (\<open>src/pl.c\<close>) are
  all of this kind; what their code relies on is the locale \<open>linked\<close> below.
\<close>

section \<open>Heaps\<close>

record 'n heap =
  cells :: "addr \<Rightarrow> 'n option"
  brk :: addr

definition heap_empty :: "'n heap" where
  "heap_empty = \<lparr>cells = (\<lambda>_. None), brk = 1\<rparr>"

definition hnew :: "'n \<Rightarrow> 'n heap \<Rightarrow> addr \<times> 'n heap" where
  "hnew n h = (brk h, h\<lparr>cells := (cells h)(brk h := Some n), brk := Suc (brk h)\<rparr>)"

text \<open>Reading and writing through a pointer, and \<open>free\<close>.\<close>

definition hget :: "addr \<Rightarrow> 'n heap \<Rightarrow> 'n outcome" where
  "hget p h = (if p = 0 then Inl (Undef Null_deref)
     else case cells h p of None \<Rightarrow> Inl (Undef Use_after_free) | Some n \<Rightarrow> Inr n)"

definition hput :: "addr \<Rightarrow> 'n \<Rightarrow> 'n heap \<Rightarrow> 'n heap outcome" where
  "hput p n h = bindo (hget p h) (\<lambda>_. Inr (h\<lparr>cells := (cells h)(p := Some n)\<rparr>))"

definition hfree :: "addr \<Rightarrow> 'n heap \<Rightarrow> 'n heap outcome" where
  "hfree p h = (if p = 0 then Inr h
     else case cells h p of None \<Rightarrow> Inl (Undef Use_after_free)
       | Some _ \<Rightarrow> Inr (h\<lparr>cells := (cells h)(p := None)\<rparr>))"

definition heap_ok :: "'n heap \<Rightarrow> bool" where
  "heap_ok h \<longleftrightarrow> 0 < brk h \<and> (\<forall>a n. cells h a = Some n \<longrightarrow> 0 < a \<and> a < brk h)"

lemma heap_ok_empty [simp]: "heap_ok heap_empty"
  by (simp add: heap_ok_def heap_empty_def)

lemma heap_ok_hnew: "heap_ok h \<Longrightarrow> hnew n h = (p, h') \<Longrightarrow> heap_ok h'"
  by (auto simp: heap_ok_def hnew_def less_Suc_eq split: if_splits)

lemma hnew_fresh: "heap_ok h \<Longrightarrow> hnew n h = (p, h') \<Longrightarrow> 0 < p \<and> cells h p = None"
  by (auto simp: heap_ok_def hnew_def)

lemma hget_Inr_iff: "hget p h = Inr n \<longleftrightarrow> p \<noteq> 0 \<and> cells h p = Some n"
  by (auto simp: hget_def split: option.splits)

lemma hput_Inr_iff:
  "hput p n h = Inr h' \<longleftrightarrow>
   p \<noteq> 0 \<and> cells h p \<noteq> None \<and> h' = h\<lparr>cells := (cells h)(p := Some n)\<rparr>"
  by (auto simp: hput_def bindo_eq_Inr hget_Inr_iff)

lemma hfree_Inr_iff:
  "p \<noteq> 0 \<Longrightarrow> hfree p h = Inr h' \<longleftrightarrow>
   cells h p \<noteq> None \<and> h' = h\<lparr>cells := (cells h)(p := None)\<rparr>"
  by (auto simp: hfree_def split: option.splits)

lemma heap_ok_hput: "heap_ok h \<Longrightarrow> hput p n h = Inr h' \<Longrightarrow> heap_ok h'"
  by (auto simp: heap_ok_def hput_Inr_iff split: if_splits)

lemma heap_ok_hfree: "heap_ok h \<Longrightarrow> hfree p h = Inr h' \<Longrightarrow> heap_ok h'"
  by (auto simp: heap_ok_def hfree_def split: if_splits option.splits)

lemma heap_ok_nonnull: "heap_ok h \<Longrightarrow> cells h p = Some n \<Longrightarrow> p \<noteq> 0"
  by (auto simp: heap_ok_def)

lemma hget_ok: "heap_ok h \<Longrightarrow> cells h p = Some n \<Longrightarrow> hget p h = Inr n"
  by (auto simp: hget_Inr_iff heap_ok_nonnull)

lemma heap_ok_upd: "heap_ok h \<Longrightarrow> cells h p \<noteq> None \<Longrightarrow> heap_ok (h\<lparr>cells := (cells h)(p := Some n)\<rparr>)"
  by (auto simp: heap_ok_def)

text \<open>Writing a field of an object in a heap.\<close>

definition hupd :: "addr \<Rightarrow> ('n \<Rightarrow> 'n) \<Rightarrow> 'n heap \<Rightarrow> 'n heap outcome" where
  "hupd p f h = bindo (hget p h) (\<lambda>n. hput p (f n) h)"

lemma hupd_ok: "heap_ok h \<Longrightarrow> cells h p = Some n \<Longrightarrow> hupd p f h = Inr (h\<lparr>cells := (cells h)(p := Some (f n))\<rparr>)"
  by (simp add: hupd_def hput_def hget_ok)

section \<open>Linked lists\<close>

text \<open>
  \<open>chain nxt m p xs\<close>: following the \<open>next\<close> field \<open>nxt\<close> from \<open>p\<close> visits the live
  objects at the addresses \<open>xs\<close> and ends in \<open>NULL\<close>.
\<close>

fun chain :: "('n \<Rightarrow> addr) \<Rightarrow> (addr \<Rightarrow> 'n option) \<Rightarrow> addr \<Rightarrow> addr list \<Rightarrow> bool" where
  "chain nxt m p [] \<longleftrightarrow> p = 0"
| "chain nxt m p (x # xs) \<longleftrightarrow>
     p = x \<and> x \<noteq> 0 \<and> (case m x of None \<Rightarrow> False | Some n \<Rightarrow> chain nxt m (nxt n) xs)"

text \<open>A piece of a list, from \<open>p\<close> up to but not including \<open>q\<close>.\<close>

fun path :: "('n \<Rightarrow> addr) \<Rightarrow> (addr \<Rightarrow> 'n option) \<Rightarrow> addr \<Rightarrow> addr list \<Rightarrow> addr \<Rightarrow> bool" where
  "path nxt m p [] q \<longleftrightarrow> p = q"
| "path nxt m p (x # xs) q \<longleftrightarrow>
     p = x \<and> x \<noteq> 0 \<and> (case m x of None \<Rightarrow> False | Some n \<Rightarrow> path nxt m (nxt n) xs q)"

lemma chain_NULL [simp]: "chain nxt m 0 xs \<longleftrightarrow> xs = []"
  by (cases xs) auto

lemma chain_nonnull: "p \<noteq> 0 \<Longrightarrow> chain nxt m p xs \<longleftrightarrow>
  (\<exists>n ys. xs = p # ys \<and> m p = Some n \<and> chain nxt m (nxt n) ys)"
  by (cases xs) (auto split: option.splits)

lemma chain_path: "chain nxt m p xs \<longleftrightarrow> path nxt m p xs 0"
  by (induction xs arbitrary: p) (auto split: option.splits)

lemma path_append:
  "path nxt m p (xs @ ys) q \<longleftrightarrow> (\<exists>r. path nxt m p xs r \<and> path nxt m r ys q)"
  by (induction xs arbitrary: p) (auto split: option.splits)

lemma path_cong:
  "(\<And>a. a \<in> set xs \<Longrightarrow> map_option nxt (m a) = map_option nxt (m' a)) \<Longrightarrow>
   path nxt m p xs q = path nxt m' p xs q"
proof (induction xs arbitrary: p)
  case (Cons x xs)
  have x: "map_option nxt (m x) = map_option nxt (m' x)" using Cons.prems by simp
  have xs: "path nxt m r xs q = path nxt m' r xs q" for r using Cons by simp
  from x show ?case by (cases "m x"; cases "m' x") (simp_all add: xs)
qed simp

lemma chain_cong:
  "(\<And>a. a \<in> set xs \<Longrightarrow> map_option nxt (m a) = map_option nxt (m' a)) \<Longrightarrow>
   chain nxt m p xs = chain nxt m' p xs"
  unfolding chain_path by (rule path_cong)

lemma path_live: "path nxt m p xs q \<Longrightarrow> a \<in> set xs \<Longrightarrow> a \<noteq> 0 \<and> m a \<noteq> None"
  by (induction xs arbitrary: p) (auto split: option.splits)

lemma chain_live: "chain nxt m p xs \<Longrightarrow> a \<in> set xs \<Longrightarrow> a \<noteq> 0 \<and> m a \<noteq> None"
  unfolding chain_path by (rule path_live)

lemma chain_unique: "chain nxt m p xs \<Longrightarrow> chain nxt m p ys \<Longrightarrow> xs = ys"
proof (induction xs arbitrary: p ys)
  case (Cons x xs)
  then show ?case by (cases ys) (auto split: option.splits)
qed simp

lemma chain_append_iff:
  "chain nxt m p (xs @ ys) \<longleftrightarrow> (\<exists>r. path nxt m p xs r \<and> chain nxt m r ys)"
  by (simp add: chain_path path_append)

lemma chain_distinct: "chain nxt m p xs \<Longrightarrow> distinct xs"
proof (induction xs arbitrary: p)
  case (Cons x xs)
  then obtain n where n: "m x = Some n" and c: "chain nxt m (nxt n) xs"
    by (auto split: option.splits)
  have "x \<notin> set xs"
  proof
    assume "x \<in> set xs"
    then obtain us vs where xs: "xs = us @ x # vs"
      by (meson split_list)
    with c obtain r where "chain nxt m r (x # vs)"
      by (auto simp only: chain_append_iff)
    then have "chain nxt m (nxt n) vs" using n by simp
    then have "xs = vs" using c by (rule chain_unique [rotated])
    with xs show False by simp
  qed
  with Cons.IH [OF c] show ?case by simp
qed simp

lemma chain_upd_other: "a \<notin> set xs \<Longrightarrow> chain nxt (m(a := v)) p xs = chain nxt m p xs"
  by (rule chain_cong) auto

lemma path_upd_other: "a \<notin> set xs \<Longrightarrow> path nxt (m(a := v)) p xs q = path nxt m p xs q"
  by (rule path_cong) auto

lemma chain_bound: "heap_ok h \<Longrightarrow> chain nxt (cells h) p xs \<Longrightarrow> a \<in> set xs \<Longrightarrow> a < brk h"
  by (auto simp: heap_ok_def dest: chain_live)

lemma chain_hnew:
  assumes "heap_ok h" and "chain nxt (cells h) p xs" and "hnew n h = (a, h')"
  shows "chain nxt (cells h') p xs"
proof -
  have "a \<notin> set xs"
    using chain_bound [OF assms(1,2)] assms(3) by (auto simp: hnew_def)
  then show ?thesis
    using assms(2,3) by (auto simp: hnew_def chain_upd_other)
qed

lemma chain_length:
  assumes "heap_ok h" and "chain nxt (cells h) p xs"
  shows "length xs < brk h"
proof -
  have "set xs \<subseteq> {1 ..< brk h}"
    using chain_bound [OF assms] chain_live [OF assms(2)] by (auto simp: Suc_le_eq)
  then have "card (set xs) \<le> card {1 ..< brk h}" by (intro card_mono) auto
  then show ?thesis
    using chain_distinct [OF assms(2)] assms(1) by (simp add: distinct_card heap_ok_def) linarith
qed

section \<open>The interface of a linked structure\<close>

text \<open>
  What the list code needs of a struct with a \<open>next\<close> field: writing the field is read
  back and leaves the rest (\<open>pay\<close>) alone.
\<close>

locale linked =
  fixes nxt :: "'n \<Rightarrow> addr"
    and set_nxt :: "addr \<Rightarrow> 'n \<Rightarrow> 'n"
    and pay :: "'n \<Rightarrow> 'p"
  assumes nxt_set: "nxt (set_nxt q n) = q"
    and pay_set: "pay (set_nxt q n) = pay n"
begin

text \<open>Pushing an object that is not in the list onto its front.\<close>

lemma push_front:
  assumes "chain nxt (cells h) p xs" and "a \<notin> set xs"
    and "hput a n' h = Inr h'" and "nxt n' = p"
  shows "chain nxt (cells h') a (a # xs)"
  using assms by (auto simp: hput_Inr_iff chain_upd_other)

text \<open>Taking the first object off.\<close>

lemma pop_front:
  assumes "chain nxt (cells h) p xs" and "p \<noteq> 0"
  obtains n ys where "xs = p # ys" and "hget p h = Inr n" and "chain nxt (cells h) (nxt n) ys"
    and "p \<notin> set ys"
proof -
  obtain n ys where xs: "xs = p # ys" and n: "cells h p = Some n"
    and c: "chain nxt (cells h) (nxt n) ys"
    using assms by (auto simp: chain_nonnull)
  moreover have "p \<notin> set ys" using chain_distinct [OF assms(1)] xs by simp
  ultimately show ?thesis using that assms(2) by (simp add: hget_Inr_iff)
qed

text \<open>Linking a new object behind one that is in the list.\<close>

lemma insert_behind:
  assumes chn: "chain nxt m p (us @ c # vs)" and c: "m c = Some nc"
    and a: "a \<noteq> 0" "a \<notin> set (us @ c # vs)" and na: "nxt na = nxt nc"
  shows "chain nxt (m(a := Some na, c := Some (set_nxt a nc))) p (us @ c # a # vs)"
proof -
  have dist: "distinct (us @ c # vs)" using chn by (rule chain_distinct)
  obtain r where r: "path nxt m p us r" and cv: "chain nxt m r (c # vs)"
    using chn by (auto simp only: chain_append_iff)
  have "path nxt (m(a := Some na, c := Some (set_nxt a nc))) p us r"
    using r dist a by (simp add: path_upd_other)
  moreover have "chain nxt (m(a := Some na, c := Some (set_nxt a nc))) r (c # a # vs)"
    using cv c a na dist by (auto simp: nxt_set chain_upd_other)
  ultimately show ?thesis by (auto simp only: chain_append_iff)
qed

text \<open>The contents of a list, in order, are unchanged by relinking.\<close>

lemma pay_insert_behind:
  "m c = Some nc \<Longrightarrow> x \<noteq> a \<Longrightarrow>
   map_option pay ((m(a := Some na, c := Some (set_nxt a nc))) x) = map_option pay (m x)"
  by (simp add: pay_set)

end

end
