(* ===== verification/Cfloat.thy ===== *)
theory Cfloat
  imports Prelude "HOL-Library.Log_Nat"
begin

text \<open>
  The floating point the program relies on: the order of \<open>float\<close> values (hook priorities),
  and the rounding in mixed integer and float arithmetic (growth factors, collision limit).
\<close>

section \<open>Comparing floats\<close>

text \<open>
  Finite values are kept as rationals. Comparisons follow IEEE 754: every comparison with
  a NaN is false, so this is not a linear order.
\<close>

datatype cfloat = NaN | Neg_inf | Fin rat | Pos_inf

instantiation cfloat :: ord
begin

fun less_cfloat :: "cfloat \<Rightarrow> cfloat \<Rightarrow> bool" where
  "less_cfloat NaN _ = False"
| "less_cfloat _ NaN = False"
| "less_cfloat Neg_inf b = (b \<noteq> Neg_inf)"
| "less_cfloat (Fin a) Neg_inf = False"
| "less_cfloat (Fin a) (Fin b) = (a < b)"
| "less_cfloat (Fin a) Pos_inf = True"
| "less_cfloat Pos_inf _ = False"

definition less_eq_cfloat :: "cfloat \<Rightarrow> cfloat \<Rightarrow> bool" where
  "less_eq_cfloat a b \<longleftrightarrow> a < b \<or> (a = b \<and> a \<noteq> NaN)"

instance ..

end

lemma cfloat_less_trans: "a < b \<Longrightarrow> b < c \<Longrightarrow> a < c" for a :: cfloat
  by (cases a; cases b; cases c) auto

lemma cfloat_less_irrefl [simp]: "\<not> a < a" for a :: cfloat
  by (cases a) auto

lemma cfloat_not_less: "a \<noteq> NaN \<Longrightarrow> b \<noteq> NaN \<Longrightarrow> \<not> a < b \<longleftrightarrow> b \<le> a" for a :: cfloat
  by (cases a; cases b) (auto simp: less_eq_cfloat_def)

lemma cfloat_le_trans: "a \<le> b \<Longrightarrow> b \<le> c \<Longrightarrow> a \<le> c" for a :: cfloat
  by (cases a; cases b; cases c) (auto simp: less_eq_cfloat_def)

lemma cfloat_less_le_trans: "a < b \<Longrightarrow> b \<le> c \<Longrightarrow> a < c" for a :: cfloat
  by (cases a; cases b; cases c) (auto simp: less_eq_cfloat_def)

lemma cfloat_le_less_trans: "a \<le> b \<Longrightarrow> b < c \<Longrightarrow> a < c" for a :: cfloat
  by (cases a; cases b; cases c) (auto simp: less_eq_cfloat_def)

lemma cfloat_less_imp_le: "a < b \<Longrightarrow> a \<le> b" for a :: cfloat
  by (simp add: less_eq_cfloat_def)

lemma cfloat_NaN [simp]: "\<not> NaN < a" "\<not> a < NaN"
  by (cases a; simp)+

section \<open>Rounding to the nearest, ties to even\<close>

text \<open>
  \<open>round_at s n\<close> rounds to a multiple of \<open>2 ^ s\<close>; \<open>fl p n\<close> keeps \<open>p\<close> significant bits,
  as the conversion of \<open>n\<close> to a float type with a \<open>p\<close>-bit significand does (24 for
  \<open>float\<close>, 53 for \<open>double\<close>). A product with a constant \<open>m * 2 ^ -k\<close> is rounded as the
  integer product with \<open>m\<close>, the scaling by a power of two being exact.
\<close>

definition round_at :: "nat \<Rightarrow> nat \<Rightarrow> nat" where
  "round_at s n =
     (let q = n div 2 ^ s; r = 2 * (n mod 2 ^ s)
      in (if r > 2 ^ s \<or> (r = 2 ^ s \<and> odd q) then q + 1 else q) * 2 ^ s)"

definition fl :: "nat \<Rightarrow> nat \<Rightarrow> nat" where
  "fl p n = round_at (floorlog 2 n - p) n"

definition fl_int :: "nat \<Rightarrow> int \<Rightarrow> int" where
  "fl_int p n = sgn n * int (fl p (nat \<bar>n\<bar>))"

lemma round_at_0 [simp]: "round_at 0 n = n"
  by (simp add: round_at_def)

lemma round_at_dvd: "2 ^ s dvd round_at s n"
  by (simp add: round_at_def Let_def)

lemma round_at_id: "2 ^ s dvd n \<Longrightarrow> round_at s n = n"
  by (auto simp: round_at_def Let_def)

lemma round_at_mono:
  assumes "m \<le> n"
  shows "round_at s m \<le> round_at s n"
proof (cases "m div 2 ^ s = n div 2 ^ s")
  case True
  with assms have "m mod 2 ^ s \<le> n mod 2 ^ s"
    by (metis add_le_cancel_left mult_div_mod_eq)
  with True show ?thesis by (auto simp: round_at_def Let_def)
next
  case False
  with assms have "Suc (m div 2 ^ s) \<le> n div 2 ^ s"
    by (simp add: Suc_le_eq div_le_mono order_le_neq_trans)
  then show ?thesis unfolding round_at_def Let_def by (intro mult_le_mono1) auto
qed

lemma floorlog2_bounds: "0 < n \<Longrightarrow> 2 ^ (floorlog 2 n - 1) \<le> n \<and> n < 2 ^ floorlog 2 n"
  using floorlog_bounds [of n 2] by simp

lemma floorlog2_pos: "0 < n \<Longrightarrow> 0 < floorlog 2 n"
  by (simp add: floorlog_def)

lemma fl_le_pow: "0 < n \<Longrightarrow> fl p n \<le> 2 ^ floorlog 2 n"
proof -
  assume "0 < n"
  then have "round_at (floorlog 2 n - p) n \<le> round_at (floorlog 2 n - p) (2 ^ floorlog 2 n)"
    using floorlog2_bounds [of n] by (intro round_at_mono) simp
  also have "\<dots> = 2 ^ floorlog 2 n" by (intro round_at_id le_imp_power_dvd) simp
  finally show ?thesis by (simp add: fl_def)
qed

lemma fl_ge_pow: "0 < n \<Longrightarrow> 0 < p \<Longrightarrow> 2 ^ (floorlog 2 n - 1) \<le> fl p n"
proof -
  assume n: "0 < n" and p: "0 < p"
  have "2 ^ (floorlog 2 n - 1) = round_at (floorlog 2 n - p) (2 ^ (floorlog 2 n - 1) :: nat)"
    using p by (intro round_at_id [symmetric] le_imp_power_dvd) simp
  also have "\<dots> \<le> round_at (floorlog 2 n - p) n"
    using floorlog2_bounds [OF n] by (intro round_at_mono) simp
  finally show ?thesis by (simp add: fl_def)
qed

lemma fl_0 [simp]: "fl p 0 = 0"
  by (simp add: fl_def round_at_def)

lemma fl_mono:
  assumes "m \<le> n" and "0 < p"
  shows "fl p m \<le> fl p n"
proof (cases "m = 0 \<or> floorlog 2 m = floorlog 2 n")
  case True
  with assms show ?thesis by (auto simp: fl_def round_at_mono round_at_def [of _ 0])
next
  case False
  with assms have lt: "floorlog 2 m < floorlog 2 n"
    using floorlog_mono [of m n 2] by simp
  have "fl p m \<le> 2 ^ floorlog 2 m" using False by (intro fl_le_pow) simp
  also have "\<dots> \<le> (2 ^ (floorlog 2 n - 1) :: nat)" using lt by (intro power_increasing) auto
  also have "\<dots> \<le> fl p n" using False assms by (intro fl_ge_pow) auto
  finally show ?thesis .
qed

text \<open>The integers a float type holds exactly.\<close>

definition exact :: "nat \<Rightarrow> nat \<Rightarrow> bool" where
  "exact p n \<longleftrightarrow> 2 ^ (floorlog 2 n - p) dvd n"

lemma fl_exact: "exact p n \<Longrightarrow> fl p n = n"
  by (simp add: exact_def fl_def round_at_id)

lemma exact_small: "n < 2 ^ p \<Longrightarrow> exact p n"
  by (simp add: exact_def floorlog_leI)

lemma exact_scale: "exact p n \<Longrightarrow> exact p (n * 2 ^ k)"
proof (cases "n = 0")
  case False
  assume "exact p n"
  then have "2 ^ (floorlog 2 n - p) * 2 ^ k dvd n * 2 ^ k"
    unfolding exact_def by (rule mult_dvd_mono) simp
  moreover have "2 ^ (floorlog 2 n + k - p) dvd (2 ^ (floorlog 2 n - p) * 2 ^ k :: nat)"
    by (simp add: le_imp_power_dvd flip: power_add)
  ultimately show ?thesis
    using False by (auto simp: exact_def intro: dvd_trans)
qed (simp add: exact_def)

lemma exact_fl: "0 < p \<Longrightarrow> exact p (fl p n)"
proof (cases "n = 0")
  case False
  assume p: "0 < p"
  let ?s = "floorlog 2 n - p"
  show ?thesis
  proof (cases "fl p n = 2 ^ floorlog 2 n")
    case True
    have "floorlog 2 (2 ^ floorlog 2 n :: nat) = Suc (floorlog 2 n)"
      using floorlog_power [of 1 2 "floorlog 2 n"] by (simp add: floorlog_def)
    with True p show ?thesis by (simp add: exact_def le_imp_power_dvd)
  next
    case ne: False
    then have "fl p n < 2 ^ floorlog 2 n" using False fl_le_pow [of n p] by simp
    then have "floorlog 2 (fl p n) \<le> floorlog 2 n" by (intro floorlog_leI) auto
    then have "2 ^ (floorlog 2 (fl p n) - p) dvd (2 ^ ?s :: nat)"
      by (intro le_imp_power_dvd) simp
    also have "2 ^ ?s dvd fl p n" by (simp add: fl_def round_at_dvd)
    finally show ?thesis by (simp add: exact_def)
  qed
qed (simp add: exact_def)

section \<open>The growth factors and the collision limit\<close>

text \<open>
  \<open>1.618f\<close> is \<open>13572768 * 2 ^ -23\<close>. The product of an \<open>int\<close> with it, scaled by \<open>2 ^ 23\<close>.
\<close>

definition mul_growth :: "int \<Rightarrow> int" where
  "mul_growth n = fl_int 24 (fl_int 24 n * 13572768)"

text \<open>The test \<open>all - empty > all * 1.618f\<close> of the two caches.\<close>

definition over_growth :: "int \<Rightarrow> int \<Rightarrow> bool" where
  "over_growth n_all n_empty \<longleftrightarrow> fl_int 24 (n_all - n_empty) * 2 ^ 23 > mul_growth n_all"

text \<open>\<open>(int)( n * 1.618f )\<close>; a value outside the range of \<open>int\<close> is undefined.\<close>

definition grow_len :: "int \<Rightarrow> int outcome" where
  "grow_len n =
     (let r = sgn (mul_growth n) * (\<bar>mul_growth n\<bar> div 2 ^ 23)
      in if INT_MIN \<le> r \<and> r \<le> INT_MAX then Inr r else Inl (Undef Float_range))"

text \<open>\<open>(int)( (float)n * 0.1 )\<close>, with the double \<open>0.1 = 3602879701896397 * 2 ^ -55\<close>.\<close>

definition tenth :: "int \<Rightarrow> int" where
  "tenth n =
     (let m = fl_int 53 (fl_int 24 n * 3602879701896397) in sgn m * (\<bar>m\<bar> div 2 ^ 55))"

lemma fl_int_nat: "0 \<le> n \<Longrightarrow> fl_int p n = int (fl p (nat n))"
  by (cases "n = 0") (simp_all add: fl_int_def)

lemma mul_growth_nat: "mul_growth (int n) = int (fl 24 (fl 24 n * 13572768))"
  by (simp add: mul_growth_def fl_int_nat nat_mult_distrib)

text \<open>No cache that is at most full ever passes the test.\<close>

lemma over_growth_never:
  assumes "0 \<le> n_empty" and "n_empty \<le> n_all"
  shows "\<not> over_growth n_all n_empty"
proof -
  obtain a e where a: "n_all = int a" and e: "n_empty = int e" and le: "e \<le> a"
    using assms by (metis nat_0_le nat_le_eq_zle order_trans zero_le_imp_eq_int)
  have "fl 24 (a - e) * 2 ^ 23 \<le> fl 24 a * 2 ^ 23"
    by (simp add: fl_mono)
  also have "\<dots> = fl 24 (fl 24 a * 2 ^ 23)"
    by (intro fl_exact [symmetric] exact_scale exact_fl) simp
  also have "\<dots> \<le> fl 24 (fl 24 a * 13572768)"
    by (intro fl_mono mult_le_mono2) simp_all
  finally have "int (fl 24 (a - e)) * 2 ^ 23 \<le> int (fl 24 (fl 24 a * 13572768))"
    by (metis (mono_tags) of_nat_le_iff of_nat_mult of_nat_numeral of_nat_power)
  moreover have "n_all - n_empty = int (a - e)" using a e le by simp
  ultimately show ?thesis
    by (simp add: over_growth_def a mul_growth_nat fl_int_nat)
qed

text \<open>Growing an array that holds at least two entries makes it strictly longer, at most
  twice as long, and stays within \<open>int\<close>.\<close>

lemma grow_len_grows:
  assumes "2 \<le> n" and "n < 2 ^ 24"
  obtains m where "grow_len n = Inr m" and "n < m" and "m \<le> 2 * n"
proof -
  obtain k where k: "n = int k" using assms by (metis nonneg_int_cases order_trans zero_le_numeral)
  with assms have k2: "2 \<le> k" and k24: "k < 2 ^ 24" by simp_all
  define f where "f = fl 24 (k * 13572768)"
  have f: "mul_growth n = int f"
    using k24 by (simp add: k mul_growth_nat f_def fl_exact exact_small)
  have "Suc k * 2 ^ 23 = fl 24 (Suc k * 2 ^ 23)"
  proof (intro fl_exact [symmetric] exact_scale)
    have "Suc k = 2 ^ 24 \<or> Suc k < 2 ^ 24" using k24 by linarith
    then show "exact 24 (Suc k)"
      using exact_scale [of 24 1 24] by (auto simp: exact_small)
  qed
  also have "\<dots> \<le> f" unfolding f_def using k2 by (intro fl_mono) simp_all
  finally have lo: "Suc k \<le> f div 2 ^ 23" by (simp add: less_eq_div_iff_mult_less_eq)
  have "f \<le> fl 24 ((2 * k) * 2 ^ 23)" unfolding f_def by (intro fl_mono) simp_all
  also have "\<dots> = k * 2 ^ 24"
    using exact_scale [OF exact_small [OF k24], of 24] by (simp add: fl_exact mult.commute)
  finally have hi: "f div 2 ^ 23 \<le> 2 * k"
    using div_le_mono [of f "k * 2 ^ 24" "2 ^ 23"] by simp
  have r: "sgn (mul_growth n) * (\<bar>mul_growth n\<bar> div 2 ^ 23) = int (f div 2 ^ 23)"
    by (simp add: f sgn_if zdiv_int)
  show ?thesis
  proof (rule that)
    show "grow_len n = Inr (int (f div 2 ^ 23))"
      using hi k24 unfolding grow_len_def Let_def r INT_MIN_def INT_MAX_def by auto
    show "n < int (f div 2 ^ 23)" using lo k by simp
    show "int (f div 2 ^ 23) \<le> 2 * n" using hi k by simp
  qed
qed

end
