(* ===== verification/Bstr.thy ===== *)
theory Bstr
  imports Prelude
begin

text \<open>
  The string library. bstrlib is a submodule of the repository whose code is not part of
  it, so its functions are a parameter \<open>bs\<close> of every definition that calls them, and what
  the program relies on is the predicate \<open>bstr_ok\<close>. A \<open>bstring\<close> is represented by
  its bytes, the contents of the \<open>slen\<close> and \<open>data\<close> fields; a C string by the bytes before
  its terminator.
\<close>

record bstrlib =
  biseq :: "string \<Rightarrow> string \<Rightarrow> int"
  biseqcstr :: "string \<Rightarrow> string \<Rightarrow> int"
  cstr_content :: "string \<Rightarrow> string"

text \<open>
  Documented behaviour: the comparisons return 1 for equal contents and 0 for different
  ones, \<open>bfromcstr\<close> copies the bytes of a C string.
\<close>

definition bstr_ok :: "bstrlib \<Rightarrow> bool" where
  "bstr_ok bs \<longleftrightarrow>
     (\<forall>a b. biseq bs a b = (if a = b then 1 else 0)) \<and>
     (\<forall>a s. biseqcstr bs a s = (if a = s then 1 else 0)) \<and>
     (\<forall>s. cstr_content bs s = s)"

text \<open>An implementation with that behaviour, for concrete runs.\<close>

definition plain_bstr :: bstrlib where
  "plain_bstr = \<lparr>biseq = (\<lambda>a b. if a = b then 1 else 0),
     biseqcstr = (\<lambda>a s. if a = s then 1 else 0), cstr_content = (\<lambda>s. s)\<rparr>"

lemma plain_bstr_ok [simp]: "bstr_ok plain_bstr"
  by (simp add: bstr_ok_def plain_bstr_def)

text \<open>\<open>bfromcstr\<close> allocates; \<open>bdestroy\<close> is \<open>drop_block\<close>.\<close>

definition bfromcstr :: "bstrlib \<Rightarrow> env \<Rightarrow> string \<Rightarrow> string option \<times> env" where
  "bfromcstr bs v s = (let (ok, v) = take_block v in (if ok then Some (cstr_content bs s) else None, v))"

lemma biseq_1 [simp]: "bstr_ok bs \<Longrightarrow> biseq bs a b = 1 \<longleftrightarrow> a = b"
  by (simp add: bstr_ok_def)

lemma biseq_0 [simp]: "bstr_ok bs \<Longrightarrow> biseq bs a b = 0 \<longleftrightarrow> a \<noteq> b"
  by (simp add: bstr_ok_def)

lemma biseq_no_error [simp]: "bstr_ok bs \<Longrightarrow> biseq bs a b \<noteq> - 1"
  by (simp add: bstr_ok_def)

lemma biseqcstr_1 [simp]: "bstr_ok bs \<Longrightarrow> biseqcstr bs a b = 1 \<longleftrightarrow> a = b"
  by (simp add: bstr_ok_def)

lemma cstr_content_id [simp]: "bstr_ok bs \<Longrightarrow> cstr_content bs s = s"
  by (simp add: bstr_ok_def)

lemma bfromcstr_cases:
  assumes "bstr_ok bs"
  obtains v' where "bfromcstr bs v s = (None, v')" and "live v' = live v"
    | v' where "bfromcstr bs v s = (Some s, v')" and "live v' = live v + 1"
proof -
  obtain ok v' where t: "take_block v = (ok, v')" by (cases "take_block v")
  with take_block_live [OF t] assms that show ?thesis
    by (cases ok) (auto simp: bfromcstr_def)
qed

lemma bfromcstr_calm:
  "calm v \<Longrightarrow> bstr_ok bs \<Longrightarrow> bfromcstr bs v s = (Some s, v\<lparr>live := live v + 1\<rparr>)"
  by (simp add: bfromcstr_def take_block_calm)

end
