(* ===== verification/Registry.thy ===== *)
theory Registry
  imports Prelude
begin

text \<open>
  The contract shared by the tables of the library (hash table, variables, routes): an
  operation enters a value under a key and returns 0, or fails, returns -1 and leaves the
  contents alone; an entry is never replaced, so the first registration of a key wins.
\<close>

definition first_wins :: "('k \<Rightarrow> 'b option) \<Rightarrow> 'k \<Rightarrow> 'b \<Rightarrow> 'k \<Rightarrow> 'b option" where
  "first_wins m k b = (case m k of None \<Rightarrow> m(k := Some b) | Some _ \<Rightarrow> m)"

lemma first_wins_old: "m k' = Some c \<Longrightarrow> first_wins m k b k' = Some c"
  by (auto simp: first_wins_def split: option.splits)

lemma first_wins_key: "first_wins m k b k = Some (case m k of None \<Rightarrow> b | Some c \<Rightarrow> c)"
  by (simp add: first_wins_def split: option.splits)

lemma first_wins_other: "k' \<noteq> k \<Longrightarrow> first_wins m k b k' = m k'"
  by (simp add: first_wins_def split: option.splits)

lemma first_wins_map_of: "first_wins (map_of xs) k b = map_of (xs @ [(k, b)])"
  by (rule ext) (auto simp: first_wins_def map_add_def split: option.splits)

lemma map_add_first_wins: "f ++ first_wins m k b = f(k \<mapsto> b) ++ m"
  by (rule ext) (auto simp: first_wins_def map_add_def split: option.splits)

text \<open>A run of registrations, with the return codes collected.\<close>

fun register_all ::
  "('t \<Rightarrow> 'k \<Rightarrow> 'a \<Rightarrow> env \<Rightarrow> (int \<times> 't \<times> env) outcome) \<Rightarrow> 't \<Rightarrow> ('k \<times> 'a) list \<Rightarrow> env \<Rightarrow>
   (int list \<times> 't \<times> env) outcome" where
  "register_all reg t [] v = Inr ([], t, v)"
| "register_all reg t ((k, a) # kas) v =
     bindo (reg t k a v) (\<lambda>(rc, t, v).
     bindo (register_all reg t kas v) (\<lambda>(rcs, t, v). Inr (rc # rcs, t, v)))"

text \<open>The registrations that returned 0, in order.\<close>

definition accepted :: "('a \<Rightarrow> 'b) \<Rightarrow> int list \<Rightarrow> ('k \<times> 'a) list \<Rightarrow> ('k \<times> 'b) list" where
  "accepted val rcs kas =
     map (\<lambda>(rc, k, a). (k, val a)) (filter (\<lambda>(rc, k, a). rc = 0) (zip rcs kas))"

lemma accepted_Nil [simp]: "accepted val rcs [] = []"
  by (simp add: accepted_def)

lemma accepted_Cons [simp]:
  "accepted val (rc # rcs) ((k, a) # kas) =
     (if rc = 0 then [(k, val a)] else []) @ accepted val rcs kas"
  by (simp add: accepted_def)

locale registry =
  fixes reg :: "'t \<Rightarrow> 'k \<Rightarrow> 'a \<Rightarrow> env \<Rightarrow> (int \<times> 't \<times> env) outcome"
    and contents :: "'t \<Rightarrow> 'k \<Rightarrow> 'b option"
    and val :: "'a \<Rightarrow> 'b"
    and inv :: "'t \<Rightarrow> bool"
  assumes reg_returns: "inv t \<Longrightarrow> \<exists>rc t' v'. reg t k a v = Inr (rc, t', v')"
    and reg_inv: "inv t \<Longrightarrow> reg t k a v = Inr (rc, t', v') \<Longrightarrow> inv t'"
    and reg_ok: "inv t \<Longrightarrow> reg t k a v = Inr (0, t', v') \<Longrightarrow>
      contents t' = first_wins (contents t) k (val a)"
    and reg_fail: "inv t \<Longrightarrow> reg t k a v = Inr (rc, t', v') \<Longrightarrow> rc \<noteq> 0 \<Longrightarrow>
      contents t' = contents t"
begin

lemma register_all_returns:
  "inv t \<Longrightarrow> \<exists>rcs t' v'. register_all reg t kas v = Inr (rcs, t', v')"
proof (induction kas arbitrary: t v)
  case (Cons ka kas)
  obtain k a where ka: "ka = (k, a)" by (cases ka)
  obtain rc t' v' where r: "reg t k a v = Inr (rc, t', v')"
    using reg_returns [OF Cons.prems] by blast
  then have "inv t'" by (rule reg_inv [OF Cons.prems])
  with Cons.IH [of t' v'] show ?case by (auto simp: ka r)
qed simp

lemma register_all_inv:
  "inv t \<Longrightarrow> register_all reg t kas v = Inr (rcs, t', v') \<Longrightarrow> inv t'"
proof (induction kas arbitrary: t v rcs)
  case (Cons ka kas)
  then show ?case by (cases ka) (auto simp: bindo_eq_Inr dest: reg_inv)
qed simp

text \<open>After any run the table holds, for every key, the first accepted registration.\<close>

lemma register_all_contents:
  "inv t \<Longrightarrow> register_all reg t kas v = Inr (rcs, t', v') \<Longrightarrow>
   contents t' = map_of (accepted val rcs kas) ++ contents t"
proof (induction kas arbitrary: t v rcs)
  case (Cons ka kas)
  obtain k a where ka: "ka = (k, a)" by (cases ka)
  from Cons.prems(2) obtain rc t1 v1 rcs1 where r: "reg t k a v = Inr (rc, t1, v1)"
    and rs: "register_all reg t1 kas v1 = Inr (rcs1, t', v')" and rcs: "rcs = rc # rcs1"
    by (auto simp: ka bindo_eq_Inr)
  have inv1: "inv t1" using reg_inv [OF Cons.prems(1) r] .
  have t': "contents t' = map_of (accepted val rcs1 kas) ++ contents t1"
    using Cons.IH [OF inv1 rs] .
  show ?case
  proof (cases "rc = 0")
    case True
    with r have "contents t1 = first_wins (contents t) k (val a)"
      using reg_ok [OF Cons.prems(1)] by simp
    with True t' show ?thesis
      by (auto simp: ka rcs first_wins_def map_add_def fun_eq_iff split: option.splits)
  next
    case False
    with r have "contents t1 = contents t" using reg_fail [OF Cons.prems(1)] by blast
    with False t' show ?thesis by (simp add: ka rcs)
  qed
qed simp

end

end
