(* ===== verification/Ht.thy ===== *)
theory Ht
  imports Murmur3 Cfloat Bstr Registry
begin

text \<open>
  The hash table of \<open>src/ht.c\<close>. A bucket is a growing array of slots, each a key and a value;
  only the first \<open>el_c\<close> slots count. \<open>el\<close> is \<open>None\<close> for the \<open>NULL\<close> of a bucket that was never
  written. A pointer to a value in the table is the pair of its bucket and slot. The callbacks
  of the struct are HOL functions: \<open>set_value\<close> gives the return code and the value it writes,
  \<open>destructor\<close> the blocks it frees. The table owns two blocks, one per allocated bucket, and
  one per key.
\<close>

section \<open>The table\<close>

record 'v bucket =
  el_c :: nat
  el :: "(string \<times> 'v) list option"

record ('v, 'a) ht =
  value_size :: u64
  set_value :: "'a \<Rightarrow> int \<times> 'v"
  destructor :: "'v \<Rightarrow> env \<Rightarrow> env"
  collisions_count :: int
  buck_c :: int
  buck :: "'v bucket list"

type_synonym loc = "nat \<times> nat"

definition empty_bucket :: "'v bucket" where
  "empty_bucket = \<lparr>el_c = 0, el = None\<rparr>"

definition slots :: "'v bucket \<Rightarrow> (string \<times> 'v) list" where
  "slots b = (case el b of None \<Rightarrow> [] | Some xs \<Rightarrow> xs)"

text \<open>\<open>calloc\<close> of a negative count converted to \<open>size_t\<close> cannot succeed.\<close>

definition fra_p_ht_new ::
  "env \<Rightarrow> int \<Rightarrow> u64 \<Rightarrow> ('a \<Rightarrow> int \<times> 'v) \<Rightarrow> ('v \<Rightarrow> env \<Rightarrow> env) \<Rightarrow> ('v, 'a) ht ptr \<times> env" where
  "fra_p_ht_new v bucket_count vsize setv destr =
     (let (ok, v) = take_block v in
      if \<not> ok then (Null, v)
      else if bucket_count < 0 then (Null, drop_block v)
      else let (ok, v) = take_block v in
      if \<not> ok then (Null, drop_block v)
      else (Live \<lparr>value_size = vsize, set_value = setv, destructor = destr,
              collisions_count = 0, buck_c = bucket_count,
              buck = replicate (nat bucket_count) empty_bucket\<rparr>, v))"

text \<open>\<open>i = hash % ht->buck_c\<close>, computed in \<open>uint32_t\<close>, and the bucket there.\<close>

definition bucket_index :: "('v, 'a) ht \<Rightarrow> u32 \<Rightarrow> nat outcome" where
  "bucket_index ht hash =
     (if (word_of_int (buck_c ht) :: u32) = 0 then Inl (Undef Div_by_zero)
      else Inr (unat (hash mod word_of_int (buck_c ht))))"

definition get_bucket :: "('v, 'a) ht \<Rightarrow> nat \<Rightarrow> 'v bucket outcome" where
  "get_bucket ht i =
     (if i < length (buck ht) then Inr (buck ht ! i) else Inl (Undef Out_of_bounds))"

text \<open>The collision counter of \<open>fra_p_ht_set\<close> after an entry has gone into a bucket.\<close>

definition count_collision :: "('v, 'a) ht \<Rightarrow> nat \<Rightarrow> int" where
  "count_collision ht c =
     (let n = (if c > 1 then collisions_count ht + 1 else collisions_count ht)
      in if n > tenth (buck_c ht) then INT_MIN else n)"

definition fra_p_ht_set ::
  "bstrlib \<Rightarrow> ('v, 'a) ht ptr \<Rightarrow> string \<Rightarrow> 'a \<Rightarrow> env \<Rightarrow>
   (int \<times> ('v, 'a) ht ptr \<times> env) outcome" where
  "fra_p_ht_set bs hp key arg v =
     (case bfromcstr bs v key of
        (None, v) \<Rightarrow> Inr (- 1, hp, v)
      | (Some key_str, v) \<Rightarrow>
          bindo (MurmurHash3_x86_32 (bytes_of key_str) (length key_str) 55) (\<lambda>hash.
          bindo (deref hp) (\<lambda>ht.
          bindo (bucket_index ht hash) (\<lambda>i.
          bindo (get_bucket ht i) (\<lambda>b.
            let (ok, v) = (if el b = None then take_block v else draw v) in
            if \<not> ok then Inr (- 1, hp, drop_block v)
            else
              let (rc, x) = set_value ht arg;
                  b = b\<lparr>el := Some (take (el_c b) (slots b) @ [(key_str, x)])\<rparr>;
                  ht1 = ht\<lparr>buck := (buck ht)[i := b]\<rparr>
              in if rc \<noteq> 0 then Inr (- 1, Live ht1, drop_block v)
                 else
                   let b = b\<lparr>el_c := el_c b + 1\<rparr>
                   in Inr (0, Live (ht\<lparr>buck := (buck ht)[i := b],
                              collisions_count := count_collision ht (el_c b)\<rparr>), v))))))"

text \<open>The loop of \<open>fra_p_ht_get_by_hash\<close> over the slots of a bucket.\<close>

function scan :: "bstrlib \<Rightarrow> (string \<times> 'v) list \<Rightarrow> nat \<Rightarrow> string \<Rightarrow> nat \<Rightarrow> nat option outcome" where
  "scan bs xs c key j =
     (if j < c then
        (if j < length xs then
           (if biseq bs (fst (xs ! j)) key = 1 then Inr (Some j)
            else scan bs xs c key (Suc j))
         else Inl (Undef Out_of_bounds))
      else Inr None)"
  by pat_completeness auto
termination
  by (relation "measure (\<lambda>(bs, xs, c, key, j). c - j)") auto

declare scan.simps [simp del]

text \<open>
  Keys are read from a buffer with an explicit length, as the code does; a length beyond the
  buffer is out of bounds.
\<close>

definition fra_p_ht_get_by_hash ::
  "bstrlib \<Rightarrow> ('v, 'a) ht ptr \<Rightarrow> string \<Rightarrow> nat \<Rightarrow> u32 \<Rightarrow> loc option outcome" where
  "fra_p_ht_get_by_hash bs hp key key_len hash =
     (if hp = Null then Inr None
      else bindo (deref hp) (\<lambda>ht.
          bindo (bucket_index ht hash) (\<lambda>i.
          bindo (get_bucket ht i) (\<lambda>b.
          bindo (scan bs (slots b) (el_c b) (take key_len key) 0) (\<lambda>j.
            Inr (map_option (Pair i) j))))))"

definition fra_p_ht_get ::
  "bstrlib \<Rightarrow> ('v, 'a) ht ptr \<Rightarrow> string \<Rightarrow> nat \<Rightarrow> loc option outcome" where
  "fra_p_ht_get bs hp key key_len =
     bindo (MurmurHash3_x86_32 (bytes_of key) key_len 55) (\<lambda>hash.
       fra_p_ht_get_by_hash bs hp key key_len hash)"

text \<open>Reading and writing the value behind a pointer into the table (\<open>get_value\<close>).\<close>

definition ht_slot :: "('v, 'a) ht \<Rightarrow> loc \<Rightarrow> string \<times> 'v" where
  "ht_slot ht l = slots (buck ht ! fst l) ! snd l"

definition ht_value :: "('v, 'a) ht \<Rightarrow> loc \<Rightarrow> 'v" where
  "ht_value ht l = snd (ht_slot ht l)"

definition ht_update :: "('v, 'a) ht \<Rightarrow> loc \<Rightarrow> 'v \<Rightarrow> ('v, 'a) ht" where
  "ht_update ht l x =
     (let b = buck ht ! fst l
      in ht\<lparr>buck := (buck ht)[fst l :=
           b\<lparr>el := Some ((slots b)[snd l := (fst (ht_slot ht l), x)])\<rparr>]\<rparr>)"

definition free_slot :: "('v, 'a) ht \<Rightarrow> string \<times> 'v \<Rightarrow> env \<Rightarrow> env" where
  "free_slot ht s v = destructor ht (snd s) (drop_block v)"

definition free_bucket :: "('v, 'a) ht \<Rightarrow> 'v bucket \<Rightarrow> env \<Rightarrow> env" where
  "free_bucket ht b v =
     (let v = fold (free_slot ht) (take (el_c b) (slots b)) v
      in if el b = None then v else drop_block v)"

definition fra_p_ht_free :: "('v, 'a) ht ptr \<Rightarrow> env \<Rightarrow> env outcome" where
  "fra_p_ht_free hp v =
     (if hp = Null then Inr v
      else bindo (deref hp) (\<lambda>ht.
        Inr (drop_block (drop_block (fold (free_bucket ht) (buck ht) v)))))"

section \<open>Well-formed tables and their contents\<close>

definition key_index :: "('v, 'a) ht \<Rightarrow> string \<Rightarrow> nat" where
  "key_index ht k = unat (murmur32_spec (bytes_of k) 55 mod word_of_int (buck_c ht))"

definition live_slots :: "'v bucket \<Rightarrow> (string \<times> 'v) list" where
  "live_slots b = take (el_c b) (slots b)"

definition bucket_ok :: "('v, 'a) ht \<Rightarrow> nat \<Rightarrow> 'v bucket \<Rightarrow> bool" where
  "bucket_ok ht i b \<longleftrightarrow>
     el_c b \<le> length (slots b) \<and> (\<forall>k \<in> set (map fst (live_slots b)). key_index ht k = i)"

definition ht_ok :: "('v, 'a) ht \<Rightarrow> bool" where
  "ht_ok ht \<longleftrightarrow> 0 < buck_c ht \<and> buck_c ht < 2 ^ 31 \<and> length (buck ht) = nat (buck_c ht) \<and>
     (\<forall>i < length (buck ht). bucket_ok ht i (buck ht ! i))"

definition ht_map :: "('v, 'a) ht \<Rightarrow> string \<Rightarrow> 'v option" where
  "ht_map ht k = map_of (live_slots (buck ht ! key_index ht k)) k"

text \<open>Everything stored in a table, in no particular order.\<close>

definition ht_entries :: "('v, 'a) ht \<Rightarrow> (string \<times> 'v) multiset" where
  "ht_entries ht = mset (concat (map live_slots (buck ht)))"

text \<open>The blocks a table owns: itself, the bucket array, the used buckets and the keys.\<close>

definition bucket_blocks :: "'v bucket \<Rightarrow> int" where
  "bucket_blocks b = int (length (live_slots b)) + (if el b = None then 0 else 1)"

definition ht_blocks :: "('v, 'a) ht \<Rightarrow> int" where
  "ht_blocks ht = 2 + sum_list (map bucket_blocks (buck ht))"

lemma bytes_of_length [simp]: "length (bytes_of s) = length s"
  by (simp add: bytes_of_def)

lemma bytes_of_take: "bytes_of (take n s) = take n (bytes_of s)"
  by (simp add: bytes_of_def take_map)

lemma ht_ok_modulus:
  assumes "ht_ok ht"
  shows "(word_of_int (buck_c ht) :: u32) \<noteq> 0"
    and "unat (w mod (word_of_int (buck_c ht) :: u32)) < length (buck ht)"
proof -
  have u: "unat (word_of_int (buck_c ht) :: u32) = nat (buck_c ht)"
    using assms
    by (simp add: ht_ok_def unat_eq_nat_uint uint_word_of_int take_bit_eq_mod)
  then show "(word_of_int (buck_c ht) :: u32) \<noteq> 0"
    using assms by (metis ht_ok_def less_irrefl nat_0_iff not_le unat_0)
  show "unat (w mod (word_of_int (buck_c ht) :: u32)) < length (buck ht)"
    using assms u by (simp add: unat_mod ht_ok_def)
qed

lemma key_index_bound: "ht_ok ht \<Longrightarrow> key_index ht k < length (buck ht)"
  unfolding key_index_def by (rule ht_ok_modulus)

lemma bucket_index_ok:
  "ht_ok ht \<Longrightarrow> bucket_index ht (murmur32_spec (bytes_of k) 55) = Inr (key_index ht k)"
  by (simp add: bucket_index_def key_index_def ht_ok_modulus)

lemma get_bucket_ok: "ht_ok ht \<Longrightarrow> get_bucket ht (key_index ht k) = Inr (buck ht ! key_index ht k)"
  by (simp add: get_bucket_def key_index_bound)

lemma bucket_ok_nth: "ht_ok ht \<Longrightarrow> i < length (buck ht) \<Longrightarrow> bucket_ok ht i (buck ht ! i)"
  by (simp add: ht_ok_def)

section \<open>A new table\<close>

lemma ht_new_ok:
  assumes "fra_p_ht_new v n vs setv destr = (Live ht, v')" and "0 < n" and "n < 2 ^ 31"
  shows "ht_ok ht" and "ht_map ht = Map.empty" and "live v' = live v + ht_blocks ht"
    and "set_value ht = setv" and "destructor ht = destr"
proof -
  from assms(1) have ht: "ht = \<lparr>value_size = vs, set_value = setv, destructor = destr,
      collisions_count = 0, buck_c = n, buck = replicate (nat n) empty_bucket\<rparr>"
    and l: "live v' = live v + 2"
    by (auto simp: fra_p_ht_new_def split: prod.splits if_splits dest!: take_block_live)
  show ok: "ht_ok ht" using assms(2,3)
    by (simp add: ht ht_ok_def bucket_ok_def empty_bucket_def slots_def live_slots_def)
  show "ht_map ht = Map.empty"
    using key_index_bound [OF ok]
    by (auto simp: ht ht_map_def empty_bucket_def live_slots_def)
  show "live v' = live v + ht_blocks ht"
    by (simp add: l ht ht_blocks_def bucket_blocks_def empty_bucket_def live_slots_def sum_list_replicate)
  show "set_value ht = setv" "destructor ht = destr" by (simp_all add: ht)
qed

lemma ht_new_calm:
  "calm v \<Longrightarrow> 0 \<le> n \<Longrightarrow> \<exists>ht. fra_p_ht_new v n vs setv destr = (Live ht, v\<lparr>live := live v + 2\<rparr>)"
  by (simp add: fra_p_ht_new_def take_block_calm)

lemma ht_new_NULL:
  "fra_p_ht_new v n vs setv destr = (Null, v') \<Longrightarrow> live v' = live v"
  by (auto simp: fra_p_ht_new_def split: prod.splits if_splits dest!: take_block_live)

lemma ht_new_entries:
  "fra_p_ht_new v n vs setv destr = (Live ht, v') \<Longrightarrow> ht_entries ht = {#}"
  by (auto simp: fra_p_ht_new_def ht_entries_def empty_bucket_def live_slots_def
      split: prod.splits if_splits)

section \<open>Looking a key up\<close>

lemma scan_ok:
  assumes "bstr_ok bs" and "c \<le> length xs"
  shows "j \<le> c \<Longrightarrow> (\<forall>i < j. fst (xs ! i) \<noteq> key) \<Longrightarrow>
    \<exists>r. scan bs xs c key j = Inr r \<and>
      (case r of None \<Rightarrow> map_of (take c xs) key = None
       | Some i \<Rightarrow> i < c \<and> fst (xs ! i) = key \<and> (\<forall>i' < i. fst (xs ! i') \<noteq> key) \<and>
           map_of (take c xs) key = Some (snd (xs ! i)))"
proof (induction "c - j" arbitrary: j)
  case 0
  then have cj: "c = j" by simp
  have "map_of (take c xs) key = None"
    using 0 assms(2) by (fastforce simp: map_of_eq_None_iff in_set_conv_nth)
  then show ?case by (simp add: cj scan.simps [of bs xs j key j])
next
  case (Suc n)
  then have j: "j < c" "j < length xs" using assms(2) by simp_all
  show ?case
  proof (cases "fst (xs ! j) = key")
    case True
    have none: "map_of (take j xs) key = None"
      using Suc.prems(2) j by (fastforce simp: map_of_eq_None_iff in_set_conv_nth)
    have "take c xs = take j xs @ xs ! j # drop (Suc j) (take c xs)"
      using j assms(2) id_take_nth_drop [of j "take c xs"] by simp
    then have "map_of (take c xs) key = map_of (take j xs @ xs ! j # drop (Suc j) (take c xs)) key"
      by (rule arg_cong)
    also have "\<dots> = Some (snd (xs ! j))"
      using True none by (cases "xs ! j") (simp add: map_add_def)
    finally have "map_of (take c xs) key = Some (snd (xs ! j))" .
    with True j assms(1) Suc.prems(2) show ?thesis by (simp add: scan.simps [of bs xs c key j])
  next
    case False
    have "\<exists>r. scan bs xs c key (Suc j) = Inr r \<and>
      (case r of None \<Rightarrow> map_of (take c xs) key = None
       | Some i \<Rightarrow> i < c \<and> fst (xs ! i) = key \<and> (\<forall>i' < i. fst (xs ! i') \<noteq> key) \<and>
           map_of (take c xs) key = Some (snd (xs ! i)))"
      using Suc False by (intro Suc.hyps(1)) (auto simp: less_Suc_eq)
    with False j assms(1) show ?thesis by (simp add: scan.simps [of bs xs c key j])
  qed
qed

text \<open>The pointer a lookup returns, if any, points at the value of the first entry for the key.\<close>

definition points_at :: "('v, 'a) ht \<Rightarrow> string \<Rightarrow> loc option \<Rightarrow> bool" where
  "points_at ht k r =
     (case r of None \<Rightarrow> ht_map ht k = None
      | Some l \<Rightarrow> fst l = key_index ht k \<and> snd l < el_c (buck ht ! fst l) \<and>
          fst (ht_slot ht l) = k \<and> (\<forall>i < snd l. fst (ht_slot ht (fst l, i)) \<noteq> k) \<and>
          ht_map ht k = Some (ht_value ht l))"

lemma points_at_value: "points_at ht k r \<Longrightarrow> map_option (ht_value ht) r = ht_map ht k"
  by (cases r) (auto simp: points_at_def)

lemma ht_get_by_hash_ok:
  assumes "bstr_ok bs" and "ht_ok ht"
  shows "\<exists>r. fra_p_ht_get_by_hash bs (Live ht) key n (murmur32_spec (bytes_of (take n key)) 55) = Inr r
    \<and> points_at ht (take n key) r"
proof -
  let ?k = "take n key"
  let ?b = "buck ht ! key_index ht ?k"
  have "el_c ?b \<le> length (slots ?b)"
    using bucket_ok_nth [OF assms(2) key_index_bound [OF assms(2)]] by (simp add: bucket_ok_def)
  from scan_ok [OF assms(1) this, of 0 ?k] obtain r where
    r: "scan bs (slots ?b) (el_c ?b) ?k 0 = Inr r"
    and p: "case r of None \<Rightarrow> map_of (take (el_c ?b) (slots ?b)) ?k = None
       | Some i \<Rightarrow> i < el_c ?b \<and> fst (slots ?b ! i) = ?k \<and> (\<forall>i' < i. fst (slots ?b ! i') \<noteq> ?k) \<and>
           map_of (take (el_c ?b) (slots ?b)) ?k = Some (snd (slots ?b ! i))"
    by auto
  then show ?thesis
    by (auto simp: fra_p_ht_get_by_hash_def bucket_index_ok [OF assms(2)] get_bucket_ok [OF assms(2)]
        points_at_def ht_map_def live_slots_def ht_value_def ht_slot_def split: option.splits)
qed

lemma ht_get_ok:
  assumes "bstr_ok bs" and "ht_ok ht" and "n \<le> length key"
  shows "\<exists>r. fra_p_ht_get bs (Live ht) key n = Inr r \<and> points_at ht (take n key) r"
  using ht_get_by_hash_ok [OF assms(1,2), of key n] assms(3)
  by (simp add: fra_p_ht_get_def hash32_in bytes_of_take)


section \<open>Entering a key\<close>

lemma key_index_frame [simp]:
  "key_index (ht\<lparr>buck := bs\<rparr>) = key_index ht"
  "key_index (ht\<lparr>buck := bs, collisions_count := n\<rparr>) = key_index ht"
  by (simp_all add: key_index_def fun_eq_iff)

lemma bucket_ok_frame [simp]:
  "bucket_ok (ht\<lparr>buck := bs\<rparr>) = bucket_ok ht"
  "bucket_ok (ht\<lparr>buck := bs, collisions_count := n\<rparr>) = bucket_ok ht"
  by (simp_all add: bucket_ok_def fun_eq_iff)

lemma sum_list_update_int: "i < length xs \<Longrightarrow> sum_list (xs[i := x]) = sum_list xs + x - xs ! i"
  for x :: int
  by (induction xs arbitrary: i) (auto split: nat.split)

text \<open>Replacing the bucket of a key by one with other live slots.\<close>

lemma ht_replace_bucket:
  assumes "ht_ok ht" and "i = key_index ht k" and "bucket_ok ht i b"
    and ht': "ht' = ht\<lparr>buck := (buck ht)[i := b]\<rparr> \<or>
      ht' = ht\<lparr>buck := (buck ht)[i := b], collisions_count := n\<rparr>"
  shows "ht_ok ht'"
    and "ht_map ht' = (\<lambda>k'. if key_index ht k' = i then map_of (live_slots b) k' else ht_map ht k')"
    and "ht_blocks ht' = ht_blocks ht - bucket_blocks (buck ht ! i) + bucket_blocks b"
    and "live_slots b = live_slots (buck ht ! i) @ ys \<Longrightarrow> ht_entries ht' = ht_entries ht + mset ys"
proof -
  have i: "i < length (buck ht)" using assms(1,2) by (simp add: key_index_bound)
  have "bucket_ok ht j ((buck ht)[i := b] ! j)" if "j < length (buck ht)" for j
    using that assms(3) bucket_ok_nth [OF assms(1) that] by (cases "j = i") simp_all
  then show "ht_ok ht'"
    using assms(1) ht' by (auto simp: ht_ok_def)
  show "ht_map ht' = (\<lambda>k'. if key_index ht k' = i then map_of (live_slots b) k' else ht_map ht k')"
    using ht' i by (auto simp: ht_map_def fun_eq_iff)
  have "sum_list (map bucket_blocks ((buck ht)[i := b])) =
      sum_list (map bucket_blocks (buck ht)) + bucket_blocks b - bucket_blocks (buck ht ! i)"
    using i by (simp add: map_update sum_list_update_int)
  with ht' show "ht_blocks ht' = ht_blocks ht - bucket_blocks (buck ht ! i) + bucket_blocks b"
    by (auto simp: ht_blocks_def)
  show "ht_entries ht' = ht_entries ht + mset ys" if "live_slots b = live_slots (buck ht ! i) @ ys"
    using ht' mset_concat_update [OF i, of live_slots b ys] that by (auto simp: ht_entries_def)
qed

text \<open>
  What one call to \<open>fra_p_ht_set\<close> does: it always returns, keeps the table well formed,
  gives back every block it does not store, and either enters the key or changes nothing.
\<close>

definition set_post ::
  "('v, 'a) ht \<Rightarrow> string \<Rightarrow> 'a \<Rightarrow> env \<Rightarrow> int \<Rightarrow> ('v, 'a) ht \<Rightarrow> env \<Rightarrow> bool" where
  "set_post ht key arg v rc ht' v' \<longleftrightarrow>
     ht_ok ht' \<and> set_value ht' = set_value ht \<and> destructor ht' = destructor ht \<and>
     buck_c ht' = buck_c ht \<and>
     collisions_count ht' \<in> insert (collisions_count ht) (range (count_collision ht)) \<and>
     live v' - ht_blocks ht' = live v - ht_blocks ht \<and> pthreads v' = pthreads v \<and>
     (rc = 0 \<and> fst (set_value ht arg) = 0 \<and>
        ht_map ht' = first_wins (ht_map ht) key (snd (set_value ht arg)) \<and>
        ht_entries ht' = add_mset (key, snd (set_value ht arg)) (ht_entries ht) \<or>
      rc = - 1 \<and> ht_map ht' = ht_map ht \<and> ht_entries ht' = ht_entries ht)"

lemma bfromcstr_frame:
  assumes "bstr_ok bs" and "bfromcstr bs v s = (r, v')"
  shows "r = None \<and> live v' = live v \<and> pthreads v' = pthreads v \<or>
    r = Some s \<and> live v' = live v + 1 \<and> pthreads v' = pthreads v"
proof -
  obtain ok v1 where t: "take_block v = (ok, v1)" by (cases "take_block v")
  with take_block_live [OF t] assms show ?thesis
    by (cases ok) (auto simp: bfromcstr_def)
qed

lemma ht_set_step:
  assumes "bstr_ok bs" and ok: "ht_ok ht"
  shows "\<exists>rc ht' v'. fra_p_ht_set bs (Live ht) key arg v = Inr (rc, Live ht', v') \<and>
    set_post ht key arg v rc ht' v'"
proof -
  let ?i = "key_index ht key"
  let ?b = "buck ht ! ?i"
  obtain r v1 where f: "bfromcstr bs v key = (r, v1)" by (cases "bfromcstr bs v key")
  obtain okr v2 where m: "(if el ?b = None then take_block v1 else draw v1) = (okr, v2)"
    by (cases "if el ?b = None then take_block v1 else draw v1")
  obtain rc x where s: "set_value ht arg = (rc, x)" by (cases "set_value ht arg")
  have bok: "bucket_ok ht ?i ?b"
    by (rule bucket_ok_nth [OF ok key_index_bound [OF ok]])
  define b1 where "b1 = ?b\<lparr>el := Some (take (el_c ?b) (slots ?b) @ [(key, x)])\<rparr>"
  define b2 where "b2 = b1\<lparr>el_c := el_c b1 + 1\<rparr>"
  have live1: "live_slots b1 = live_slots ?b" and live2: "live_slots b2 = live_slots ?b @ [(key, x)]"
    and el1: "el b1 \<noteq> None" "el b2 \<noteq> None"
    and len: "el_c b1 \<le> length (slots b1)" "el_c b2 \<le> length (slots b2)"
    using bok by (auto simp: b1_def b2_def live_slots_def slots_def bucket_ok_def split: option.splits)
  have b1: "bucket_ok ht ?i b1" and b2: "bucket_ok ht ?i b2"
    using bok len by (auto simp: bucket_ok_def live1 live2)
  show ?thesis
  proof (cases r)
    case None
    with f show ?thesis
      using bfromcstr_frame [OF assms(1) f] ok by (auto simp: fra_p_ht_set_def set_post_def)
  next
    case (Some ks)
    with bfromcstr_frame [OF assms(1) f] have ks: "ks = key"
      and v1: "live v1 = live v + 1" "pthreads v1 = pthreads v" by auto
    have v2: "pthreads v2 = pthreads v"
      "live v2 = live v + 1 + (if el ?b = None \<and> okr then 1 else 0)"
      using m v1 take_block_live [of v1] draw_live [of v1] by (auto split: if_splits)
    have run: "fra_p_ht_set bs (Live ht) key arg v =
      (if \<not> okr then Inr (- 1, Live ht, drop_block v2)
       else if rc \<noteq> 0 then Inr (- 1, Live (ht\<lparr>buck := (buck ht)[?i := b1]\<rparr>), drop_block v2)
       else Inr (0, Live (ht\<lparr>buck := (buck ht)[?i := b2],
         collisions_count := count_collision ht (el_c b2)\<rparr>), v2))"
      by (simp add: fra_p_ht_set_def f Some ks hash32_in deref_def bucket_index_ok [OF ok]
          get_bucket_ok [OF ok] m s Let_def b2_def flip: b1_def)
    note rep1 = ht_replace_bucket [OF ok refl b1 disjI1, OF refl]
    note rep2 = ht_replace_bucket [OF ok refl b2 disjI2, OF refl, where n = "count_collision ht (el_c b2)"]
    have m1: "ht_map (ht\<lparr>buck := (buck ht)[?i := b1]\<rparr>) = ht_map ht"
      by (auto simp: rep1(2) live1 ht_map_def fun_eq_iff)
    have m2: "ht_map (ht\<lparr>buck := (buck ht)[?i := b2],
        collisions_count := count_collision ht (el_c b2)\<rparr>) = first_wins (ht_map ht) key x"
      by (auto simp: rep2(2) live2 ht_map_def fun_eq_iff first_wins_def map_add_def
          split: option.splits)
    show ?thesis
      using run v2 rep1(1-3) rep1(4) [of "[]"] rep2(1-3) rep2(4) [of "[(key, x)]"] m1 m2 ok s
      by (auto simp: set_post_def bucket_blocks_def live1 live2 el1)
  qed
qed

lemma ht_set_calm:
  assumes "bstr_ok bs" and "ht_ok ht" and "calm v" and "fst (set_value ht a) = 0"
  shows "\<exists>ht' v'. fra_p_ht_set bs (Live ht) k a v = Inr (0, Live ht', v') \<and> calm v' \<and>
    set_post ht k a v 0 ht' v'"
proof -
  obtain rc ht' v' where s: "fra_p_ht_set bs (Live ht) k a v = Inr (rc, Live ht', v')"
    and p: "set_post ht k a v rc ht' v'"
    using ht_set_step [OF assms(1,2)] by blast
  have "rc = 0 \<and> calm v'"
    using s assms
    by (auto simp: fra_p_ht_set_def bfromcstr_calm hash32_in bucket_index_ok get_bucket_ok
        draw_calm take_block_calm Let_def split: if_splits prod.splits)
  with s p show ?thesis by blast
qed

lemma mset_exchange:
  assumes "A + B = C + D" and "add_mset a D = add_mset b B"
  shows "add_mset a A = add_mset b C"
proof -
  have "add_mset a A + B = add_mset a (C + D)" using assms(1) by simp
  also have "\<dots> = C + add_mset a D" by simp
  also have "\<dots> = add_mset b C + B" using assms(2) by simp
  finally show ?thesis by simp
qed

section \<open>Writing through a pointer into the table\<close>

lemma map_of_update_first:
  "i < length xs \<Longrightarrow> fst (xs ! i) = k \<Longrightarrow> (\<forall>j < i. fst (xs ! j) \<noteq> k) \<Longrightarrow>
   map_of (xs[i := (k, x)]) = (map_of xs)(k \<mapsto> x)"
proof (induction xs arbitrary: i)
  case (Cons e xs)
  show ?case
  proof (cases i)
    case 0
    with Cons.prems show ?thesis by (cases e) auto
  next
    case (Suc j)
    have "\<forall>j' < j. fst (xs ! j') \<noteq> k" using Cons.prems(3) Suc by auto
    moreover have "fst e \<noteq> k" using Cons.prems(3) Suc by force
    ultimately show ?thesis
      using Cons.IH [of j] Cons.prems(1,2) Suc by (cases e) (auto simp: fun_eq_iff)
  qed
qed simp

lemma ht_update_ok:
  assumes ok: "ht_ok ht" and p: "points_at ht k (Some l)" and ht': "ht' = ht_update ht l x"
  shows "ht_ok ht'" and "ht_map ht' = (ht_map ht)(k \<mapsto> x)" and "ht_blocks ht' = ht_blocks ht"
    and "set_value ht' = set_value ht" and "destructor ht' = destructor ht"
    and "add_mset (k, ht_value ht l) (ht_entries ht') = add_mset (k, x) (ht_entries ht)"
proof -
  obtain i j where l: "l = (i, j)" by (cases l)
  let ?b = "buck ht ! i"
  from p have i: "i = key_index ht k" and j: "j < el_c ?b" and kj: "fst (slots ?b ! j) = k"
    and first: "\<forall>j' < j. fst (slots ?b ! j') \<noteq> k"
    by (auto simp: points_at_def l ht_slot_def)
  have ilen: "i < length (buck ht)" using i key_index_bound [OF ok] by simp
  have bok: "bucket_ok ht i ?b" by (rule bucket_ok_nth [OF ok ilen])
  then have jlen: "j < length (slots ?b)" using j by (simp add: bucket_ok_def)
  define b where "b = ?b\<lparr>el := Some ((slots ?b)[j := (k, x)])\<rparr>"
  have ht'b: "ht' = ht\<lparr>buck := (buck ht)[i := b]\<rparr>"
    by (simp add: ht' ht_update_def l b_def ht_slot_def kj Let_def)
  have live: "live_slots b = (live_slots ?b)[j := (k, x)]"
    using j by (simp add: b_def live_slots_def slots_def take_update_swap)
  have b: "bucket_ok ht i b"
  proof -
    have "slots b = (slots ?b)[j := (k, x)]" by (subst slots_def) (simp add: b_def)
    moreover have "el_c b = el_c ?b" by (simp add: b_def)
    moreover have "e \<in> set (live_slots b) \<Longrightarrow> fst e = k \<or> e \<in> set (live_slots ?b)" for e
      unfolding live by (auto dest!: set_update_subset_insert [THEN subsetD])
    ultimately show ?thesis using bok i by (fastforce simp: bucket_ok_def)
  qed
  note rep = ht_replace_bucket [OF ok i b disjI1 [OF ht'b]]
  have jl: "j < length (live_slots ?b)" and kl: "fst (live_slots ?b ! j) = k"
    and fl: "\<forall>j' < j. fst (live_slots ?b ! j') \<noteq> k"
    using j jlen kj first by (simp_all add: live_slots_def)
  show "ht_ok ht'" by (rule rep)
  show "ht_map ht' = (ht_map ht)(k \<mapsto> x)"
  proof
    fix k'
    have "map_of (live_slots b) = (map_of (live_slots ?b))(k \<mapsto> x)"
      unfolding live by (rule map_of_update_first [OF jl kl fl])
    then show "ht_map ht' k' = ((ht_map ht)(k \<mapsto> x)) k'"
      using i by (simp add: rep(2)) (simp add: ht_map_def)
  qed
  have "el ?b \<noteq> None" using jlen by (auto simp: slots_def split: option.splits)
  then have "bucket_blocks b = bucket_blocks ?b"
    by (simp add: bucket_blocks_def live) (simp add: b_def)
  with rep(3) show "ht_blocks ht' = ht_blocks ht" by simp
  show "set_value ht' = set_value ht" "destructor ht' = destructor ht" by (simp_all add: ht'b)
  have old: "live_slots ?b ! j = (k, ht_value ht l)"
    using j kj by (simp add: ht_value_def ht_slot_def l live_slots_def prod_eq_iff)
  have sub: "(k, ht_value ht l) \<in># mset (live_slots ?b)"
    using nth_mem [OF jl] old by simp
  have "mset (live_slots b) = add_mset (k, x) (mset (live_slots ?b) - {#(k, ht_value ht l)#})"
    using jl by (simp add: live mset_update old)
  with sub have m: "add_mset (k, ht_value ht l) (mset (live_slots b)) =
      add_mset (k, x) (mset (live_slots ?b))"
    by simp
  have "mset (concat (map live_slots ((buck ht)[i := b]))) + mset (live_slots ?b) =
      mset (concat (map live_slots (buck ht))) + mset (live_slots b)"
    using ilen by (rule mset_concat_replace)
  with m show "add_mset (k, ht_value ht l) (ht_entries ht') = add_mset (k, x) (ht_entries ht)"
    unfolding ht_entries_def ht'b by (auto intro: mset_exchange)
qed

section \<open>The table keeps the contract of a registry\<close>

definition ht_contents :: "('v, 'a) ht ptr \<Rightarrow> string \<Rightarrow> 'v option" where
  "ht_contents hp = (case hp of Live ht \<Rightarrow> ht_map ht | _ \<Rightarrow> Map.empty)"

definition ht_inv :: "bstrlib \<Rightarrow> ('a \<Rightarrow> int \<times> 'v) \<Rightarrow> ('v, 'a) ht ptr \<Rightarrow> bool" where
  "ht_inv bs setv hp \<longleftrightarrow> bstr_ok bs \<and> (\<exists>ht. hp = Live ht \<and> ht_ok ht \<and> set_value ht = setv)"

interpretation ht: registry "fra_p_ht_set bs" ht_contents "\<lambda>a. snd (setv a)" "ht_inv bs setv"
  for bs :: bstrlib and setv :: "'a \<Rightarrow> int \<times> 'v"
proof unfold_locales
  fix hp :: "('v, 'a) ht ptr" and k a v
  assume "ht_inv bs setv hp"
  then obtain ht where hp: "hp = Live ht" and ok: "bstr_ok bs" "ht_ok ht" and sv: "set_value ht = setv"
    by (auto simp: ht_inv_def)
  obtain rc ht' v' where r: "fra_p_ht_set bs (Live ht) k a v = Inr (rc, Live ht', v')"
    and p: "set_post ht k a v rc ht' v'"
    using ht_set_step [OF ok] by blast
  show "\<exists>rc t' v'. fra_p_ht_set bs hp k a v = Inr (rc, t', v')" using r hp by simp
  fix rc1 :: int and t1 :: "('v, 'a) ht ptr" and v1 :: env
  { assume "fra_p_ht_set bs hp k a v = Inr (rc1, t1, v1)"
    then show "ht_inv bs setv t1" using r p hp ok sv by (auto simp: ht_inv_def set_post_def) }
  { assume "fra_p_ht_set bs hp k a v = Inr (0, t1, v1)"
    then show "ht_contents t1 = first_wins (ht_contents hp) k (snd (setv a))"
      using r p hp sv by (auto simp: ht_contents_def set_post_def) }
  { assume "fra_p_ht_set bs hp k a v = Inr (rc1, t1, v1)" and "rc1 \<noteq> 0"
    then show "ht_contents t1 = ht_contents hp"
      using r p hp by (auto simp: ht_contents_def set_post_def) }
qed

section \<open>Freeing the table\<close>

text \<open>\<open>own\<close> gives the blocks that a value owns and its destructor frees.\<close>

definition owned :: "('v \<Rightarrow> int) \<Rightarrow> (string \<times> 'v) multiset \<Rightarrow> int" where
  "owned own es = (\<Sum>e \<in># es. own (snd e))"

lemma owned_simps [simp]:
  "owned own {#} = 0" "owned own (add_mset (k, x) es) = own x + owned own es"
  "owned own (es + fs) = owned own es + owned own fs"
  by (simp_all add: owned_def)

lemma free_slots_live:
  "(\<And>x v. live (destructor ht x v) = live v - own x) \<Longrightarrow>
   live (fold (free_slot ht) xs v) = live v - int (length xs) - owned own (mset xs)"
  by (induction xs arbitrary: v) (auto simp: free_slot_def)

lemma free_bucket_live:
  "(\<And>x v. live (destructor ht x v) = live v - own x) \<Longrightarrow>
   live (free_bucket ht b v) = live v - bucket_blocks b - owned own (mset (live_slots b))"
  by (auto simp: free_bucket_def bucket_blocks_def live_slots_def free_slots_live)

lemma free_buckets_live:
  "(\<And>x v. live (destructor ht x v) = live v - own x) \<Longrightarrow>
   live (fold (free_bucket ht) bs v) = live v - sum_list (map bucket_blocks bs) -
     owned own (mset (concat (map live_slots bs)))"
  by (induction bs arbitrary: v) (auto simp: free_bucket_live)

lemma ht_free_live:
  "(\<And>x v. live (destructor ht x v) = live v - own x) \<Longrightarrow>
   \<exists>v'. fra_p_ht_free (Live ht) v = Inr v' \<and>
     live v' = live v - ht_blocks ht - owned own (ht_entries ht)"
  by (simp add: fra_p_ht_free_def free_buckets_live ht_blocks_def ht_entries_def)

text \<open>Whatever \<open>drop_block\<close> and the destructor keep, freeing the table keeps.\<close>

lemma fold_keeps: "(\<And>x v. f (g x v) = f v) \<Longrightarrow> f (fold g xs v) = f v"
  by (induction xs arbitrary: v) auto

lemma ht_free_frame:
  assumes "\<And>v. f (drop_block v) = f v" and "\<And>x v. f (destructor ht x v) = f v"
    and "fra_p_ht_free (Live ht) v = Inr v'"
  shows "f v' = f v"
proof -
  have "f (free_slot ht s v) = f v" for s v by (simp add: free_slot_def assms(1,2))
  then have "f (free_bucket ht b v) = f v" for b v
    by (simp add: free_bucket_def assms(1) fold_keeps [of f "free_slot ht"] Let_def)
  from fold_keeps [of f "free_bucket ht", OF this] assms(3) show ?thesis
    by (auto simp: fra_p_ht_free_def assms(1))
qed

lemma register_all_blocks:
  assumes "bstr_ok bs"
  shows "ht_ok ht \<Longrightarrow> register_all (fra_p_ht_set bs) (Live ht) kas v = Inr (rcs, hp, v') \<Longrightarrow>
    \<exists>ht'. hp = Live ht' \<and> ht_ok ht' \<and> destructor ht' = destructor ht \<and> set_value ht' = set_value ht \<and>
      live v' - ht_blocks ht' = live v - ht_blocks ht \<and>
      ht_entries ht' = mset (accepted (\<lambda>a. snd (set_value ht a)) rcs kas) + ht_entries ht"
proof (induction kas arbitrary: ht v rcs)
  case (Cons ka kas)
  obtain k a where ka: "ka = (k, a)" by (cases ka)
  obtain rc ht1 v1 where s: "fra_p_ht_set bs (Live ht) k a v = Inr (rc, Live ht1, v1)"
    and p: "set_post ht k a v rc ht1 v1"
    using ht_set_step [OF assms Cons.prems(1)] by blast
  from Cons.prems(2) obtain rcs1 where
    r: "register_all (fra_p_ht_set bs) (Live ht1) kas v1 = Inr (rcs1, hp, v')" "rcs = rc # rcs1"
    by (auto simp: ka s bindo_eq_Inr)
  from p have "ht_ok ht1" by (simp add: set_post_def)
  from Cons.IH [OF this r(1)] p show ?case
    by (auto simp: ka r(2) set_post_def)
qed auto

section \<open>The collision counter\<close>

lemma tenth_bounds:
  assumes "0 \<le> n" and "n < 2 ^ 31"
  shows "0 \<le> tenth n" and "tenth n < INT_MAX"
proof -
  obtain k where k: "n = int k" "k \<le> 2 ^ 31" using assms by (auto elim!: nonneg_int_cases)
  have "fl 24 k \<le> 2 ^ 31"
    using fl_mono [OF k(2), of 24] exact_scale [OF exact_small, of 1 24 31] by (simp add: fl_exact)
  then have "fl 24 k * 3602879701896397 \<le> 1 * 2 ^ 83" by simp
  from fl_mono [OF this, of 53]
  have "fl 53 (fl 24 k * 3602879701896397) \<le> 2 ^ 83"
    using exact_scale [OF exact_small, of 1 53 83] by (simp add: fl_exact)
  then have "fl 53 (fl 24 k * 3602879701896397) div 2 ^ 55 \<le> 2 ^ 28"
    using div_le_mono [of _ "2 ^ 83" "2 ^ 55"] by simp
  moreover have m: "fl_int 53 (fl_int 24 n * 3602879701896397) =
      int (fl 53 (fl 24 k * 3602879701896397))"
    by (simp add: k fl_int_nat nat_mult_distrib)
  moreover have "int (fl 53 (fl 24 k * 3602879701896397)) div 2 ^ 55 =
      int (fl 53 (fl 24 k * 3602879701896397) div 2 ^ 55)"
    by (simp add: zdiv_int)
  ultimately show "0 \<le> tenth n" and "tenth n < INT_MAX"
    by (auto simp: tenth_def Let_def sgn_if INT_MAX_def)
qed

definition count_ok :: "('v, 'a) ht \<Rightarrow> bool" where
  "count_ok ht \<longleftrightarrow> INT_MIN \<le> collisions_count ht \<and> collisions_count ht \<le> tenth (buck_c ht)"


lemma count_ok_set:
  assumes "ht_ok ht" and "count_ok ht" and p: "set_post ht k a v rc ht' v'"
  shows "count_ok ht'"
proof -
  have "0 \<le> tenth (buck_c ht)" using assms(1) tenth_bounds [of "buck_c ht"] by (simp add: ht_ok_def)
  then have "INT_MIN \<le> count_collision ht c \<and> count_collision ht c \<le> tenth (buck_c ht)" for c
    using assms(2) by (auto simp: count_ok_def count_collision_def INT_MIN_def Let_def)
  with assms(2) p show ?thesis by (auto simp: count_ok_def set_post_def)
qed

section \<open>Properties\<close>

text \<open>C22: a table made by \<open>fra_p_ht_new\<close> and filled by any sequence of \<open>fra_p_ht_set\<close>
  calls, some of which may fail, never misbehaves; looking up a key afterwards returns a pointer
  to the value of the first call for that key that returned 0, or \<open>NULL\<close> if there was none.\<close>

theorem ht_get_after_sets:
  assumes "bstr_ok bs" and "0 < n" and "n < 2 ^ 31"
    and new: "fra_p_ht_new v n vs setv destr = (Live ht, v0)"
  shows "\<exists>rcs ht' v1 r. register_all (fra_p_ht_set bs) (Live ht) kas v0 = Inr (rcs, Live ht', v1) \<and>
    fra_p_ht_get bs (Live ht') key (length key) = Inr r \<and>
    map_option (ht_value ht') r = map_of (accepted (\<lambda>a. snd (setv a)) rcs kas) key"
proof -
  note ht0 = ht_new_ok [OF new assms(2,3)]
  then have inv: "ht_inv bs setv (Live ht)" using assms(1) by (simp add: ht_inv_def)
  then obtain rcs hp v1 where run: "register_all (fra_p_ht_set bs) (Live ht) kas v0 = Inr (rcs, hp, v1)"
    using ht.register_all_returns by blast
  then obtain ht' where hp: "hp = Live ht'" and ok: "ht_ok ht'"
    using ht.register_all_inv [OF inv run] by (auto simp: ht_inv_def)
  have "ht_map ht' = map_of (accepted (\<lambda>a. snd (setv a)) rcs kas)"
    using ht.register_all_contents [OF inv run] ht0(2) by (simp add: hp ht_contents_def)
  moreover obtain r where "fra_p_ht_get bs (Live ht') key (length key) = Inr r" and "points_at ht' key r"
    using ht_get_ok [OF assms(1) ok, of "length key" key] by auto
  ultimately show ?thesis
    using run hp by (auto simp: points_at_value)
qed

text \<open>The table leaks nothing. Whatever is entered after \<open>fra_p_ht_new\<close>, and whichever
  allocations fail on the way, \<open>fra_p_ht_free\<close> releases the table, its buckets and its keys, so
  that with a destructor that frees the \<open>own\<close> blocks of each value only the blocks of values
  that were entered are subtracted from what was live before.\<close>

theorem ht_free_releases:
  fixes own :: "'v \<Rightarrow> int"
  assumes "bstr_ok bs" and "0 < n" and "n < 2 ^ 31"
    and new: "fra_p_ht_new v n vs setv destr = (Live ht, v0)"
    and run: "register_all (fra_p_ht_set bs) (Live ht) kas v0 = Inr (rcs, hp, v1)"
    and destr: "\<And>x v. live (destr x v) = live v - own x"
  shows "\<exists>v2. fra_p_ht_free hp v1 = Inr v2 \<and>
    live v2 = live v - (\<Sum>(k, x) \<leftarrow> accepted (\<lambda>a. snd (setv a)) rcs kas. own x)"
proof -
  note ht0 = ht_new_ok [OF new assms(2,3)]
  obtain ht' where ht': "hp = Live ht'" "destructor ht' = destr"
      "live v1 - ht_blocks ht' = live v"
      "ht_entries ht' = mset (accepted (\<lambda>a. snd (setv a)) rcs kas)"
    using register_all_blocks [OF assms(1) ht0(1) run] ht0 ht_new_entries [OF new] by auto
  have "owned own (mset es) = (\<Sum>(k, x) \<leftarrow> es. own x)" for es :: "(string \<times> 'v) list"
    by (induction es) auto
  then show ?thesis
    using ht_free_live [of ht' own v1] ht' destr by simp
qed

text \<open>C26: the collision counter of a table stays within \<open>int\<close>: it never passes the limit of
  a tenth of the buckets, and the reset to \<open>INT_MIN\<close> keeps later increments from overflowing.\<close>

theorem ht_collisions_in_range:
  assumes "bstr_ok bs" and "0 < n" and "n < 2 ^ 31"
    and new: "fra_p_ht_new v n vs setv destr = (Live ht, v0)"
    and run: "register_all (fra_p_ht_set bs) (Live ht) kas v0 = Inr (rcs, Live ht', v1)"
  shows "INT_MIN \<le> collisions_count ht' \<and> collisions_count ht' < INT_MAX"
proof -
  note ht0 = ht_new_ok [OF new assms(2,3)]
  have c0: "count_ok ht"
    using new tenth_bounds(1) [of n] assms(2,3)
    by (auto simp: fra_p_ht_new_def count_ok_def INT_MIN_def split: prod.splits if_splits)
  have "count_ok ht' \<and> ht_ok ht'"
    using c0 ht0(1) run
  proof (induction kas arbitrary: ht v0 rcs)
    case (Cons ka kas)
    obtain k a where ka: "ka = (k, a)" by (cases ka)
    obtain rc ht1 v2 where s: "fra_p_ht_set bs (Live ht) k a v0 = Inr (rc, Live ht1, v2)"
      and p: "set_post ht k a v0 rc ht1 v2"
      using ht_set_step [OF assms(1) Cons.prems(2)] by blast
    from Cons.prems(3) obtain rcs1 where
      "register_all (fra_p_ht_set bs) (Live ht1) kas v2 = Inr (rcs1, Live ht', v1)"
      by (auto simp: ka s bindo_eq_Inr)
    moreover have "count_ok ht1" by (rule count_ok_set [OF Cons.prems(2,1) p])
    moreover have "ht_ok ht1" using p by (simp add: set_post_def)
    ultimately show ?case by (rule Cons.IH [rotated 2])
  qed simp
  then show ?thesis
    using tenth_bounds(2) [of "buck_c ht'"] by (auto simp: count_ok_def ht_ok_def)
qed

section \<open>Witnesses\<close>

text \<open>A table of 15 buckets for numbers, in which one call in the middle runs out of memory.\<close>

definition demo_env :: env where
  "demo_env = \<lparr>sched = [True, True, True, True, False], pthreads = False, live = 0\<rparr>"

definition demo_set :: "nat \<Rightarrow> int \<times> nat" where
  "demo_set n = (0, n)"

definition demo_ht :: "(nat, nat) ht" where
  "demo_ht = projr (deref (fst (fra_p_ht_new demo_env 15 8 demo_set (\<lambda>_ v. v))))"

lemma demo_ht_new:
  "fra_p_ht_new demo_env 15 8 demo_set (\<lambda>_ v. v) =
     (Live demo_ht, demo_env\<lparr>sched := [True, True, False], live := 2\<rparr>)"
  by (simp add: demo_ht_def fra_p_ht_new_def demo_env_def take_block_def draw_def)

definition demo_kas :: "(string \<times> nat) list" where
  "demo_kas = [(''a'', 1), (''b'', 2), (''a'', 3)]"

abbreviation "demo_env1 \<equiv> demo_env\<lparr>sched := [True, True, False], live := 2\<rparr>"

lemma demo_ht_inv: "ht_inv plain_bstr demo_set (Live demo_ht)"
  using ht_new_ok [OF demo_ht_new] by (simp add: ht_inv_def)

theorem ht_get_after_sets_witness:
  "\<exists>rcs ht' v1 r. register_all (fra_p_ht_set plain_bstr) (Live demo_ht) demo_kas demo_env1 =
       Inr (rcs, Live ht', v1) \<and>
    fra_p_ht_get plain_bstr (Live ht') ''a'' (length ''a'') = Inr r \<and>
    map_option (ht_value ht') r = map_of (accepted (\<lambda>a. snd (demo_set a)) rcs demo_kas) ''a''"
  by (rule ht_get_after_sets [OF plain_bstr_ok _ _ demo_ht_new]) simp_all

theorem ht_free_releases_witness:
  "\<exists>rcs hp v1. register_all (fra_p_ht_set plain_bstr) (Live demo_ht) demo_kas demo_env1 =
       Inr (rcs, hp, v1) \<and> (\<exists>v2. fra_p_ht_free hp v1 = Inr v2 \<and> live v2 = 0)"
proof -
  obtain rcs hp v1 where
    run: "register_all (fra_p_ht_set plain_bstr) (Live demo_ht) demo_kas demo_env1 = Inr (rcs, hp, v1)"
    using ht.register_all_returns [OF demo_ht_inv] by blast
  from ht_free_releases [OF plain_bstr_ok _ _ demo_ht_new run, of "\<lambda>_. 0"] run show ?thesis
    by (auto simp: demo_env_def case_prod_unfold)
qed

theorem ht_collisions_in_range_witness:
  "\<exists>rcs ht' v1. register_all (fra_p_ht_set plain_bstr) (Live demo_ht) demo_kas demo_env1 =
       Inr (rcs, Live ht', v1) \<and>
     INT_MIN \<le> collisions_count ht' \<and> collisions_count ht' < INT_MAX"
proof -
  obtain rcs ht' v1 where run: "register_all (fra_p_ht_set plain_bstr) (Live demo_ht) demo_kas demo_env1 =
      Inr (rcs, Live ht', v1)"
    using ht.register_all_returns [OF demo_ht_inv] ht.register_all_inv [OF demo_ht_inv]
    by (auto simp: ht_inv_def) blast
  from ht_collisions_in_range [OF plain_bstr_ok _ _ demo_ht_new run] run show ?thesis by auto
qed

end
