(* ===== verification/Var.thy ===== *)
theory Var
  imports Ht
begin

text \<open>
  Registration of request and endpoint variables, \<open>src/var.c\<close>. A store map is a hash table
  from names to the type and the position of a variable; positions are handed out
  one behind the other and the store size is their end. Reading variables needs the request
  and is in theory \<open>Access\<close>.
\<close>

section \<open>State and operations\<close>

record var =
  var_type :: string
  position :: u64

type_synonym store_map = "(var, var) ht ptr"

record var_globals =
  glob_store_map :: store_map
  glob_store_size :: u64
  glob_store_map_lock :: mutex

definition reg ::
  "bstrlib \<Rightarrow> store_map \<Rightarrow> u64 \<Rightarrow> string \<Rightarrow> string \<Rightarrow> u64 \<Rightarrow> env \<Rightarrow>
   (int \<times> store_map \<times> u64 \<times> env) outcome" where
  "reg bs smap store_size name type sz v =
     (if \<not> store_size < SIZE_MAX - sz then Inr (- 1, smap, store_size, v)
      else case bfromcstr bs v type of
        (None, v) \<Rightarrow> Inr (- 1, smap, store_size, v)
      | (Some ty, v) \<Rightarrow>
          bindo (fra_p_ht_set bs smap name \<lparr>var_type = ty, position = store_size\<rparr> v)
            (\<lambda>(rc, smap, v).
              if rc = 1 then Inr (- 1, smap, store_size, drop_block v)
              else if rc \<noteq> 0 then Inr (- 1, smap, store_size, drop_block v)
              else Inr (0, smap, store_size + sz, v)))"

definition fra_p_var_set :: "var \<Rightarrow> int \<times> var" where
  "fra_p_var_set arg = (0, \<lparr>var_type = var_type arg, position = position arg\<rparr>)"

definition fra_p_var_free :: "var \<Rightarrow> env \<Rightarrow> env" where
  "fra_p_var_free value v = drop_block v"

text \<open>\<open>sizeof( struct var )\<close> is a pointer and a \<open>size_t\<close>.\<close>

definition fra_p_var_ht_get :: "int \<Rightarrow> env \<Rightarrow> store_map \<times> env" where
  "fra_p_var_ht_get var_count v = fra_p_ht_new v var_count 16 fra_p_var_set fra_p_var_free"

definition fra_p_var_init :: "int \<Rightarrow> var_globals \<Rightarrow> env \<Rightarrow> int \<times> var_globals \<times> env" where
  "fra_p_var_init var_count g v =
     (let (smap, v) = fra_p_var_ht_get var_count v;
          g = g\<lparr>glob_store_map := smap\<rparr>
      in if smap = Null then (- 1, g, v) else (0, g, v))"

definition fra_p_var_store_size_get ::
  "var_globals \<Rightarrow> env \<Rightarrow> (u64 \<times> int \<times> var_globals \<times> env) outcome" where
  "fra_p_var_store_size_get g v =
     bindo (fra_p_lock v (glob_store_map_lock g)) (\<lambda>(rc, v, m).
       let g = g\<lparr>glob_store_map_lock := m\<rparr> in
       if rc \<noteq> 0 then Inr (0, - 1, g, v)
       else
         let r = glob_store_size g in
         bindo (fra_p_unlock v m) (\<lambda>(rc, v, m).
           let g = g\<lparr>glob_store_map_lock := m\<rparr> in
           if rc \<noteq> 0 then Inr (0, - 1, g, v) else Inr (r, 0, g, v)))"

text \<open>The pointer to the table is not reset.\<close>

definition fra_p_var_deinit :: "var_globals \<Rightarrow> env \<Rightarrow> (var_globals \<times> env) outcome" where
  "fra_p_var_deinit g v =
     bindo (fra_p_ht_free (glob_store_map g) v) (\<lambda>v.
       Inr (g\<lparr>glob_store_map := (if glob_store_map g = Null then Null else Freed)\<rparr>, v))"

text \<open>This one takes the lock whether or not \<open>fra_p_pthreads\<close> is set.\<close>

definition fra_req_var_reg ::
  "bstrlib \<Rightarrow> string \<Rightarrow> string \<Rightarrow> u64 \<Rightarrow> var_globals \<Rightarrow> env \<Rightarrow> (int \<times> var_globals \<times> env) outcome" where
  "fra_req_var_reg bs name type sz g v =
     bindo (pthread_mutex_lock v (glob_store_map_lock g)) (\<lambda>(rc, v, m).
       let g = g\<lparr>glob_store_map_lock := m\<rparr> in
       if rc \<noteq> 0 then Inr (- 1, g, v)
       else
         bindo (reg bs (glob_store_map g) (glob_store_size g) name type sz v)
           (\<lambda>(rc, smap, ssz, v).
             let g = g\<lparr>glob_store_map := smap, glob_store_size := ssz\<rparr> in
             bindo (pthread_mutex_unlock v m) (\<lambda>(rc_unlock, v, m).
               let g = g\<lparr>glob_store_map_lock := m\<rparr> in
               if rc \<noteq> 0 then Inr (- 1, g, v)
               else if rc_unlock \<noteq> 0 then Inr (- 1, g, v)
               else Inr (0, g, v))))"

section \<open>One registration\<close>

lemma no_overflow:
  assumes "a < SIZE_MAX - b"
  shows "unat a + unat b < unat SIZE_MAX" and "unat (a + b) = unat a + unat b"
proof -
  have "unat (SIZE_MAX - b) = unat SIZE_MAX - unat b"
    by (simp add: SIZE_MAX_def unat_sub word_le_nat_alt [symmetric])
  with assms show s: "unat a + unat b < unat SIZE_MAX"
    by (simp add: word_less_nat_alt)
  then show "unat (a + b) = unat a + unat b"
    by (simp add: unat_add_lem [THEN iffD1] unat_SIZE_MAX)
qed

lemma room:
  assumes "unat a + unat b < unat SIZE_MAX"
  shows "a < SIZE_MAX - b"
proof -
  have "unat (SIZE_MAX - b) = unat SIZE_MAX - unat b"
    by (simp add: SIZE_MAX_def unat_sub word_le_nat_alt [symmetric])
  with assms show ?thesis by (simp add: word_less_nat_alt)
qed

text \<open>The blocks of a store map with those of its variables (each owns its type name).\<close>

definition map_blocks :: "(var, var) ht \<Rightarrow> int" where
  "map_blocks ht = ht_blocks ht + owned (\<lambda>_. 1) (ht_entries ht)"

definition map_ok :: "(var, var) ht \<Rightarrow> bool" where
  "map_ok ht \<longleftrightarrow> ht_ok ht \<and> set_value ht = fra_p_var_set \<and> destructor ht = fra_p_var_free"

definition reg_post ::
  "(var, var) ht \<Rightarrow> u64 \<Rightarrow> string \<Rightarrow> string \<Rightarrow> u64 \<Rightarrow> env \<Rightarrow> int \<Rightarrow> (var, var) ht \<Rightarrow> u64 \<Rightarrow> env \<Rightarrow> bool"
where
  "reg_post ht s name ty sz v rc ht' s' v' \<longleftrightarrow>
     map_ok ht' \<and> live v' - map_blocks ht' = live v - map_blocks ht \<and> pthreads v' = pthreads v \<and>
     (rc = 0 \<and> s < SIZE_MAX - sz \<and> s' = s + sz \<and>
        ht_map ht' = first_wins (ht_map ht) name \<lparr>var_type = ty, position = s\<rparr> \<or>
      rc = - 1 \<and> s' = s \<and> ht_map ht' = ht_map ht)"

lemma fra_p_var_set_eq [simp]: "fra_p_var_set x = (0, x)"
  by (simp add: fra_p_var_set_def)

lemma reg_step:
  assumes "bstr_ok bs" and ok: "map_ok ht"
  shows "\<exists>rc ht' s' v'. reg bs (Live ht) s name ty sz v = Inr (rc, Live ht', s', v') \<and>
    reg_post ht s name ty sz v rc ht' s' v'"
proof (cases "s < SIZE_MAX - sz")
  case True
  obtain r v1 where f: "bfromcstr bs v ty = (r, v1)" by (cases "bfromcstr bs v ty")
  show ?thesis
  proof (cases r)
    case None
    with f True ok bfromcstr_frame [OF assms(1) f] show ?thesis
      by (auto simp: reg_def reg_post_def)
  next
    case (Some t)
    with bfromcstr_frame [OF assms(1) f] have t: "t = ty"
      and v1: "live v1 = live v + 1" "pthreads v1 = pthreads v" by auto
    let ?x = "\<lparr>var_type = ty, position = s\<rparr>"
    obtain rc ht' v' where set: "fra_p_ht_set bs (Live ht) name ?x v1 = Inr (rc, Live ht', v')"
      and p: "set_post ht name ?x v1 rc ht' v'"
      using ht_set_step [OF assms(1), of ht name ?x v1] ok by (auto simp: map_ok_def)
    have rc: "rc = 0 \<or> rc = - 1" using p by (auto simp: set_post_def)
    have "reg bs (Live ht) s name ty sz v =
      (if rc = 0 then Inr (0, Live ht', s + sz, v') else Inr (- 1, Live ht', s, drop_block v'))"
      using True f Some t set rc by (auto simp: reg_def)
    then show ?thesis
      using p v1 ok True by (auto simp: set_post_def reg_post_def map_ok_def map_blocks_def)
  qed
qed (use ok in \<open>simp add: reg_def reg_post_def\<close>)

lemma reg_calm:
  assumes "bstr_ok bs" and ok: "map_ok ht" and "calm v" and "s < SIZE_MAX - sz"
  shows "\<exists>ht' v'. reg bs (Live ht) s name ty sz v = Inr (0, Live ht', s + sz, v') \<and> calm v' \<and>
    reg_post ht s name ty sz v 0 ht' (s + sz) v'"
proof -
  obtain rc ht' s' v' where r: "reg bs (Live ht) s name ty sz v = Inr (rc, Live ht', s', v')"
    and p: "reg_post ht s name ty sz v rc ht' s' v'"
    using reg_step [OF assms(1,2)] by blast
  let ?x = "\<lparr>var_type = ty, position = s\<rparr>"
  have c: "calm (v\<lparr>live := live v + 1\<rparr>)" using assms(3) by simp
  obtain ht1 v1 where "fra_p_ht_set bs (Live ht) name ?x (v\<lparr>live := live v + 1\<rparr>) = Inr (0, Live ht1, v1)"
    and "calm v1"
    using ht_set_calm [OF assms(1) _ c, of ht ?x name] ok by (auto simp: map_ok_def)
  with r assms have "rc = 0 \<and> s' = s + sz \<and> calm v'"
    by (auto simp: reg_def bfromcstr_calm)
  with r p show ?thesis by auto
qed

section \<open>Runs of registrations\<close>

text \<open>\<open>reg\<close> as a registration in a store map together with its store size.\<close>

definition reg_entry ::
  "bstrlib \<Rightarrow> store_map \<times> u64 \<Rightarrow> string \<Rightarrow> string \<times> u64 \<Rightarrow> env \<Rightarrow>
   (int \<times> (store_map \<times> u64) \<times> env) outcome" where
  "reg_entry bs = (\<lambda>(smap, s) name (ty, sz) v.
     bindo (reg bs smap s name ty sz v) (\<lambda>(rc, smap, s, v). Inr (rc, (smap, s), v)))"

definition var_types :: "store_map \<times> u64 \<Rightarrow> string \<Rightarrow> string option" where
  "var_types = (\<lambda>(smap, s) name. map_option var_type (ht_contents smap name))"

definition store_inv :: "bstrlib \<Rightarrow> store_map \<times> u64 \<Rightarrow> bool" where
  "store_inv bs = (\<lambda>(smap, s). bstr_ok bs \<and> (\<exists>ht. smap = Live ht \<and> map_ok ht))"

interpretation vars: registry "reg_entry bs" var_types fst "store_inv bs" for bs
proof unfold_locales
  fix t k and a :: "string \<times> u64" and v
  assume "store_inv bs t"
  then obtain ht s where t: "t = (Live ht, s)" and ok: "bstr_ok bs" "map_ok ht"
    by (auto simp: store_inv_def)
  obtain ty sz where a: "a = (ty, sz)" by (cases a)
  obtain rc ht' s' v' where r: "reg bs (Live ht) s k ty sz v = Inr (rc, Live ht', s', v')"
    and p: "reg_post ht s k ty sz v rc ht' s' v'"
    using reg_step [OF ok] by blast
  then have e: "reg_entry bs t k a v = Inr (rc, (Live ht', s'), v')"
    by (simp add: reg_entry_def t a)
  show "\<exists>rc t' v'. reg_entry bs t k a v = Inr (rc, t', v')" using e by blast
  fix rc1 :: int and t1 :: "store_map \<times> u64" and v1 :: env
  { assume "reg_entry bs t k a v = Inr (rc1, t1, v1)"
    then show "store_inv bs t1" using e p ok by (auto simp: store_inv_def reg_post_def) }
  { assume "reg_entry bs t k a v = Inr (0, t1, v1)"
    then show "var_types t1 = first_wins (var_types t) k (fst a)"
      using e p by (auto simp: var_types_def t a ht_contents_def reg_post_def first_wins_def fun_eq_iff
          split: option.splits) }
  { assume "reg_entry bs t k a v = Inr (rc1, t1, v1)" and "rc1 \<noteq> 0"
    then show "var_types t1 = var_types t"
      using e p by (auto simp: var_types_def t ht_contents_def reg_post_def) }
qed

text \<open>The variables of the accepted registrations, laid out one behind the other.\<close>

fun layout :: "u64 \<Rightarrow> (string \<times> string \<times> u64) list \<Rightarrow> (string \<times> var) list" where
  "layout p [] = []"
| "layout p ((name, ty, sz) # rs) = (name, \<lparr>var_type = ty, position = p\<rparr>) # layout (p + sz) rs"

definition sizes :: "(string \<times> string \<times> u64) list \<Rightarrow> nat" where
  "sizes rs = (\<Sum>(name, ty, sz) \<leftarrow> rs. unat sz)"

lemma sizes_simps [simp]:
  "sizes [] = 0" "sizes ((name, ty, sz) # rs) = unat sz + sizes rs"
  by (simp_all add: sizes_def)

lemma layout_length [simp]: "length (layout p rs) = length rs"
  by (induction p rs rule: layout.induct) auto

lemma layout_nth:
  "unat p + sizes rs \<le> unat SIZE_MAX \<Longrightarrow> i < length rs \<Longrightarrow>
   fst (layout p rs ! i) = fst (rs ! i) \<and> var_type (snd (layout p rs ! i)) = fst (snd (rs ! i)) \<and>
   unat (position (snd (layout p rs ! i))) = unat p + sizes (take i rs)"
proof (induction p rs arbitrary: i rule: layout.induct)
  case (2 p name ty sz rs)
  have "unat (p + sz) = unat p + unat sz"
    using "2.prems"(1) by (simp add: unat_add_lem [THEN iffD1] unat_SIZE_MAX)
  with 2 show ?case by (cases i) simp_all
qed simp

lemma sizes_take_mono: "i \<le> j \<Longrightarrow> sizes (take i rs) \<le> sizes (take j rs)"
proof -
  assume "i \<le> j"
  then have "take j rs = take i rs @ take (j - i) (drop i rs)"
    by (metis le_add_diff_inverse take_add)
  moreover have "sizes (xs @ ys) = sizes xs + sizes ys" for xs ys by (simp add: sizes_def)
  ultimately show ?thesis by simp
qed

lemma sizes_take_Suc:
  "i < length rs \<Longrightarrow> sizes (take (Suc i) rs) = sizes (take i rs) + unat (snd (snd (rs ! i)))"
  by (simp add: take_Suc_conv_app_nth sizes_def case_prod_unfold)

lemma register_all_layout:
  assumes "bstr_ok bs"
  shows "map_ok ht \<Longrightarrow> register_all (reg_entry bs) (Live ht, s) kas v = Inr (rcs, (hp', s'), v') \<Longrightarrow>
    \<exists>ht'. hp' = Live ht' \<and> map_ok ht' \<and>
      ht_map ht' = map_of (layout s (accepted (\<lambda>a. a) rcs kas)) ++ ht_map ht \<and>
      unat s' = unat s + sizes (accepted (\<lambda>a. a) rcs kas) \<and>
      live v' - map_blocks ht' = live v - map_blocks ht"
proof (induction kas arbitrary: ht s v rcs)
  case (Cons ka kas)
  obtain k ty sz where ka: "ka = (k, ty, sz)" by (cases ka)
  obtain rc ht1 s1 v1 where r: "reg bs (Live ht) s k ty sz v = Inr (rc, Live ht1, s1, v1)"
    and p: "reg_post ht s k ty sz v rc ht1 s1 v1"
    using reg_step [OF assms Cons.prems(1)] by blast
  from Cons.prems(2) obtain rcs1 where
    rs: "register_all (reg_entry bs) (Live ht1, s1) kas v1 = Inr (rcs1, (hp', s'), v')"
    and rcs: "rcs = rc # rcs1"
    by (auto simp: ka r reg_entry_def bindo_eq_Inr)
  have ok1: "map_ok ht1" using p by (simp add: reg_post_def)
  obtain ht' where ht': "hp' = Live ht'" "map_ok ht'"
      "ht_map ht' = map_of (layout s1 (accepted (\<lambda>a. a) rcs1 kas)) ++ ht_map ht1"
      "unat s' = unat s1 + sizes (accepted (\<lambda>a. a) rcs1 kas)"
      "live v' - map_blocks ht' = live v1 - map_blocks ht1"
    using Cons.IH [OF ok1 rs] by blast
  show ?case
  proof (cases "rc = 0")
    case True
    then have "s < SIZE_MAX - sz" "s1 = s + sz"
      and m: "ht_map ht1 = first_wins (ht_map ht) k \<lparr>var_type = ty, position = s\<rparr>"
      using p by (auto simp: reg_post_def)
    then have "unat s1 = unat s + unat sz" by (simp add: no_overflow)
    moreover have "ht_map ht' = map_of (layout s (accepted (\<lambda>a. a) rcs (ka # kas))) ++ ht_map ht"
      using True ht'(3) m \<open>s1 = s + sz\<close> by (simp add: ka rcs map_add_first_wins)
    moreover have "live v1 - map_blocks ht1 = live v - map_blocks ht"
      using p by (simp add: reg_post_def)
    ultimately show ?thesis
      using True ht'(1,2,4,5) by (intro exI [of _ ht'] conjI) (simp_all add: ka rcs fun_upd_def)
  next
    case False
    then show ?thesis using ht' p by (auto simp: ka rcs reg_post_def)
  qed
qed auto


section \<open>Properties\<close>

lemma var_ht_new:
  assumes "fra_p_var_ht_get n v = (Live ht, v0)" and "0 < n" and "n < 2 ^ 31"
  shows "map_ok ht" and "ht_map ht = Map.empty" and "live v0 = live v + map_blocks ht"
  using ht_new_ok [OF assms(1) [unfolded fra_p_var_ht_get_def] assms(2,3)]
    ht_new_entries [OF assms(1) [unfolded fra_p_var_ht_get_def]]
  by (simp_all add: map_ok_def map_blocks_def)

text \<open>C15: variables never overlap. After any run of registrations in a new store map, with
  failures in between, the accepted variables lie one behind the other inside the store: each
  ends before the next one begins and the last one ends at or before the store size, as numbers,
  without wrap-around; and looking up a name finds the type and position given to its first
  accepted registration.\<close>

theorem var_layout:
  assumes "bstr_ok bs" and new: "fra_p_var_ht_get n v = (Live ht, v0)" and n: "0 < n" "n < 2 ^ 31"
    and run: "register_all (reg_entry bs) (Live ht, s0) kas v0 = Inr (rcs, (hp, s1), v1)"
    and acc: "acc = accepted (\<lambda>a. a) rcs kas" and ij: "i < j" "j < length acc"
  shows "unat (position (snd (layout s0 acc ! i))) + unat (snd (snd (acc ! i)))
           \<le> unat (position (snd (layout s0 acc ! j))) \<and>
    unat (position (snd (layout s0 acc ! j))) + unat (snd (snd (acc ! j))) \<le> unat s1 \<and>
    (\<exists>ht' r. hp = Live ht' \<and> fra_p_ht_get bs hp name (length name) = Inr r \<and>
       map_option (ht_value ht') r = map_of (layout s0 acc) name)"
proof -
  note ht0 = var_ht_new [OF new n]
  obtain ht' where ht': "hp = Live ht'" "map_ok ht'"
    "ht_map ht' = map_of (layout s0 acc)" "unat s1 = unat s0 + sizes acc"
    using register_all_layout [OF assms(1) ht0(1) run] ht0(2) acc by auto
  have "unat s1 \<le> unat SIZE_MAX"
    using word_order.extremum [of s1] by (simp add: SIZE_MAX_def word_le_nat_alt)
  then have fits: "unat s0 + sizes acc \<le> unat SIZE_MAX" using ht'(4) by simp
  note pos = layout_nth [OF fits]
  have i: "i < length acc" using ij by simp
  have "sizes (take (Suc i) acc) \<le> sizes (take j acc)"
    using ij by (intro sizes_take_mono) simp
  then have before: "unat (position (snd (layout s0 acc ! i))) + unat (snd (snd (acc ! i)))
      \<le> unat (position (snd (layout s0 acc ! j)))"
    using pos [OF i] pos [OF ij(2)] sizes_take_Suc [OF i] by simp
  have "sizes (take (Suc j) acc) \<le> sizes (take (length acc) acc)"
    using ij by (intro sizes_take_mono) simp
  then have inside: "unat (position (snd (layout s0 acc ! j))) + unat (snd (snd (acc ! j))) \<le> unat s1"
    using pos [OF ij(2)] sizes_take_Suc [OF ij(2)] ht'(4) by simp
  have "\<exists>r. fra_p_ht_get bs (Live ht') name (length name) = Inr r \<and>
      map_option (ht_value ht') r = map_of (layout s0 acc) name"
    using ht_get_ok [OF assms(1), of ht' "length name" name] ht'
    by (auto simp: map_ok_def points_at_value)
  with before inside ht'(1) show ?thesis by blast
qed

text \<open>A store map gives back everything it took: after any run of registrations, freeing
  the map leaves as many blocks live as there were before it was made, whichever allocations
  failed on the way.\<close>

theorem var_map_no_leak:
  assumes "bstr_ok bs" and new: "fra_p_var_ht_get n v = (Live ht, v0)" and n: "0 < n" "n < 2 ^ 31"
    and run: "register_all (reg_entry bs) (Live ht, s0) kas v0 = Inr (rcs, (hp, s1), v1)"
  shows "\<exists>v2. fra_p_ht_free hp v1 = Inr v2 \<and> live v2 = live v"
proof -
  note ht0 = var_ht_new [OF new n]
  obtain ht' where ht': "hp = Live ht'" "map_ok ht'"
    "live v1 - map_blocks ht' = live v0 - map_blocks ht"
    using register_all_layout [OF assms(1) ht0(1) run] by blast
  then show ?thesis
    using ht_free_live [of ht' "\<lambda>_. 1" v1] ht0(3)
    by (auto simp: map_ok_def fra_p_var_free_def map_blocks_def)
qed

text \<open>Registering a name a second time is not reported: with no call failing and room in
  the store, \<open>reg\<close> returns 0 and reserves the space, although lookups keep finding the first
  variable; the message for return code 1 of \<open>fra_p_ht_set\<close> is never reached.\<close>

theorem var_duplicate_accepted:
  assumes "bstr_ok bs" and "map_ok ht" and "calm v" and "s < SIZE_MAX - sz"
    and "ht_map ht name = Some old"
  shows "\<exists>ht' v'. reg bs (Live ht) s name ty sz v = Inr (0, Live ht', s + sz, v') \<and>
    ht_map ht' = ht_map ht"
  using reg_calm [OF assms(1-4), of name ty] assms(5)
  by (auto simp: reg_post_def first_wins_def split: option.splits)

text \<open>When no call fails, registering a request variable is \<open>reg\<close> on the global map, and
  the lock is free again afterwards.\<close>

theorem req_var_reg_is_reg:
  assumes "bstr_ok bs" and "calm v" and "\<not> glob_store_map_lock g"
    and "glob_store_map g = Live ht" and "map_ok ht" and "glob_store_size g < SIZE_MAX - sz"
  shows "\<exists>ht' v'. fra_req_var_reg bs name ty sz g v =
      Inr (0, g\<lparr>glob_store_map := Live ht', glob_store_size := glob_store_size g + sz\<rparr>, v') \<and>
    reg bs (Live ht) (glob_store_size g) name ty sz v =
      Inr (0, Live ht', glob_store_size g + sz, v')"
proof -
  obtain ht' v' where "reg bs (Live ht) (glob_store_size g) name ty sz v =
      Inr (0, Live ht', glob_store_size g + sz, v')" and "calm v'"
    using reg_calm [OF assms(1,5,2,6)] by blast
  with assms show ?thesis
    by (simp add: fra_req_var_reg_def pthread_mutex_lock_def pthread_mutex_unlock_def draw_calm)
qed

section \<open>Witnesses\<close>

definition new_map :: "(var, var) ht" where
  "new_map = projr (deref (fst (fra_p_var_ht_get 20 quiet_env)))"

lemma new_map: "fra_p_var_ht_get 20 quiet_env = (Live new_map, quiet_env\<lparr>live := 2\<rparr>)"
  by (simp add: new_map_def fra_p_var_ht_get_def fra_p_ht_new_def quiet_env_def take_block_def draw_def)

text \<open>A \<open>char\<close>, an \<open>int\<close> and the name of the first one again.\<close>

definition demo_vars :: "(string \<times> string \<times> u64) list" where
  "demo_vars = [(''c'', ''char'', 1), (''n'', ''int'', 4), (''c'', ''int'', 4)]"

lemma two_vars_run:
  "\<exists>rcs ht' s1 v1. register_all (reg_entry plain_bstr) (Live new_map, 0) (take 2 demo_vars)
     (quiet_env\<lparr>live := 2\<rparr>) = Inr ([0, 0], (Live ht', s1), v1) \<and>
     map_ok ht' \<and> calm v1"
proof -
  note ok0 = var_ht_new(1) [OF new_map]
  obtain ht1 v1 where r1: "reg plain_bstr (Live new_map) 0 ''c'' ''char'' 1 (quiet_env\<lparr>live := 2\<rparr>) =
      Inr (0, Live ht1, 1, v1)" and "calm v1" and "map_ok ht1"
    using reg_calm [OF plain_bstr_ok ok0, of "quiet_env\<lparr>live := 2\<rparr>" 0 1 "''c''" "''char''"]
    by (auto simp: room unat_SIZE_MAX reg_post_def)
  obtain ht2 v2 where r2: "reg plain_bstr (Live ht1) 1 ''n'' ''int'' 4 v1 =
      Inr (0, Live ht2, 5, v2)" and "calm v2" and "map_ok ht2"
    using reg_calm [OF plain_bstr_ok \<open>map_ok ht1\<close> \<open>calm v1\<close>, of 1 4 "''n''" "''int''"]
    by (auto simp: room unat_SIZE_MAX reg_post_def)
  then show ?thesis by (simp add: demo_vars_def reg_entry_def r1 r2)
qed

theorem var_layout_witness:
  "\<exists>hp s1 v1. register_all (reg_entry plain_bstr) (Live new_map, 0) (take 2 demo_vars)
     (quiet_env\<lparr>live := 2\<rparr>) = Inr ([0, 0], (hp, s1), v1) \<and>
   unat (position (snd (layout 0 (take 2 demo_vars) ! 0))) + unat (1 :: u64)
     \<le> unat (position (snd (layout 0 (take 2 demo_vars) ! 1))) \<and>
   unat (position (snd (layout 0 (take 2 demo_vars) ! 1))) + unat (4 :: u64) \<le> unat s1"
proof -
  obtain hp s1 v1 where run: "register_all (reg_entry plain_bstr) (Live new_map, 0) (take 2 demo_vars)
     (quiet_env\<lparr>live := 2\<rparr>) = Inr ([0, 0], (hp, s1), v1)"
    using two_vars_run by auto
  have "take 2 demo_vars = accepted (\<lambda>a. a) [0, 0] (take 2 demo_vars)"
    by (simp add: demo_vars_def)
  from var_layout [OF plain_bstr_ok new_map _ _ run this, of 0 1] run show ?thesis
    by (auto simp: demo_vars_def)
qed

theorem var_map_no_leak_witness:
  "\<exists>rcs hp s1 v1 v2. register_all (reg_entry plain_bstr) (Live new_map, 0) (take 2 demo_vars)
     (quiet_env\<lparr>live := 2\<rparr>) = Inr (rcs, (hp, s1), v1) \<and>
   fra_p_ht_free hp v1 = Inr v2 \<and> live v2 = 0"
proof -
  obtain hp s1 v1 where run: "register_all (reg_entry plain_bstr) (Live new_map, 0) (take 2 demo_vars)
     (quiet_env\<lparr>live := 2\<rparr>) = Inr ([0, 0], (hp, s1), v1)"
    using two_vars_run by auto
  from var_map_no_leak [OF plain_bstr_ok new_map _ _ run] run show ?thesis
    by (auto simp: quiet_env_def)
qed

theorem var_duplicate_accepted_witness:
  "\<exists>ht v ht' v'. ht_map ht ''c'' \<noteq> None \<and>
     reg plain_bstr (Live ht) 1 ''c'' ''int'' 4 v = Inr (0, Live ht', 5, v') \<and> ht_map ht' = ht_map ht"
proof -
  note ok0 = var_ht_new [OF new_map]
  obtain ht1 v1 where r1: "reg plain_bstr (Live new_map) 0 ''c'' ''char'' 1 (quiet_env\<lparr>live := 2\<rparr>) =
      Inr (0, Live ht1, 1, v1)" and c: "calm v1" and ok1: "map_ok ht1" and old: "ht_map ht1 ''c'' \<noteq> None"
    using reg_calm [OF plain_bstr_ok ok0(1), of "quiet_env\<lparr>live := 2\<rparr>" 0 1 "''c''" "''char''"] ok0(2)
    by (auto simp: room unat_SIZE_MAX reg_post_def first_wins_def)
  from old obtain x where "ht_map ht1 ''c'' = Some x" by auto
  from var_duplicate_accepted [OF plain_bstr_ok ok1 c _ this, of 1 4 "''int''"] old show ?thesis
    by (auto simp: room unat_SIZE_MAX)
qed

theorem req_var_reg_is_reg_witness:
  "\<exists>g' v'. fra_req_var_reg plain_bstr ''n'' ''int'' 4
     \<lparr>glob_store_map = Live new_map, glob_store_size = 8, glob_store_map_lock = False\<rparr>
     (quiet_env\<lparr>live := 2\<rparr>) = Inr (0, g', v') \<and> glob_store_size g' = 12"
  using req_var_reg_is_reg [OF plain_bstr_ok, of "quiet_env\<lparr>live := 2\<rparr>"
      "\<lparr>glob_store_map = Live new_map, glob_store_size = 8, glob_store_map_lock = False\<rparr>" new_map 4
      "''n''" "''int''"] var_ht_new(1) [OF new_map]
  by (auto simp: room unat_SIZE_MAX)

end
