(* ===== verification/Url.thy ===== *)
theory Url
  imports Ht
begin

text \<open>
  The routes of \<open>src/url.c\<close>: a hash table from urls to chains of verbs and endpoints. The
  first node of a chain lies in the table, the others are allocated one by one and only
  reachable through it, so a chain is a recursive datatype. An endpoint is its address.
\<close>

section \<open>State and operations\<close>

definition FRA_CORE_MAX_ENDPOINT_LENGTH :: nat where "FRA_CORE_MAX_ENDPOINT_LENGTH = 512"

datatype url = Url (url_verb: string) (url_e: addr) (url_next: "url option")

type_synonym url_table = "(url, string \<times> addr) ht ptr"

record url_globals =
  urls :: url_table
  urls_lock :: mutex

definition set_url :: "string \<times> addr \<Rightarrow> int \<times> url" where
  "set_url = (\<lambda>(vb, e). (0, Url vb e None))"

fun destroy_chain :: "url option \<Rightarrow> env \<Rightarrow> env" where
  "destroy_chain None v = v"
| "destroy_chain (Some (Url vb e n)) v = destroy_chain n (drop_block (drop_block v))"

definition destroy_url :: "url \<Rightarrow> env \<Rightarrow> env" where
  "destroy_url u v = destroy_chain (url_next u) (drop_block v)"

text \<open>\<open>sizeof( struct url )\<close> is three pointers.\<close>

definition fra_p_url_ht_get :: "env \<Rightarrow> url_table \<times> env" where
  "fra_p_url_ht_get v = fra_p_ht_new v 500 24 set_url destroy_url"

text \<open>
  \<open>pthread_mutex_init\<close> and \<open>pthread_mutex_destroy\<close> return 0 on success, which is what the
  checks of \<open>fra_p_url_init\<close> and \<open>fra_p_url_deinit\<close> take for a failure.
\<close>

definition fra_p_url_init :: "url_globals \<Rightarrow> env \<Rightarrow> int \<times> url_globals \<times> env" where
  "fra_p_url_init g v =
     (let (rc, v) = (if pthreads v then let (ok, v) = draw v in (if ok then 0 else 1, v) else (1, v))
      in if pthreads v \<and> rc = (0 :: int) then (- 1, g, v)
      else
        let (t, v) = fra_p_ht_new v 500 24 set_url destroy_url;
            g = g\<lparr>urls := t\<rparr>
        in if t \<noteq> Null then (0, g, v)
           else if pthreads v then let (ok, v) = draw v in (- 1, g, v)
           else (- 1, g, v))"

definition fra_p_url_deinit :: "url_globals \<Rightarrow> env \<Rightarrow> (url_globals \<times> env) outcome" where
  "fra_p_url_deinit g v =
     bindo (fra_p_lock v (urls_lock g)) (\<lambda>(rc, v, m).
       let g = g\<lparr>urls_lock := m\<rparr> in
       if rc \<noteq> 0 then Inr (g, v)
       else
         bindo (fra_p_ht_free (urls g) v) (\<lambda>v.
           let g = g\<lparr>urls := Null\<rparr> in
           bindo (fra_p_unlock v m) (\<lambda>(rc, v, m).
             let g = g\<lparr>urls_lock := m\<rparr> in
             if rc \<noteq> 0 then Inr (g, v)
             else if pthreads v then let (ok, v) = draw v in Inr (g, v)
             else Inr (g, v))))"

text \<open>The walk along a chain: \<open>Inl ()\<close> for a failed comparison.\<close>

fun find_verb :: "bstrlib \<Rightarrow> string \<Rightarrow> url option \<Rightarrow> unit + addr" where
  "find_verb bs verb None = Inr 0"
| "find_verb bs verb (Some (Url vb e n)) =
     (let eq = biseq bs vb verb
      in if eq = - 1 then Inl () else if eq \<noteq> 0 then Inr e else find_verb bs verb n)"

definition fra_p_url_to_endpoint ::
  "bstrlib \<Rightarrow> string \<Rightarrow> string \<Rightarrow> url_globals \<Rightarrow> env \<Rightarrow> (addr \<times> url_globals \<times> env) outcome" where
  "fra_p_url_to_endpoint bs verb url g v =
     bindo (fra_p_lock v (urls_lock g)) (\<lambda>(rc, v, m).
       let g = g\<lparr>urls_lock := m\<rparr> in
       if rc \<noteq> 0 then Inr (0, g, v)
       else
         bindo (fra_p_ht_get bs (urls g) url (length url)) (\<lambda>r.
         bindo (case r of None \<Rightarrow> Inr None
                | Some l \<Rightarrow> bindo (deref (urls g)) (\<lambda>ht. Inr (Some (ht_value ht l)))) (\<lambda>chn.
           let found = find_verb bs verb chn in
           bindo (fra_p_unlock v m) (\<lambda>(rc, v, m).
             let g = g\<lparr>urls_lock := m\<rparr> in
             case found of Inl _ \<Rightarrow> Inr (0, g, v)
             | Inr e \<Rightarrow> if rc \<noteq> 0 then Inr (0, g, v) else Inr (e, g, v)))))"

text \<open>\<open>while( value->next ) value = value->next;\<close> and linking the new node there.\<close>

fun append_url :: "url \<Rightarrow> string \<Rightarrow> addr \<Rightarrow> url" where
  "append_url (Url vb e None) verb e' = Url vb e (Some (Url verb e' None))"
| "append_url (Url vb e (Some u)) verb e' = Url vb e (Some (append_url u verb e'))"

text \<open>The part of \<open>fra_end_url_add\<close> between locking and unlocking.\<close>

definition add_route ::
  "bstrlib \<Rightarrow> url_table \<Rightarrow> addr \<Rightarrow> string \<Rightarrow> string \<Rightarrow> env \<Rightarrow> (int \<times> url_table \<times> env) outcome" where
  "add_route bs t e verb url v =
     (case bfromcstr bs v verb of
        (None, v) \<Rightarrow> Inr (- 1, t, v)
      | (Some new_verb, v) \<Rightarrow>
          let url_len = min (length url) FRA_CORE_MAX_ENDPOINT_LENGTH in
          if \<not> url_len < FRA_CORE_MAX_ENDPOINT_LENGTH then Inr (- 1, t, drop_block v)
          else
            bindo (fra_p_ht_get bs t url url_len) (\<lambda>r.
              case r of
                Some l \<Rightarrow>
                  let (ok, v) = take_block v in
                  if \<not> ok then Inr (- 1, t, drop_block v)
                  else bindo (deref t) (\<lambda>ht.
                    Inr (0, Live (ht_update ht l (append_url (ht_value ht l) new_verb e)), v))
              | None \<Rightarrow>
                  bindo (fra_p_ht_set bs t url (new_verb, e) v) (\<lambda>(rc, t, v).
                    if rc \<noteq> 0 then Inr (- 1, t, drop_block v) else Inr (0, t, v))))"

definition fra_end_url_add ::
  "bstrlib \<Rightarrow> addr \<Rightarrow> string \<Rightarrow> string \<Rightarrow> url_globals \<Rightarrow> env \<Rightarrow> (int \<times> url_globals \<times> env) outcome" where
  "fra_end_url_add bs e verb url g v =
     bindo (fra_p_lock v (urls_lock g)) (\<lambda>(rc, v, m).
       let g = g\<lparr>urls_lock := m\<rparr> in
       if rc \<noteq> 0 then Inr (- 1, g, v)
       else
         bindo (add_route bs (urls g) e verb url v) (\<lambda>(rc, t, v).
           let g = g\<lparr>urls := t\<rparr> in
           bindo (fra_p_unlock v m) (\<lambda>(rc_unlock, v, m).
             let g = g\<lparr>urls_lock := m\<rparr> in
             if rc \<noteq> 0 then Inr (- 1, g, v)
             else if rc_unlock \<noteq> 0 then Inr (- 1, g, v)
             else Inr (0, g, v))))"

section \<open>The routes of a table\<close>

fun verb_endpoint :: "url option \<Rightarrow> string \<Rightarrow> addr option" where
  "verb_endpoint None verb = None"
| "verb_endpoint (Some (Url vb e n)) verb = (if vb = verb then Some e else verb_endpoint n verb)"

definition routes :: "url_table \<Rightarrow> string \<times> string \<Rightarrow> addr option" where
  "routes t = (\<lambda>(url, verb). verb_endpoint (ht_contents t url) verb)"

text \<open>Blocks a chain owns besides its first node: a verb per node, and the later nodes.\<close>

fun chain_blocks :: "url option \<Rightarrow> int" where
  "chain_blocks None = 0"
| "chain_blocks (Some (Url vb e n)) = 2 + chain_blocks n"

definition url_blocks :: "url \<Rightarrow> int" where
  "url_blocks u = 1 + chain_blocks (url_next u)"

definition table_blocks :: "(url, string \<times> addr) ht \<Rightarrow> int" where
  "table_blocks ht = ht_blocks ht + owned url_blocks (ht_entries ht)"

definition table_ok :: "(url, string \<times> addr) ht \<Rightarrow> bool" where
  "table_ok ht \<longleftrightarrow> ht_ok ht \<and> set_value ht = set_url \<and> destructor ht = destroy_url"

lemma find_verb_endpoint:
  "bstr_ok bs \<Longrightarrow> find_verb bs verb u = Inr (case verb_endpoint u verb of None \<Rightarrow> 0 | Some e \<Rightarrow> e)"
  by (induction bs verb u rule: find_verb.induct) (simp_all add: Let_def)

lemma verb_endpoint_append:
  "verb_endpoint (Some (append_url u verb e)) = first_wins (verb_endpoint (Some u)) verb e"
proof (induction u verb e rule: append_url.induct)
  case (2 vb e u verb e')
  then show ?case by (auto simp: first_wins_def fun_eq_iff split: option.splits if_splits)
qed (auto simp: first_wins_def fun_eq_iff)

lemma chain_blocks_Some: "chain_blocks (Some u) = 2 + chain_blocks (url_next u)"
  by (cases u) simp

lemma url_blocks_append: "url_blocks (append_url u verb e) = url_blocks u + 2"
  by (induction u verb e rule: append_url.induct) (auto simp: url_blocks_def chain_blocks_Some)
  
lemma destroy_chain_live: "live (destroy_chain u v) = live v - chain_blocks u"
  by (induction u v rule: destroy_chain.induct) auto

lemma destroy_url_live: "live (destroy_url u v) = live v - url_blocks u"
  by (simp add: destroy_url_def url_blocks_def destroy_chain_live)

lemma table_new:
  assumes "fra_p_url_ht_get v = (Live ht, v')"
  shows "table_ok ht" and "routes (Live ht) = Map.empty" and "live v' = live v + table_blocks ht"
  using ht_new_ok [OF assms [unfolded fra_p_url_ht_get_def]]
    ht_new_entries [OF assms [unfolded fra_p_url_ht_get_def]]
  by (auto simp: table_ok_def table_blocks_def routes_def ht_contents_def)

section \<open>Adding one route\<close>

definition route_post ::
  "(url, string \<times> addr) ht \<Rightarrow> addr \<Rightarrow> string \<Rightarrow> string \<Rightarrow> env \<Rightarrow> int \<Rightarrow>
   (url, string \<times> addr) ht \<Rightarrow> env \<Rightarrow> bool" where
  "route_post ht e verb url v rc ht' v' \<longleftrightarrow>
     table_ok ht' \<and> live v' - table_blocks ht' = live v - table_blocks ht \<and> pthreads v' = pthreads v \<and>
     (rc = 0 \<and> length url < FRA_CORE_MAX_ENDPOINT_LENGTH \<and>
        routes (Live ht') = first_wins (routes (Live ht)) (url, verb) e \<or>
      rc = - 1 \<and> routes (Live ht') = routes (Live ht))"

lemma routes_upd:
  assumes "ht_map ht' = (ht_map ht)(url \<mapsto> x)"
    and "verb_endpoint (Some x) = first_wins (verb_endpoint (ht_map ht url)) verb e"
  shows "routes (Live ht') = first_wins (routes (Live ht)) (url, verb) e"
  using assms
  by (auto simp: routes_def ht_contents_def first_wins_def fun_eq_iff split: option.splits if_splits)

lemma add_route_step:
  assumes "bstr_ok bs" and ok: "table_ok ht"
  shows "\<exists>rc ht' v'. add_route bs (Live ht) e verb url v = Inr (rc, Live ht', v') \<and>
    route_post ht e verb url v rc ht' v' \<and>
    (calm v \<and> length url < FRA_CORE_MAX_ENDPOINT_LENGTH \<longrightarrow> rc = 0 \<and> calm v')"
proof -
  have hok: "ht_ok ht" using ok by (simp add: table_ok_def)
  obtain r v1 where f: "bfromcstr bs v verb = (r, v1)" by (cases "bfromcstr bs v verb")
  show ?thesis
  proof (cases "r = None \<or> \<not> length url < FRA_CORE_MAX_ENDPOINT_LENGTH")
    case True
    with f ok bfromcstr_frame [OF assms(1) f] bfromcstr_calm [OF _ assms(1), of v verb] show ?thesis
      by (cases r) (auto simp: add_route_def route_post_def)
  next
    case False
    with bfromcstr_frame [OF assms(1) f] have r: "r = Some verb"
      and v1: "live v1 = live v + 1" "pthreads v1 = pthreads v"
      and len: "length url < FRA_CORE_MAX_ENDPOINT_LENGTH" by auto
    have c1: "calm v \<Longrightarrow> calm v1" using f bfromcstr_calm [OF _ assms(1), of v verb] by auto
    obtain p where get: "fra_p_ht_get bs (Live ht) url (length url) = Inr p" and p: "points_at ht url p"
      using ht_get_ok [OF assms(1) hok, of "length url" url] by auto
    show ?thesis
    proof (cases p)
      case None
      obtain rc ht' v' where set: "fra_p_ht_set bs (Live ht) url (verb, e) v1 = Inr (rc, Live ht', v')"
        and post: "set_post ht url (verb, e) v1 rc ht' v'" and c: "calm v \<Longrightarrow> rc = 0 \<and> calm v'"
      proof (cases "calm v")
        case True
        then show ?thesis using that ht_set_calm [OF assms(1) hok c1, of "(verb, e)" url] ok
          by (auto simp: table_ok_def set_url_def)
      next
        case False
        then show ?thesis using that ht_set_step [OF assms(1) hok, of url "(verb, e)" v1] by blast
      qed
      have m: "ht_map ht url = None" using p None by (simp add: points_at_def)
      have sv: "set_value ht = set_url" using ok by (simp add: table_ok_def)
      have "rc = 0 \<Longrightarrow> routes (Live ht') = first_wins (routes (Live ht)) (url, verb) e"
        using post m sv
        by (intro routes_upd [where x = "Url verb e None"])
          (auto simp: set_post_def set_url_def first_wins_def fun_eq_iff)
      moreover have "rc \<noteq> 0 \<Longrightarrow> routes (Live ht') = routes (Live ht)" and "rc = 0 \<or> rc = - 1"
        using post by (auto simp: set_post_def routes_def ht_contents_def)
      moreover have "add_route bs (Live ht) e verb url v =
          (if rc = 0 then Inr (0, Live ht', v') else Inr (- 1, Live ht', drop_block v'))"
        using f r len get None set by (simp add: add_route_def)
      ultimately show ?thesis
        using post ok v1 len c sv
        by (auto simp: route_post_def table_ok_def table_blocks_def set_post_def set_url_def
            url_blocks_def)
    next
      case (Some l)
      obtain okm v2 where t: "take_block v1 = (okm, v2)" by (cases "take_block v1")
      let ?x = "append_url (ht_value ht l) verb e"
      define ht' where "ht' = ht_update ht l ?x"
      note upd = ht_update_ok [OF hok p [unfolded Some] ht'_def]
      have val: "ht_map ht url = Some (ht_value ht l)" using p Some by (simp add: points_at_def)
      have "routes (Live ht') = first_wins (routes (Live ht)) (url, verb) e"
        by (rule routes_upd [OF upd(2)]) (simp add: val verb_endpoint_append)
      moreover have "table_blocks ht' = table_blocks ht + 2"
        using arg_cong [OF upd(6), of "owned url_blocks"]
        by (simp add: table_blocks_def upd(3) url_blocks_append)
      moreover have "add_route bs (Live ht) e verb url v =
          (if okm then Inr (0, Live ht', v2) else Inr (- 1, Live ht, drop_block v2))"
        using f r len get Some t by (simp add: add_route_def ht'_def)
      ultimately show ?thesis
        using ok upd len v1 take_block_live [OF t] c1 t
        by (auto simp: route_post_def table_ok_def take_block_calm)
    qed
  qed
qed

section \<open>Runs of registrations\<close>

lemma destroy_chain_pthreads: "pthreads (destroy_chain u v) = pthreads v"
  by (induction u v rule: destroy_chain.induct) auto

definition route_entry ::
  "bstrlib \<Rightarrow> url_table \<Rightarrow> string \<times> string \<Rightarrow> addr \<Rightarrow> env \<Rightarrow> (int \<times> url_table \<times> env) outcome" where
  "route_entry bs t = (\<lambda>(url, verb) e v. add_route bs t e verb url v)"

definition table_inv :: "bstrlib \<Rightarrow> url_table \<Rightarrow> bool" where
  "table_inv bs t \<longleftrightarrow> bstr_ok bs \<and> (\<exists>ht. t = Live ht \<and> table_ok ht)"

interpretation route: registry "route_entry bs" routes "\<lambda>e. e" "table_inv bs" for bs
proof unfold_locales
  fix t and k :: "string \<times> string" and e :: addr and v
  assume "table_inv bs t"
  then obtain ht where t: "t = Live ht" and ok: "bstr_ok bs" "table_ok ht"
    by (auto simp: table_inv_def)
  obtain url verb where k: "k = (url, verb)" by (cases k)
  obtain rc ht' v' where "add_route bs (Live ht) e verb url v = Inr (rc, Live ht', v')"
    and p: "route_post ht e verb url v rc ht' v'"
    using add_route_step [OF ok] by blast
  then have r: "route_entry bs t k e v = Inr (rc, Live ht', v')"
    by (simp add: route_entry_def t k)
  show "\<exists>rc t' v'. route_entry bs t k e v = Inr (rc, t', v')" using r by blast
  fix rc1 :: int and t1 v1
  { assume "route_entry bs t k e v = Inr (rc1, t1, v1)"
    then show "table_inv bs t1" using r p ok by (auto simp: table_inv_def route_post_def) }
  { assume "route_entry bs t k e v = Inr (0, t1, v1)"
    then show "routes t1 = first_wins (routes t) k e"
      using r p by (auto simp: t k route_post_def) }
  { assume "route_entry bs t k e v = Inr (rc1, t1, v1)" and "rc1 \<noteq> 0"
    then show "routes t1 = routes t" using r p by (auto simp: t route_post_def) }
qed

lemma routes_no_leak:
  assumes "bstr_ok bs"
  shows "table_ok ht \<Longrightarrow> register_all (route_entry bs) (Live ht) kas v = Inr (rcs, t', v') \<Longrightarrow>
    \<exists>ht'. t' = Live ht' \<and> table_ok ht' \<and> live v' - table_blocks ht' = live v - table_blocks ht \<and>
      pthreads v' = pthreads v"
proof (induction kas arbitrary: ht v rcs)
  case (Cons ka kas)
  obtain url verb e where ka: "ka = ((url, verb), e)" by (cases ka) auto
  obtain rc ht1 v1 where r: "add_route bs (Live ht) e verb url v = Inr (rc, Live ht1, v1)"
    and p: "route_post ht e verb url v rc ht1 v1"
    using add_route_step [OF assms Cons.prems(1)] by blast
  then have "route_entry bs (Live ht) (url, verb) e v = Inr (rc, Live ht1, v1)"
    by (simp add: route_entry_def)
  with Cons.prems(2) obtain rcs1 where
    "register_all (route_entry bs) (Live ht1) kas v1 = Inr (rcs1, t', v')"
    by (auto simp: ka bindo_eq_Inr)
  with p Cons.IH [of ht1 v1 rcs1] show ?case by (auto simp: route_post_def)
qed auto

text \<open>Looking a route up in a table that is in order.\<close>

definition routes_ready :: "bstrlib \<Rightarrow> url_globals \<Rightarrow> bool" where
  "routes_ready bs g \<longleftrightarrow> table_inv bs (urls g) \<and> \<not> urls_lock g"

lemma to_endpoint_ok:
  assumes "routes_ready bs g" and v: "calm v \<or> \<not> pthreads v"
  shows "fra_p_url_to_endpoint bs verb url g v =
    Inr (case routes (urls g) (url, verb) of None \<Rightarrow> 0 | Some e \<Rightarrow> e, g, v)"
proof -
  obtain ht where t: "urls g = Live ht" and ok: "bstr_ok bs" "ht_ok ht" and m: "\<not> urls_lock g"
    using assms(1) by (auto simp: routes_ready_def table_inv_def table_ok_def)
  obtain p where get: "fra_p_ht_get bs (Live ht) url (length url) = Inr p" and p: "points_at ht url p"
    using ht_get_ok [OF ok, of "length url" url] by auto
  have g: "g\<lparr>urls_lock := False\<rparr> = g" using m by simp
  have r: "routes (urls g) (url, verb) = verb_endpoint (map_option (ht_value ht) p) verb"
    by (simp add: routes_def t ht_contents_def points_at_value [OF p])
  have "fra_p_lock v False = Inr (0, v, pthreads v)" and "fra_p_unlock v (pthreads v) = Inr (0, v, False)"
    using v by (auto simp: fra_p_lock_calm fra_p_unlock_calm)
  then show ?thesis
    using m get find_verb_endpoint [OF ok(1)]
    by (cases p)
      (simp_all add: fra_p_url_to_endpoint_def t r [unfolded t] g Let_def split: option.splits)
qed

text \<open>\<open>fra_end_url_add\<close> is \<open>add_route\<close> under the lock.\<close>

lemma url_add_ok:
  assumes "routes_ready bs g" and "calm v" and "length url < FRA_CORE_MAX_ENDPOINT_LENGTH"
  shows "\<exists>t' v'. fra_end_url_add bs e verb url g v = Inr (0, g\<lparr>urls := t'\<rparr>, v') \<and>
    route_entry bs (urls g) (url, verb) e v = Inr (0, t', v') \<and> calm v' \<and> 
    routes_ready bs (g\<lparr>urls := t'\<rparr>)"
proof -
  obtain ht where t: "urls g = Live ht" and ok: "bstr_ok bs" "table_ok ht" and m: "\<not> urls_lock g"
    using assms(1) by (auto simp: routes_ready_def table_inv_def)
  obtain rc ht' v' where r: "add_route bs (Live ht) e verb url v = Inr (rc, Live ht', v')"
    and p: "route_post ht e verb url v rc ht' v'" and c: "rc = 0" "calm v'"
    using add_route_step [OF ok, of e verb url v] assms(2,3) by blast
  have "pthreads v' = pthreads v" using p by (simp add: route_post_def)
  then show ?thesis
    using r c m ok p fra_p_unlock_calm [OF c(2)]
    by (auto simp: fra_end_url_add_def fra_p_lock_calm [OF assms(2)] t route_entry_def
        routes_ready_def table_inv_def route_post_def)
qed

text \<open>Without pthreads it is \<open>add_route\<close> and nothing else, whatever fails.\<close>

definition url_entry ::
  "bstrlib \<Rightarrow> url_globals \<Rightarrow> string \<times> string \<Rightarrow> addr \<Rightarrow> env \<Rightarrow> (int \<times> url_globals \<times> env) outcome" where
  "url_entry bs g = (\<lambda>(url, verb) e v. fra_end_url_add bs e verb url g v)"

lemma url_entries_single:
  assumes "bstr_ok bs"
  shows "table_inv bs (urls g) \<Longrightarrow> \<not> pthreads v \<Longrightarrow>
    register_all (url_entry bs) g kas v =
      bindo (register_all (route_entry bs) (urls g) kas v) (\<lambda>(rcs, t, v). Inr (rcs, g\<lparr>urls := t\<rparr>, v))"
proof (induction kas arbitrary: g v)
  case (Cons ka kas)
  obtain url verb e where ka: "ka = ((url, verb), e)" by (cases ka) auto
  obtain ht where t: "urls g = Live ht" and ok: "table_ok ht"
    using Cons.prems(1) by (auto simp: table_inv_def)
  obtain rc ht1 v1 where r: "add_route bs (Live ht) e verb url v = Inr (rc, Live ht1, v1)"
    and p: "route_post ht e verb url v rc ht1 v1"
    using add_route_step [OF assms ok] by blast
  have v1: "\<not> pthreads v1" and ok1: "table_inv bs (Live ht1)" and rc: "rc = 0 \<or> rc = - 1"
    using p Cons.prems(2) assms by (auto simp: route_post_def table_inv_def)
  have "url_entry bs g (url, verb) e v = Inr (rc, g\<lparr>urls := Live ht1\<rparr>, v1)"
    using rc v1 Cons.prems(2) by (auto simp: url_entry_def fra_end_url_add_def t r)
  moreover have "route_entry bs (urls g) (url, verb) e v = Inr (rc, Live ht1, v1)"
    by (simp add: route_entry_def r t)
  ultimately show ?case
    using Cons.IH [of "g\<lparr>urls := Live ht1\<rparr>", OF _ v1] ok1
    by (cases "register_all (route_entry bs) (Live ht1) kas v1") (auto simp: ka)
qed simp

lemma url_init_ok:
  assumes "\<not> pthreads v" and "fra_p_url_init g v = (0, g0, v0)"
  obtains ht where "g0 = g\<lparr>urls := Live ht\<rparr>" and "table_ok ht" and "routes (Live ht) = Map.empty"
    and "live v0 = live v + table_blocks ht" and "\<not> pthreads v0"
proof -
  from assms obtain t where new: "fra_p_url_ht_get v = (t, v0)" and g0: "g0 = g\<lparr>urls := t\<rparr>" and "t \<noteq> Null"
    by (auto simp: fra_p_url_init_def fra_p_url_ht_get_def Let_def split: prod.splits if_splits)
  then obtain ht where t: "t = Live ht"
    by (auto simp: fra_p_url_ht_get_def fra_p_ht_new_def split: prod.splits if_splits)
  have "pthreads v0 = pthreads v"
    using new by (auto simp: fra_p_url_ht_get_def fra_p_ht_new_def split: prod.splits if_splits
        dest!: take_block_live)
  with table_new [OF new [unfolded t]] g0 t assms(1) that show ?thesis by blast
qed

section \<open>Properties\<close>

text \<open>C14: routing is right. Without pthreads, after \<open>fra_p_url_init\<close> and any sequence of
  \<open>fra_end_url_add\<close> calls, of which some may fail, \<open>fra_p_url_to_endpoint\<close> returns for
  every verb and url the endpoint of the first call for them that returned 0, or \<open>NULL\<close>
  when there is none, and changes nothing.\<close>

theorem url_routing:
  assumes "bstr_ok bs" and "\<not> pthreads v" and "\<not> urls_lock g"
    and "fra_p_url_init g v = (0, g0, v0)"
  shows "\<exists>rcs g1 v1. register_all (url_entry bs) g0 kas v0 = Inr (rcs, g1, v1) \<and>
    fra_p_url_to_endpoint bs verb url g1 v1 =
      Inr (case map_of (accepted (\<lambda>e. e) rcs kas) (url, verb) of None \<Rightarrow> 0 | Some e \<Rightarrow> e, g1, v1)"
proof -
  obtain ht where g0: "g0 = g\<lparr>urls := Live ht\<rparr>" and ok: "table_ok ht"
    and r0: "routes (Live ht) = Map.empty" and v0: "\<not> pthreads v0"
    using url_init_ok [OF assms(2,4)] by blast
  have inv: "table_inv bs (Live ht)" using ok assms(1) by (simp add: table_inv_def)
  obtain rcs t1 v1 where run: "register_all (route_entry bs) (Live ht) kas v0 = Inr (rcs, t1, v1)"
    using route.register_all_returns [OF inv] by blast
  have "register_all (url_entry bs) g0 kas v0 = Inr (rcs, g\<lparr>urls := t1\<rparr>, v1)"
    using url_entries_single [OF assms(1), of g0 v0 kas] inv v0 run by (simp add: g0)
  moreover have "routes t1 = map_of (accepted (\<lambda>e. e) rcs kas)"
    using route.register_all_contents [OF inv run] r0 by simp
  moreover have "routes_ready bs (g\<lparr>urls := t1\<rparr>)"
    using route.register_all_inv [OF inv run] assms(3) by (simp add: routes_ready_def)
  moreover have "\<not> pthreads v1" using routes_no_leak [OF assms(1) ok run] v0 by auto
  ultimately show ?thesis using to_endpoint_ok by fastforce
qed

text \<open>The routes leak nothing. Without pthreads, init, any sequence of
  \<open>fra_end_url_add\<close> calls with failing allocations in between, and \<open>fra_p_url_deinit\<close>
  leave exactly the blocks live that were live before.\<close>

theorem url_no_leak:
  assumes "bstr_ok bs" and "\<not> pthreads v" and "fra_p_url_init g v = (0, g0, v0)"
  shows "\<exists>rcs g1 v1 g2 v2. register_all (url_entry bs) g0 kas v0 = Inr (rcs, g1, v1) \<and>
    fra_p_url_deinit g1 v1 = Inr (g2, v2) \<and> live v2 = live v \<and> urls g2 = Null"
proof -
  obtain ht where g0: "g0 = g\<lparr>urls := Live ht\<rparr>" and ok: "table_ok ht"
    and l0: "live v0 = live v + table_blocks ht" and v0: "\<not> pthreads v0"
    using url_init_ok [OF assms(2,3)] by blast
  have inv: "table_inv bs (Live ht)" using ok assms(1) by (simp add: table_inv_def)
  obtain rcs t1 v1 where run: "register_all (route_entry bs) (Live ht) kas v0 = Inr (rcs, t1, v1)"
    using route.register_all_returns [OF inv] by blast
  then obtain ht1 where t1: "t1 = Live ht1" and ok1: "table_ok ht1"
      and l1: "live v1 = live v + table_blocks ht1" and v1: "\<not> pthreads v1"
    using routes_no_leak [OF assms(1) ok run] l0 v0 by auto
  obtain v2 where f: "fra_p_ht_free (Live ht1) v1 = Inr v2" and l2: "live v2 = live v"
    using ht_free_live [of ht1 url_blocks v1] ok1 l1
    by (auto simp: table_ok_def destroy_url_live table_blocks_def)
  have "pthreads v2 = pthreads v1"
    using ht_free_frame [where f = pthreads, OF _ _ f] ok1
    by (auto simp: table_ok_def destroy_url_def destroy_chain_pthreads)
  then have "fra_p_url_deinit (g\<lparr>urls := t1\<rparr>) v1 = Inr (g\<lparr>urls := Null\<rparr>, v2)"
    using v1 f by (simp add: fra_p_url_deinit_def t1)
  moreover have "register_all (url_entry bs) g0 kas v0 = Inr (rcs, g\<lparr>urls := t1\<rparr>, v1)"
    using url_entries_single [OF assms(1), of g0 v0 kas] inv v0 run by (simp add: g0)
  ultimately show ?thesis using l2 by fastforce
qed

text \<open>The length limit. When no call fails, \<open>fra_end_url_add\<close> returns 0 for urls of
  at most 511 characters and -1 for longer ones, which leave the routes as they were; either way
  the lock is free again.\<close>

theorem url_length_limit:
  assumes "routes_ready bs g" and "calm v"
  shows "\<exists>rc g' v'. fra_end_url_add bs e verb url g v = Inr (rc, g', v') \<and> \<not> urls_lock g' \<and>
    (if length url \<le> 511 then rc = 0 \<and> routes (urls g') = first_wins (routes (urls g)) (url, verb) e
     else rc = - 1 \<and> routes (urls g') = routes (urls g))"
proof (cases "length url < FRA_CORE_MAX_ENDPOINT_LENGTH")
  case True
  then obtain t' v' where "fra_end_url_add bs e verb url g v = Inr (0, g\<lparr>urls := t'\<rparr>, v')"
    and r: "route_entry bs (urls g) (url, verb) e v = Inr (0, t', v')"
    using url_add_ok [OF assms True] by blast
  moreover have "routes t' = first_wins (routes (urls g)) (url, verb) e"
    using route.reg_ok [OF _ r] assms(1) by (simp add: routes_ready_def)
  ultimately show ?thesis
    using assms(1) True by (simp add: routes_ready_def FRA_CORE_MAX_ENDPOINT_LENGTH_def)
next
  case False
  obtain ht where t: "urls g = Live ht" and ok: "bstr_ok bs" "table_ok ht" and m: "\<not> urls_lock g"
    using assms(1) by (auto simp: routes_ready_def table_inv_def)
  obtain rc ht' v' where r: "add_route bs (Live ht) e verb url v = Inr (rc, Live ht', v')"
    and p: "route_post ht e verb url v rc ht' v'"
    using add_route_step [OF ok] by blast
  have "rc = - 1" and "calm v'"
    using r p False assms(2) ok(1)
    by (auto simp: route_post_def add_route_def bfromcstr_calm)
  moreover have "pthreads v' = pthreads v" using p by (simp add: route_post_def)
  ultimately show ?thesis
    using r p m t False fra_p_unlock_calm [of v']
    by (auto simp: fra_end_url_add_def fra_p_lock_calm [OF assms(2)] route_post_def
        FRA_CORE_MAX_ENDPOINT_LENGTH_def)
qed

text \<open>With pthreads, \<open>fra_p_url_init\<close> returns -1 and makes no table exactly because
  \<open>pthread_mutex_init\<close> succeeded: its result 0 is tested as if it were false on failure.\<close>

theorem url_init_rejects_success:
  assumes "pthreads v" and "calm v"
  shows "fra_p_url_init g v = (- 1, g, v)"
  using assms by (simp add: fra_p_url_init_def draw_calm)

section \<open>Witnesses\<close>

definition no_urls :: url_globals where
  "no_urls = \<lparr>urls = Null, urls_lock = False\<rparr>"

definition url_table0 :: "(url, string \<times> addr) ht" where
  "url_table0 = projr (deref (fst (fra_p_url_ht_get quiet_env)))"

lemma init_no_urls:
  "fra_p_url_init no_urls quiet_env = (0, no_urls\<lparr>urls := Live url_table0\<rparr>, quiet_env\<lparr>live := 2\<rparr>)"
  by (simp add: url_table0_def fra_p_url_init_def fra_p_url_ht_get_def fra_p_ht_new_def quiet_env_def
      take_block_def draw_def)

lemma no_urls_ready: "routes_ready plain_bstr (no_urls\<lparr>urls := Live url_table0\<rparr>)"
proof -
  have "\<not> pthreads quiet_env" by (simp add: quiet_env_def)
  from url_init_ok [OF this init_no_urls] show ?thesis
    by (auto simp: routes_ready_def table_inv_def no_urls_def)
qed

theorem url_routing_witness:
  "\<exists>rcs g1 v1. register_all (url_entry plain_bstr) (no_urls\<lparr>urls := Live url_table0\<rparr>)
       [((''/a'', ''GET''), 1), ((''/a'', ''PUT''), 2)] (quiet_env\<lparr>live := 2\<rparr>) = Inr (rcs, g1, v1) \<and>
     fra_p_url_to_endpoint plain_bstr ''PUT'' ''/a'' g1 v1 =
       Inr (case map_of (accepted (\<lambda>e. e) rcs [((''/a'', ''GET''), 1), ((''/a'', ''PUT''), 2)])
              (''/a'', ''PUT'') of None \<Rightarrow> 0 | Some e \<Rightarrow> e, g1, v1)"
  by (rule url_routing [OF plain_bstr_ok _ _ init_no_urls]) (simp_all add: quiet_env_def no_urls_def)

theorem url_no_leak_witness:
  "\<exists>rcs g1 v1 g2 v2. register_all (url_entry plain_bstr) (no_urls\<lparr>urls := Live url_table0\<rparr>)
       [((''/a'', ''GET''), 1), ((''/a'', ''PUT''), 2)] (quiet_env\<lparr>live := 2\<rparr>) = Inr (rcs, g1, v1) \<and>
     fra_p_url_deinit g1 v1 = Inr (g2, v2) \<and> live v2 = live quiet_env \<and> urls g2 = Null"
  by (rule url_no_leak [OF plain_bstr_ok _ init_no_urls]) (simp add: quiet_env_def)

theorem url_length_limit_witness:
  "\<exists>g' v'. fra_end_url_add plain_bstr 7 ''GET'' (replicate 512 CHR ''a'')
     (no_urls\<lparr>urls := Live url_table0\<rparr>) quiet_env = Inr (- 1, g', v')"
  using url_length_limit [OF no_urls_ready, of quiet_env 7 "''GET''" "replicate 512 CHR ''a''"]
  by auto

theorem url_init_rejects_success_witness:
  "fst (fra_p_url_init no_urls (quiet_env\<lparr>pthreads := True\<rparr>)) = - 1"
  using url_init_rejects_success [of "quiet_env\<lparr>pthreads := True\<rparr>" no_urls]
  by (simp add: quiet_env_def calm_def)

end
