(* ===== verification/Hook.thy ===== *)
theory Hook
  imports Typed_Heap Cfloat
begin

text \<open>
  The hook tables of \<open>src/hook.c\<close> and \<open>src/hook.h\<close>: arrays of linked lists of callbacks,
  one list for each hook type, kept in the order of their priorities. Calling the hooks needs
  the whole state of the library, which callbacks may change; it is in theory \<open>Hook_Exec\<close>.
\<close>

section \<open>State and operations\<close>

definition FRA_GLOB_HOOK_COUNT :: int where "FRA_GLOB_HOOK_COUNT = 1"
definition FRA_HOOK_COUNT :: int where "FRA_HOOK_COUNT = 7"

record hook =
  h_next :: addr
  h_callback :: fnptr
  h_priority :: cfloat

type_synonym hook_array = "addr list ptr"

record hook_globals =
  hookmem :: "hook heap"
  glob_hooks :: hook_array
  req_hooks :: hook_array
  glob_hooks_lock :: mutex
  req_hooks_lock :: mutex

definition set_next :: "addr \<Rightarrow> addr \<Rightarrow> hook heap \<Rightarrow> hook heap outcome" where
  "set_next p q h = bindo (hget p h) (\<lambda>n. hput p (n\<lparr>h_next := q\<rparr>) h)"

text \<open>The loop of \<open>hook_reg\<close>; a list in the heap is shorter than the fuel \<open>brk h\<close>.\<close>

fun insert_after :: "nat \<Rightarrow> addr \<Rightarrow> addr \<Rightarrow> cfloat \<Rightarrow> hook heap \<Rightarrow> hook heap outcome" where
  "insert_after 0 cur new_hook prio h = Inl Out_of_fuel"
| "insert_after (Suc n) cur new_hook prio h =
     (if cur = 0 then Inr h
      else
        bindo (hget cur h) (\<lambda>c.
        bindo (if h_next c = 0 then Inr True
               else bindo (hget (h_next c) h) (\<lambda>d. Inr (prio < h_priority d))) (\<lambda>here.
          if here then
            bindo (set_next new_hook (h_next c) h) (\<lambda>h. set_next cur new_hook h)
          else insert_after n (h_next c) new_hook prio h)))"

definition hook_link ::
  "hook_array \<Rightarrow> int \<Rightarrow> addr \<Rightarrow> cfloat \<Rightarrow> hook heap \<Rightarrow> (hook_array \<times> hook heap) outcome" where
  "hook_link hooks type new_hook prio h =
     bindo (deref hooks) (\<lambda>a.
       if \<not> (0 \<le> type \<and> nat type < length a) then Inl (Undef Out_of_bounds)
       else
         let t = nat type; head = a ! t in
         if head = 0 then
           bindo (set_next new_hook 0 h) (\<lambda>h. Inr (Live (a[t := new_hook]), h))
         else
           bindo (hget head h) (\<lambda>c.
             if prio < h_priority c then
               bindo (set_next new_hook head h) (\<lambda>h. Inr (Live (a[t := new_hook]), h))
             else bindo (insert_after (brk h) head new_hook prio h) (\<lambda>h. Inr (Live a, h))))"

text \<open>\<open>if( lock ) fra_p_lock( lock, ... );\<close>\<close>

definition lock_opt :: "env \<Rightarrow> mutex option \<Rightarrow> (int \<times> env \<times> mutex option) outcome" where
  "lock_opt v lck = (case lck of None \<Rightarrow> Inr (0, v, None)
     | Some m \<Rightarrow> bindo (fra_p_lock v m) (\<lambda>(rc, v, m). Inr (rc, v, Some m)))"

definition unlock_opt :: "env \<Rightarrow> mutex option \<Rightarrow> (int \<times> env \<times> mutex option) outcome" where
  "unlock_opt v lck = (case lck of None \<Rightarrow> Inr (0, v, None)
     | Some m \<Rightarrow> bindo (fra_p_unlock v m) (\<lambda>(rc, v, m). Inr (rc, v, Some m)))"

definition hook_reg ::
  "mutex option \<Rightarrow> hook_array \<Rightarrow> int \<Rightarrow> fnptr \<Rightarrow> cfloat \<Rightarrow> int \<Rightarrow> hook heap \<Rightarrow> env \<Rightarrow>
   (int \<times> mutex option \<times> hook_array \<times> hook heap \<times> env) outcome" where
  "hook_reg lck hooks type callback prio type_max h v =
     (if \<not> type < type_max then Inr (- 1, lck, hooks, h, v)
      else if callback = 0 then Inr (- 1, lck, hooks, h, v)
      else
        let (ok, v) = draw v in
        if \<not> ok then Inr (- 1, lck, hooks, h, v)
        else
          let (new_hook, h) = hnew \<lparr>h_next = 0, h_callback = callback, h_priority = prio\<rparr> h in
          bindo (lock_opt v lck) (\<lambda>(rc, v, lck).
            if rc \<noteq> 0 then bindo (hfree new_hook h) (\<lambda>h. Inr (- 1, lck, hooks, h, v))
            else
              bindo (hook_link hooks type new_hook prio h) (\<lambda>(hooks, h).
              bindo (unlock_opt v lck) (\<lambda>(rc, v, lck).
                if rc \<noteq> 0 then Inr (- 1, lck, hooks, h, v) else Inr (0, lck, hooks, h, v)))))"

fun free_list :: "nat \<Rightarrow> addr \<Rightarrow> hook heap \<Rightarrow> hook heap outcome" where
  "free_list 0 cur h = Inl Out_of_fuel"
| "free_list (Suc n) cur h =
     (if cur = 0 then Inr h
      else bindo (hget cur h) (\<lambda>c. bindo (hfree cur h) (\<lambda>h. free_list n (h_next c) h)))"

fun free_lists :: "addr list \<Rightarrow> hook heap \<Rightarrow> hook heap outcome" where
  "free_lists [] h = Inr h"
| "free_lists (p # ps) h = bindo (free_list (brk h) p h) (\<lambda>h. free_lists ps h)"

definition fra_p_hook_free :: "hook_array \<Rightarrow> int \<Rightarrow> hook heap \<Rightarrow> hook heap outcome" where
  "fra_p_hook_free hooks type_count h =
     (if type_count \<le> 0 then Inr h
      else bindo (deref hooks) (\<lambda>a.
        if length a < nat type_count then Inl (Undef Out_of_bounds)
        else free_lists (take (nat type_count) a) h))"

definition calloc_hooks :: "int \<Rightarrow> env \<Rightarrow> hook_array \<times> env" where
  "calloc_hooks n v =
     (let (ok, v) = take_block v in (if ok then Live (replicate (nat n) 0) else Null, v))"

definition free_array :: "hook_array \<Rightarrow> env \<Rightarrow> env outcome" where
  "free_array hooks v = (case hooks of Null \<Rightarrow> Inr v | Live _ \<Rightarrow> Inr (drop_block v)
     | Freed \<Rightarrow> Inl (Undef Use_after_free))"

definition fra_p_hook_init :: "hook_globals \<Rightarrow> env \<Rightarrow> int \<times> hook_globals \<times> env" where
  "fra_p_hook_init g v =
     (let (a, v) = calloc_hooks FRA_GLOB_HOOK_COUNT v;
          g = g\<lparr>glob_hooks := a\<rparr>
      in if a = Null then (- 1, g, v)
         else
           let (a, v) = calloc_hooks FRA_HOOK_COUNT v;
               g = g\<lparr>req_hooks := a\<rparr>
           in if a = Null then (- 1, g, v) else (0, g, v))"

text \<open>The pointers to the arrays are not reset.\<close>

definition fra_p_hook_deinit :: "hook_globals \<Rightarrow> env \<Rightarrow> (hook_globals \<times> env) outcome" where
  "fra_p_hook_deinit g v =
     bindo (fra_p_hook_free (glob_hooks g) FRA_GLOB_HOOK_COUNT (hookmem g)) (\<lambda>h.
     bindo (fra_p_hook_free (req_hooks g) FRA_HOOK_COUNT h) (\<lambda>h.
     bindo (free_array (glob_hooks g) v) (\<lambda>v.
     bindo (free_array (req_hooks g) v) (\<lambda>v.
       Inr (g\<lparr>hookmem := h, glob_hooks := Freed, req_hooks := Freed\<rparr>, v)))))"

definition fra_glob_hook_reg ::
  "int \<Rightarrow> fnptr \<Rightarrow> cfloat \<Rightarrow> hook_globals \<Rightarrow> env \<Rightarrow> (int \<times> hook_globals \<times> env) outcome" where
  "fra_glob_hook_reg type callback prio g v =
     bindo (hook_reg (Some (glob_hooks_lock g)) (glob_hooks g) type callback prio
              FRA_GLOB_HOOK_COUNT (hookmem g) v) (\<lambda>(rc, lck, hooks, h, v).
       Inr (rc, g\<lparr>hookmem := h, glob_hooks := hooks, glob_hooks_lock := the lck\<rparr>, v))"

definition fra_req_hook_reg ::
  "int \<Rightarrow> fnptr \<Rightarrow> cfloat \<Rightarrow> hook_globals \<Rightarrow> env \<Rightarrow> (int \<times> hook_globals \<times> env) outcome" where
  "fra_req_hook_reg type callback prio g v =
     bindo (hook_reg (Some (req_hooks_lock g)) (req_hooks g) type callback prio
              FRA_HOOK_COUNT (hookmem g) v) (\<lambda>(rc, lck, hooks, h, v).
       Inr (rc, g\<lparr>hookmem := h, req_hooks := hooks, req_hooks_lock := the lck\<rparr>, v))"

section \<open>The tables as lists\<close>

interpretation hook: linked h_next "\<lambda>q n. n\<lparr>h_next := q\<rparr>" "\<lambda>n. (h_callback n, h_priority n)"
  by unfold_locales simp_all

text \<open>
  \<open>hook_table h a xss\<close>: the array \<open>a\<close> points to disjoint lists made of the objects at the
  addresses \<open>xss\<close>; \<open>hook_vals\<close> are the callbacks and priorities in them.
\<close>

definition hook_table :: "hook heap \<Rightarrow> addr list \<Rightarrow> addr list list \<Rightarrow> bool" where
  "hook_table h a xss \<longleftrightarrow> heap_ok h \<and> length xss = length a \<and>
     (\<forall>t < length a. chain h_next (cells h) (a ! t) (xss ! t)) \<and>
     (\<forall>s < length a. \<forall>t < length a. s \<noteq> t \<longrightarrow> set (xss ! s) \<inter> set (xss ! t) = {})"

definition hook_val :: "hook heap \<Rightarrow> addr \<Rightarrow> fnptr \<times> cfloat" where
  "hook_val h p = (case cells h p of None \<Rightarrow> (0, NaN) | Some n \<Rightarrow> (h_callback n, h_priority n))"

definition hook_vals :: "hook heap \<Rightarrow> addr list list \<Rightarrow> (fnptr \<times> cfloat) list list" where
  "hook_vals h xss = map (map (hook_val h)) xss"

text \<open>Behind all hooks of at most the same priority, by comparisons that NaNs fail.\<close>

fun insert_hook :: "fnptr \<times> cfloat \<Rightarrow> (fnptr \<times> cfloat) list \<Rightarrow> (fnptr \<times> cfloat) list" where
  "insert_hook x [] = [x]"
| "insert_hook x (y # ys) = (if snd x < snd y then x # y # ys else y # insert_hook x ys)"

text \<open>What relinking keeps: the objects, their callbacks and priorities.\<close>

definition relinked :: "hook heap \<Rightarrow> hook heap \<Rightarrow> addr set \<Rightarrow> bool" where
  "relinked h h' A \<longleftrightarrow> brk h' = brk h \<and> dom (cells h') = dom (cells h) \<and>
     (\<forall>a. hook_val h' a = hook_val h a) \<and> (\<forall>a. a \<notin> A \<longrightarrow> cells h' a = cells h a)"

lemma relinked_heap_ok: "relinked h h' A \<Longrightarrow> heap_ok h \<Longrightarrow> heap_ok h'"
  by (fastforce simp: relinked_def heap_ok_def)

lemma relinked_mono: "relinked h h' A \<Longrightarrow> A \<subseteq> B \<Longrightarrow> relinked h h' B"
  by (auto simp: relinked_def)

lemma relinked_trans: "relinked h h1 A \<Longrightarrow> relinked h1 h2 B \<Longrightarrow> relinked h h2 (A \<union> B)"
  by (auto simp: relinked_def)

lemma relinked_chain: "relinked h h' A \<Longrightarrow> set xs \<inter> A = {} \<Longrightarrow>
  chain h_next (cells h') p xs = chain h_next (cells h) p xs"
  by (rule chain_cong) (auto simp: relinked_def)

lemma relinked_map: "relinked h h' A \<Longrightarrow> map (hook_val h') xs = map (hook_val h) xs"
  by (auto simp: relinked_def)

lemma set_next_ok:
  assumes "p \<noteq> 0" and "cells h p = Some n"
  obtains h' where "set_next p q h = Inr h'" and "cells h' = (cells h)(p := Some (n\<lparr>h_next := q\<rparr>))"
    and "relinked h h' {p}"
  using assms that [of "h\<lparr>cells := (cells h)(p := Some (n\<lparr>h_next := q\<rparr>))\<rparr>"]
  by (auto simp: set_next_def hget_def hput_def relinked_def hook_val_def insert_absorb domI)

lemma insert_after_ok:
  "chain h_next (cells h) cur (y # ys) \<Longrightarrow> length ys < n \<Longrightarrow> new \<notin> set (y # ys) \<Longrightarrow> new \<noteq> 0 \<Longrightarrow>
   cells h new = Some nn \<Longrightarrow>
   \<exists>h' us vs. insert_after n cur new (h_priority nn) h = Inr h' \<and> ys = us @ vs \<and>
     chain h_next (cells h') cur (y # us @ new # vs) \<and> relinked h h' (insert new (set (y # us))) \<and>
     map (hook_val h) (us @ new # vs) = insert_hook (hook_val h new) (map (hook_val h) ys)"
proof (induction ys arbitrary: cur y n)
  case Nil
  then obtain n' c where n: "n = Suc n'" and cur: "cur = y" "y \<noteq> 0" and c: "cells h y = Some c" "h_next c = 0"
    by (cases n) (auto split: option.splits)
  obtain h1 where h1: "set_next new 0 h = Inr h1"
      "cells h1 = (cells h)(new := Some (nn\<lparr>h_next := 0\<rparr>))" and r1: "relinked h h1 {new}"
    using set_next_ok [OF Nil.prems(4,5)] by blast
  have "cells h1 y = Some c" using h1 c Nil.prems(3) by simp
  then obtain h2 where h2: "set_next y new h1 = Inr h2"
      "cells h2 = (cells h1)(y := Some (c\<lparr>h_next := new\<rparr>))" and r2: "relinked h1 h2 {y}"
    using set_next_ok [OF cur(2)] by blast
  have "insert_after n cur new (h_priority nn) h = Inr h2"
    by (simp add: n cur c h1 h2 hget_def)
  moreover have "chain h_next (cells h2) cur [y, new]"
    using cur Nil.prems(3,4) h1 h2 by simp
  ultimately show ?case
    using relinked_trans [OF r1 r2] by (intro exI [of _ h2] exI [of _ "[]"]) (auto simp: insert_commute)
next
  case (Cons z ys)
  then obtain n' c d where n: "n = Suc n'" and cur: "cur = y" "y \<noteq> 0" and c: "cells h y = Some c" "h_next c = z"
    and d: "z \<noteq> 0" "cells h z = Some d" and chn: "chain h_next (cells h) z (z # ys)"
    by (cases n) (auto split: option.splits)
  have hd: "h_priority nn = snd (hook_val h new)" "h_priority d = snd (hook_val h z)"
    using d Cons.prems(5) by (auto simp: hook_val_def)
  show ?case
  proof (cases "h_priority nn < h_priority d")
    case True
    obtain h1 where h1: "set_next new z h = Inr h1"
        "cells h1 = (cells h)(new := Some (nn\<lparr>h_next := z\<rparr>))" and r1: "relinked h h1 {new}"
      using set_next_ok [OF Cons.prems(4,5)] by blast
    have "cells h1 y = Some c" using h1 c Cons.prems(3) by simp
    then obtain h2 where h2: "set_next y new h1 = Inr h2"
        "cells h2 = (cells h1)(y := Some (c\<lparr>h_next := new\<rparr>))" and r2: "relinked h1 h2 {y}"
      using set_next_ok [OF cur(2)] by blast
    have "insert_after n cur new (h_priority nn) h = Inr h2"
      using True d by (simp add: n cur c h1 h2 hget_def)
    moreover have dist: "distinct (y # z # ys)" using Cons.prems(1) by (rule chain_distinct)
    then have "relinked h h2 {new, y}" using relinked_trans [OF r1 r2] by (simp add: insert_commute)
    moreover from this have "chain h_next (cells h2) z (z # ys) = chain h_next (cells h) z (z # ys)"
      using dist Cons.prems(3) by (intro relinked_chain) auto
    then have "chain h_next (cells h2) cur (y # new # z # ys)"
      using cur Cons.prems(3,4) h1 h2 chn by auto
    ultimately show ?thesis
      using True hd
      by (intro exI [of _ h2] exI [of _ "[]"] exI [of _ "z # ys"])
        (simp add: insert_commute del: chain.simps)
  next
    case False
    have "length ys < n'" and "new \<notin> set (z # ys)" using Cons.prems n by auto
    from Cons.IH [OF chn this Cons.prems(4,5)] obtain h' us vs where
      h': "insert_after n' z new (h_priority nn) h = Inr h'" and ys: "ys = us @ vs"
      and chn': "chain h_next (cells h') z (z # us @ new # vs)"
      and r: "relinked h h' (insert new (set (z # us)))"
      and vals: "map (hook_val h) (us @ new # vs) = insert_hook (hook_val h new) (map (hook_val h) ys)"
      by blast
    have "distinct (y # z # ys)" using Cons.prems(1) by (rule chain_distinct)
    then have "cells h' y = Some c" using r Cons.prems(3) ys c by (auto simp: relinked_def)
    then have "chain h_next (cells h') cur (y # (z # us) @ new # vs)" using chn' cur c by simp
    moreover have "insert_after n cur new (h_priority nn) h = Inr h'"
      using False d h' by (simp add: n cur c hget_def)
    ultimately show ?thesis
      using False hd ys vals relinked_mono [OF r, of "insert new (set (y # z # us))"]
      by (intro exI [of _ h'] exI [of _ "z # us"] exI [of _ vs]) auto
  qed
qed

section \<open>One registration\<close>

lemma hook_table_chain:
  "hook_table h a xss \<Longrightarrow> t < length a \<Longrightarrow> chain h_next (cells h) (a ! t) (xss ! t)"
  by (simp add: hook_table_def)

lemma hook_table_disjoint:
  "hook_table h a xss \<Longrightarrow> s < length a \<Longrightarrow> t < length a \<Longrightarrow> s \<noteq> t \<Longrightarrow> x \<in> set (xss ! s) \<Longrightarrow> x \<notin> set (xss ! t)"
  by (auto simp: hook_table_def)

lemma hook_table_fresh:
  assumes "hook_table h a xss" and "hnew nn h = (new, h1)" and "t < length a"
  shows "new \<notin> set (xss ! t)" and "chain h_next (cells h1) (a ! t) (xss ! t)"
proof -
  have "x < brk h" if "x \<in> set (xss ! t)" for x
    using that assms chain_bound [OF _ hook_table_chain [OF assms(1,3)]] by (auto simp: hook_table_def)
  then show "new \<notin> set (xss ! t)" using assms(2) by (auto simp: hnew_def)
  show "chain h_next (cells h1) (a ! t) (xss ! t)"
    using assms(1) by (intro chain_hnew [OF _ hook_table_chain assms(2)] assms) (simp add: hook_table_def)
qed

lemma hook_table_upd:
  assumes tab: "hook_table h a xss" and t: "t < length a" and xs: "xss ! t = us @ vs"
    and new: "hnew nn h = (new, h1)" and r: "relinked h1 h' (insert new (set (xss ! t)))"
    and chn: "chain h_next (cells h') p (us @ new # vs)"
  shows "hook_table h' (a[t := p]) (xss[t := us @ new # vs])"
proof -
  have ok: "heap_ok h1" and len: "length xss = length a"
    using tab heap_ok_hnew [OF _ new] by (auto simp: hook_table_def)
  note fresh = hook_table_fresh [OF tab new] and disj = hook_table_disjoint [OF tab]
  have "chain h_next (cells h') (a ! i) (xss ! i)" if i: "i < length a" "i \<noteq> t" for i
  proof -
    have "set (xss ! i) \<inter> insert new (set (xss ! t)) = {}"
      using fresh(1) [OF i(1)] disj [OF t i(1)] i(2) by auto
    from relinked_chain [OF r this] fresh(2) [OF i(1)] show ?thesis by simp
  qed
  moreover have "set (xss[t := us @ new # vs] ! i) \<inter> set (xss[t := us @ new # vs] ! j) = {}"
    if "i < length a" "j < length a" "i \<noteq> j" for i j
    using that fresh(1) [of i] fresh(1) [of j] disj [of i j] len t xs
    by (cases "i = t"; cases "j = t") auto
  ultimately show ?thesis
    using relinked_heap_ok [OF r ok] chn len t unfolding hook_table_def
    by (metis length_list_update nth_list_update_eq nth_list_update_neq)
qed

lemma hook_link_ok:
  assumes tab: "hook_table h a xss" and t: "t < length a" and new: "hnew nn h = (new, h1)"
  shows "\<exists>p h' us vs. hook_link (Live a) (int t) new (h_priority nn) h1 = Inr (Live (a[t := p]), h') \<and>
    xss ! t = us @ vs \<and> hook_table h' (a[t := p]) (xss[t := us @ new # vs]) \<and>
    relinked h1 h' (insert new (set (xss ! t))) \<and>
    map (hook_val h1) (us @ new # vs) = insert_hook (hook_val h1 new) (map (hook_val h1) (xss ! t))"
proof -
  note fresh = hook_table_fresh [OF tab new t]
  have ok1: "heap_ok h1" and len: "t < length xss" and brk: "brk h1 = Suc (brk h)"
    and live: "new \<noteq> 0" "cells h1 new = Some nn"
    using tab heap_ok_hnew [OF _ new] hnew_fresh [OF _ new] new t
    by (auto simp: hook_table_def hnew_def)
  have prio: "snd (hook_val h1 new) = h_priority nn" using live by (simp add: hook_val_def)
  show ?thesis
  proof (cases "xss ! t")
    case Nil
    then have head: "a ! t = 0" using fresh(2) by simp
    obtain h' where h': "set_next new 0 h1 = Inr h'" "cells h' = (cells h1)(new := Some (nn\<lparr>h_next := 0\<rparr>))"
        and r: "relinked h1 h' {new}"
      using set_next_ok [OF live] by blast
    have "hook_table h' (a[t := new]) (xss[t := [] @ new # []])"
      using Nil r h' live by (intro hook_table_upd [OF tab t _ new]) simp_all
    then show ?thesis
      using Nil t r h' by (intro exI [of _ new] exI [of _ h'] exI [of _ "[]"] exI [of _ "[]"])
        (simp add: hook_link_def head)
  next
    case (Cons y ys)
    then obtain c where head: "a ! t = y" "y \<noteq> 0" and c: "cells h1 y = Some c"
      using fresh(2) by (auto split: option.splits)
    then have y: "h_priority c = snd (hook_val h1 y)" by (simp add: hook_val_def)
    show ?thesis
    proof (cases "h_priority nn < h_priority c")
      case True
      obtain h' where h': "set_next new y h1 = Inr h'" "cells h' = (cells h1)(new := Some (nn\<lparr>h_next := y\<rparr>))"
          and r: "relinked h1 h' {new}"
        using set_next_ok [OF live] by blast
      then have r': "relinked h1 h' (insert new (set (xss ! t)))" by (auto intro: relinked_mono)
      have "chain h_next (cells h') y (y # ys)"
        using fresh head Cons relinked_chain [OF r, of "y # ys" y] by simp
      then have "chain h_next (cells h') new ([] @ new # y # ys)" using h' live by simp
      then have "hook_table h' (a[t := new]) (xss[t := [] @ new # y # ys])"
        using Cons by (intro hook_table_upd [OF tab t _ new r']) simp_all
      then show ?thesis
        using Cons t r' h' True head c prio y
        by (intro exI [of _ new] exI [of _ h'] exI [of _ "[]"] exI [of _ "y # ys"])
          (simp add: hook_link_def hget_def)
    next
      case False
      have "length ys < brk h1"
        using chain_length [OF ok1 fresh(2)] Cons by simp
      then obtain h' us vs where h': "insert_after (brk h1) y new (h_priority nn) h1 = Inr h'"
        and ys: "ys = us @ vs" and chn: "chain h_next (cells h') y (y # us @ new # vs)"
        and r: "relinked h1 h' (insert new (set (y # us)))"
        and vals: "map (hook_val h1) (us @ new # vs) =
          insert_hook (hook_val h1 new) (map (hook_val h1) ys)"
        using insert_after_ok [of h1 y y ys "brk h1" new nn] fresh live Cons head by auto
      have r': "relinked h1 h' (insert new (set (xss ! t)))"
        using r by (rule relinked_mono) (auto simp: Cons ys)
      have "hook_table h' (a[t := y]) (xss[t := (y # us) @ new # vs])"
        using chn by (intro hook_table_upd [OF tab t _ new r']) (simp_all add: Cons ys)
      moreover have "a[t := y] = a" using head by auto
      ultimately show ?thesis
        using Cons t r' h' False head c prio y ys vals
        by (intro exI [of _ y] exI [of _ h'] exI [of _ "y # us"] exI [of _ vs])
          (simp add: hook_link_def hget_def)
    qed
  qed
qed

text \<open>The addresses of a table, and what a change to it leaves alone.\<close>

definition hook_addrs :: "addr list list \<Rightarrow> addr set" where
  "hook_addrs xss = (\<Union>xs \<in> set xss. set xs)"

definition hook_frame :: "hook heap \<Rightarrow> addr set \<Rightarrow> hook heap \<Rightarrow> addr set \<Rightarrow> bool" where
  "hook_frame h X h' X' \<longleftrightarrow> X \<subseteq> X' \<and> (X' - X) \<inter> dom (cells h) = {} \<and>
     dom (cells h') = dom (cells h) \<union> X' \<and> (\<forall>x. x \<notin> X' \<longrightarrow> cells h' x = cells h x)"

lemma in_hook_addrs: "x \<in> hook_addrs xss \<longleftrightarrow> (\<exists>t < length xss. x \<in> set (xss ! t))"
  by (simp add: hook_addrs_def) (metis in_set_conv_nth)

lemma in_hook_addrs_update:
  "t < length xss \<Longrightarrow> set (xss ! t) \<subseteq> set ys \<Longrightarrow> hook_addrs (xss[t := ys]) = hook_addrs xss \<union> set ys"
  unfolding set_eq_iff Un_iff in_hook_addrs length_list_update
  by (metis nth_list_update_eq nth_list_update_neq subsetD)

lemma hook_addrs_live: "hook_table h a xss \<Longrightarrow> hook_addrs xss \<subseteq> dom (cells h)"
proof
  fix x assume tab: "hook_table h a xss" and "x \<in> hook_addrs xss"
  then obtain t where "t < length a" "x \<in> set (xss ! t)" by (auto simp: in_hook_addrs hook_table_def)
  with chain_live [OF hook_table_chain [OF tab]] show "x \<in> dom (cells h)" by blast
qed

lemma hook_frame_refl: "X \<subseteq> dom (cells h) \<Longrightarrow> hook_frame h X h X"
  by (auto simp: hook_frame_def)

lemma hook_frame_trans:
  "hook_frame h X h1 X1 \<Longrightarrow> hook_frame h1 X1 h2 X2 \<Longrightarrow> hook_frame h X h2 X2"
proof -
  assume a: "hook_frame h X h1 X1" and b: "hook_frame h1 X1 h2 X2"
  have same: "cells h2 x = cells h x" if "x \<notin> X2" for x
  proof -
    have "x \<notin> X1" using b that by (auto simp: hook_frame_def)
    then show ?thesis using a b that by (simp add: hook_frame_def)
  qed
  have keep: "x \<in> X" if "x \<in> X2" and "x \<in> dom (cells h)" for x
  proof -
    have "x \<in> dom (cells h1)" using a that(2) by (simp add: hook_frame_def)
    then have "x \<in> X1" using b that(1) by (auto simp: hook_frame_def simp del: domIff)
    then show ?thesis using a that(2) by (auto simp: hook_frame_def simp del: domIff)
  qed
  have "X \<subseteq> X2" using a b by (auto simp: hook_frame_def)
  moreover have "dom (cells h2) = dom (cells h) \<union> X2"
  proof -
    have "X1 \<subseteq> X2" "dom (cells h2) = (dom (cells h) \<union> X1) \<union> X2" using a b by (simp_all add: hook_frame_def)
    then show ?thesis by (simp add: Un_absorb1 Un_assoc)
  qed
  ultimately show ?thesis using keep same by (auto simp: hook_frame_def simp del: domIff)
qed

lemma hook_vals_same:
  "(\<And>x. x \<in> hook_addrs xss \<Longrightarrow> hook_val h' x = hook_val h x) \<Longrightarrow> hook_vals h' xss = hook_vals h xss"
  by (auto simp: hook_vals_def hook_addrs_def)

text \<open>Another table in the same heap is not touched.\<close>

lemma hook_frame_table:
  assumes "hook_frame h X h' X'" and "hook_table h a xss" and "hook_addrs xss \<inter> X = {}" and "heap_ok h'"
  shows "hook_table h' a xss" and "hook_vals h' xss = hook_vals h xss"
proof -
  have same: "cells h' x = cells h x" if "x \<in> hook_addrs xss" for x
  proof -
    have "x \<notin> X'" using that assms(1,3) hook_addrs_live [OF assms(2)] by (auto simp: hook_frame_def)
    then show ?thesis using assms(1) by (simp add: hook_frame_def)
  qed
  then have same': "cells h' x = cells h x" if "t < length xss" "x \<in> set (xss ! t)" for x t
    using that by (metis in_hook_addrs)
  have len: "length xss = length a" using assms(2) by (simp add: hook_table_def)
  have "chain h_next (cells h') (a ! t) (xss ! t)" if "t < length a" for t
    using hook_table_chain [OF assms(2) that] chain_cong [of "xss ! t" h_next "cells h'" "cells h"]
      same' that len by simp
  then show "hook_table h' a xss" using assms(2,4) by (simp add: hook_table_def)
  show "hook_vals h' xss = hook_vals h xss"
    using same by (intro hook_vals_same) (simp add: hook_val_def)
qed

lemma hook_vals_val: "t < length xss \<Longrightarrow> hook_vals h xss ! t = map (hook_val h) (xss ! t)"
  by (simp add: hook_vals_def)

lemma hook_reg_link:
  assumes tab: "hook_table h a xss" and t: "t < length a"
    and new: "hnew \<lparr>h_next = 0, h_callback = cb, h_priority = prio\<rparr> h = (new, h1)"
  obtains a' h' xss' where "hook_link (Live a) (int t) new prio h1 = Inr (Live a', h')"
    and "length a' = length a" and "hook_table h' a' xss'"
    and "hook_frame h (hook_addrs xss) h' (hook_addrs xss')"
    and "hook_vals h' xss' = (hook_vals h xss)[t := insert_hook (cb, prio) (hook_vals h xss ! t)]"
proof -
  let ?n = "\<lparr>h_next = 0, h_callback = cb, h_priority = prio\<rparr>"
  obtain p h' us vs where link: "hook_link (Live a) (int t) new prio h1 = Inr (Live (a[t := p]), h')"
    and xs: "xss ! t = us @ vs" and tab': "hook_table h' (a[t := p]) (xss[t := us @ new # vs])"
    and r: "relinked h1 h' (insert new (set (xss ! t)))"
    and vals: "map (hook_val h1) (us @ new # vs) = insert_hook (hook_val h1 new) (map (hook_val h1) (xss ! t))"
    using hook_link_ok [OF tab t new] by auto
  let ?xss' = "xss[t := us @ new # vs]"
  have len: "length xss = length a" using tab by (simp add: hook_table_def)
  have fresh: "new \<notin> hook_addrs xss"
    using hook_table_fresh(1) [OF tab new] len by (auto simp: in_hook_addrs)
  have old0: "set (xss ! t) \<subseteq> hook_addrs xss" using t len by (auto simp: in_hook_addrs)
  have addrs: "hook_addrs ?xss' = insert new (hook_addrs xss)"
    using in_hook_addrs_update [of t xss "us @ new # vs"] t len xs old0 by auto
  have unlive: "new \<notin> dom (cells h)" using tab hnew_fresh [OF _ new] by (auto simp: hook_table_def)
  have h1: "cells h1 = (cells h)(new := Some ?n)" using new by (auto simp: hnew_def)
  have "hook_frame h (hook_addrs xss) h' (hook_addrs ?xss')"
    using r h1 unlive hook_addrs_live [OF tab] old0 by (auto simp: hook_frame_def addrs relinked_def)
  moreover have old: "hook_val h' x = hook_val h x" if "x \<in> hook_addrs xss" for x
    using r h1 that fresh by (auto simp: relinked_def hook_val_def)
  have new': "hook_val h1 new = (cb, prio)" using h1 by (simp add: hook_val_def)
  have "hook_val h1 x = hook_val h x" if "x \<in> hook_addrs xss" for x
    using h1 that fresh by (auto simp: hook_val_def)
  then have "map (hook_val h1) (xss ! t) = hook_vals h xss ! t"
    using t len by (auto simp: hook_vals_def in_hook_addrs)
  then have "map (hook_val h') (us @ new # vs) = insert_hook (cb, prio) (hook_vals h xss ! t)"
    unfolding relinked_map [OF r, of "us @ new # vs"] vals new' by simp
  then have "hook_vals h' ?xss' = (hook_vals h' xss)[t := insert_hook (cb, prio) (hook_vals h xss ! t)]"
    by (simp add: hook_vals_def map_update)
  moreover have "hook_vals h' xss = hook_vals h xss" using old by (rule hook_vals_same)
  ultimately show ?thesis using that link tab' by simp
qed


text \<open>The lock of a table is free, and locking it works.\<close>

definition lock_ready :: "env \<Rightarrow> mutex option \<Rightarrow> bool" where
  "lock_ready v lck \<longleftrightarrow> lck = None \<or> \<not> pthreads v \<or> (calm v \<and> lck = Some False)"

lemma lock_opt_ready:
  assumes "lock_ready v lck"
  obtains lck' where "lock_opt v lck = Inr (0, v, lck')" and "unlock_opt v lck' = Inr (0, v, lck)"
  using assms
  by (cases lck) (auto simp: lock_ready_def lock_opt_def unlock_opt_def fra_p_lock_calm fra_p_unlock_calm)

definition hook_step ::
  "hook heap \<Rightarrow> addr list list \<Rightarrow> int \<Rightarrow> fnptr \<Rightarrow> cfloat \<Rightarrow> int \<Rightarrow> env \<Rightarrow> int \<Rightarrow> hook heap \<Rightarrow>
   addr list list \<Rightarrow> env \<Rightarrow> bool" where
  "hook_step h xss type cb prio type_max v rc h' xss' v' \<longleftrightarrow>
     hook_frame h (hook_addrs xss) h' (hook_addrs xss') \<and>
     live v' = live v \<and> pthreads v' = pthreads v \<and> (calm v \<longrightarrow> calm v') \<and>
     (rc = 0 \<and> type < type_max \<and> cb \<noteq> 0 \<and>
        hook_vals h' xss' = (hook_vals h xss)
          [nat type := insert_hook (cb, prio) (hook_vals h xss ! nat type)] \<or>
      rc = - 1 \<and> hook_vals h' xss' = hook_vals h xss) \<and>
     (calm v \<and> type < type_max \<and> cb \<noteq> 0 \<longrightarrow> rc = 0)"

lemma hook_reg_step:
  assumes tab: "hook_table h a xss" and "0 \<le> type" and max: "type_max = int (length a)"
    and "lock_ready v lck"
  shows "\<exists>rc a' xss' h' v'.
    hook_reg lck (Live a) type cb prio type_max h v = Inr (rc, lck, Live a', h', v') \<and>
    hook_table h' a' xss' \<and> length a' = length a \<and>
    hook_step h xss type cb prio type_max v rc h' xss' v'"
proof -
  obtain ok v1 where d: "draw v = (ok, v1)" by (cases "draw v")
  have v1: "live v1 = live v" "pthreads v1 = pthreads v" "calm v \<Longrightarrow> calm v1" "calm v \<Longrightarrow> ok"
    using draw_live [OF d] d draw_calm [of v] by auto
  show ?thesis
  proof (cases "type < type_max \<and> cb \<noteq> 0 \<and> ok")
    case False
    define v2 where "v2 = (if type < type_max \<and> cb \<noteq> 0 then v1 else v)"
    have "hook_reg lck (Live a) type cb prio type_max h v = Inr (- 1, lck, Live a, h, v2)"
      using False d by (auto simp: hook_reg_def v2_def)
    moreover have "live v2 = live v" "pthreads v2 = pthreads v" "calm v \<Longrightarrow> calm v2"
      using v1 by (simp_all add: v2_def)
    ultimately show ?thesis
      using tab hook_frame_refl [OF hook_addrs_live [OF tab]] v1(4) False
      unfolding hook_step_def by blast
  next
    case True
    obtain new h1 where new: "hnew \<lparr>h_next = 0, h_callback = cb, h_priority = prio\<rparr> h = (new, h1)"
      by (cases "hnew \<lparr>h_next = 0, h_callback = cb, h_priority = prio\<rparr> h")
    have t: "nat type < length a" using True max assms(2) by (simp add: nat_less_iff)
    obtain a' h' xss' where link: "hook_link (Live a) type new prio h1 = Inr (Live a', h')"
      and post: "length a' = length a" "hook_table h' a' xss'"
      "hook_frame h (hook_addrs xss) h' (hook_addrs xss')"
      "hook_vals h' xss' = (hook_vals h xss)[nat type := insert_hook (cb, prio) (hook_vals h xss ! nat type)]"
      using hook_reg_link [OF tab t new] assms(2) by auto
    have "lock_ready v1 lck" using assms(4) v1 by (auto simp: lock_ready_def)
    then obtain lck' where "lock_opt v1 lck = Inr (0, v1, lck')" "unlock_opt v1 lck' = Inr (0, v1, lck)"
      by (rule lock_opt_ready)
    with True d new link have
      "hook_reg lck (Live a) type cb prio type_max h v = Inr (0, lck, Live a', h', v1)"
      by (simp add: hook_reg_def)
    moreover have "hook_step h xss type cb prio type_max v 0 h' xss' v1"
      using v1 True post by (auto simp: hook_step_def)
    ultimately show ?thesis using post(1,2) by blast
  qed
qed

section \<open>Runs of registrations\<close>

datatype hook_call = Glob_call int fnptr cfloat | Req_call int fnptr cfloat

fun reg_call :: "hook_call \<Rightarrow> hook_globals \<Rightarrow> env \<Rightarrow> (int \<times> hook_globals \<times> env) outcome" where
  "reg_call (Glob_call t cb p) g v = fra_glob_hook_reg t cb p g v"
| "reg_call (Req_call t cb p) g v = fra_req_hook_reg t cb p g v"

fun reg_calls ::
  "hook_call list \<Rightarrow> hook_globals \<Rightarrow> env \<Rightarrow> (int list \<times> hook_globals \<times> env) outcome" where
  "reg_calls [] g v = Inr ([], g, v)"
| "reg_calls (c # cs) g v =
     bindo (reg_call c g v) (\<lambda>(rc, g, v).
     bindo (reg_calls cs g v) (\<lambda>(rcs, g, v). Inr (rc # rcs, g, v)))"

fun call_type :: "hook_call \<Rightarrow> int" where
  "call_type (Glob_call t cb p) = t"
| "call_type (Req_call t cb p) = t"

text \<open>The hooks for one type that registrations which returned 0 put in.\<close>

fun hook_for :: "bool \<Rightarrow> nat \<Rightarrow> int \<times> hook_call \<Rightarrow> (fnptr \<times> cfloat) list" where
  "hook_for is_glob t (rc, Glob_call ty cb p) = (if is_glob \<and> rc = 0 \<and> ty = int t then [(cb, p)] else [])"
| "hook_for is_glob t (rc, Req_call ty cb p) = (if \<not> is_glob \<and> rc = 0 \<and> ty = int t then [(cb, p)] else [])"

definition hooks_for :: "bool \<Rightarrow> nat \<Rightarrow> int list \<Rightarrow> hook_call list \<Rightarrow> (fnptr \<times> cfloat) list" where
  "hooks_for is_glob t rcs cs = concat (map (hook_for is_glob t) (zip rcs cs))"

text \<open>
  Both tables of the library, which share no object and make up all of the hook memory;
  \<open>gl\<close> and \<open>rl\<close> are their contents by type.
\<close>

definition hooks_rel ::
  "hook_globals \<Rightarrow> (nat \<Rightarrow> (fnptr \<times> cfloat) list) \<Rightarrow> (nat \<Rightarrow> (fnptr \<times> cfloat) list) \<Rightarrow> bool" where
  "hooks_rel g gl rl \<longleftrightarrow> (\<exists>ga ra gx rx.
     glob_hooks g = Live ga \<and> req_hooks g = Live ra \<and>
     int (length ga) = FRA_GLOB_HOOK_COUNT \<and> int (length ra) = FRA_HOOK_COUNT \<and>
     hook_table (hookmem g) ga gx \<and> hook_table (hookmem g) ra rx \<and>
     hook_addrs gx \<inter> hook_addrs rx = {} \<and> dom (cells (hookmem g)) = hook_addrs gx \<union> hook_addrs rx \<and>
     (\<forall>t < length ga. hook_vals (hookmem g) gx ! t = gl t) \<and>
     (\<forall>t < length ra. hook_vals (hookmem g) rx ! t = rl t))"

definition hook_locks_ready :: "hook_globals \<Rightarrow> env \<Rightarrow> bool" where
  "hook_locks_ready g v \<longleftrightarrow> \<not> pthreads v \<or> (calm v \<and> \<not> glob_hooks_lock g \<and> \<not> req_hooks_lock g)"

lemma hook_vals_length [simp]: "length (hook_vals h xss) = length xss"
  by (simp add: hook_vals_def)

lemma reg_call_step:
  assumes rel: "hooks_rel g gl rl" and rdy: "hook_locks_ready g v" and "0 \<le> call_type c"
  shows "\<exists>rc g' v'. reg_call c g v = Inr (rc, g', v') \<and>
    hooks_rel g' (\<lambda>t. fold insert_hook (hook_for True t (rc, c)) (gl t))
      (\<lambda>t. fold insert_hook (hook_for False t (rc, c)) (rl t)) \<and>
    hook_locks_ready g' v' \<and> live v' = live v"
proof -
  from rel obtain ga ra gx rx where a: "glob_hooks g = Live ga" "req_hooks g = Live ra"
    "int (length ga) = FRA_GLOB_HOOK_COUNT" "int (length ra) = FRA_HOOK_COUNT"
    and tg: "hook_table (hookmem g) ga gx" and tr: "hook_table (hookmem g) ra rx"
    and disj: "hook_addrs gx \<inter> hook_addrs rx = {}"
    and dom: "dom (cells (hookmem g)) = hook_addrs gx \<union> hook_addrs rx"
    and vals: "\<forall>t < length ga. hook_vals (hookmem g) gx ! t = gl t"
      "\<forall>t < length ra. hook_vals (hookmem g) rx ! t = rl t"
    unfolding hooks_rel_def by blast
  have rdy': "lock_ready v (Some (glob_hooks_lock g))" "lock_ready v (Some (req_hooks_lock g))"
    using rdy by (auto simp: hook_locks_ready_def lock_ready_def)
  show ?thesis
  proof (cases c)
    case (Glob_call ty cb p)
    then have ty: "0 \<le> ty" using assms(3) by simp
    obtain rc a' xss' h' v' where
      r: "hook_reg (Some (glob_hooks_lock g)) (Live ga) ty cb p FRA_GLOB_HOOK_COUNT (hookmem g) v =
          Inr (rc, Some (glob_hooks_lock g), Live a', h', v')"
      and t': "hook_table h' a' xss'" "length a' = length ga"
      and st: "hook_step (hookmem g) gx ty cb p FRA_GLOB_HOOK_COUNT v rc h' xss' v'"
      using hook_reg_step [OF tg ty a(3) [symmetric] rdy'(1), where cb = cb and prio = p] by blast
    have f: "hook_frame (hookmem g) (hook_addrs gx) h' (hook_addrs xss')"
      and v': "live v' = live v" "pthreads v' = pthreads v" "calm v \<Longrightarrow> calm v'"
      and rc: "rc = 0 \<and> ty < FRA_GLOB_HOOK_COUNT \<and> cb \<noteq> 0 \<and>
           hook_vals h' xss' = (hook_vals (hookmem g) gx)
             [nat ty := insert_hook (cb, p) (hook_vals (hookmem g) gx ! nat ty)] \<or>
         rc = - 1 \<and> hook_vals h' xss' = hook_vals (hookmem g) gx"
      using st by (auto simp: hook_step_def)
    have ok': "heap_ok h'" using t' by (simp add: hook_table_def)
    note tr' = hook_frame_table [OF f tr _ ok']
    have len: "length gx = length ga" using tg by (simp add: hook_table_def)
    have "hook_addrs xss' \<inter> hook_addrs rx = {}"
      using f disj hook_addrs_live [OF tr] by (fastforce simp: hook_frame_def)
    moreover have "dom (cells h') = hook_addrs xss' \<union> hook_addrs rx"
      using f dom by (auto simp: hook_frame_def)
    moreover have "hook_vals h' xss' ! t = fold insert_hook (hook_for True t (rc, c)) (gl t)"
      if "t < length ga" for t
      using rc vals(1) that len ty by (auto simp: Glob_call nth_list_update)
    ultimately have "hooks_rel (g\<lparr>hookmem := h', glob_hooks := Live a'\<rparr>)
        (\<lambda>t. fold insert_hook (hook_for True t (rc, c)) (gl t)) rl"
      unfolding hooks_rel_def
      using t' tr' disj a vals(2)
      by (intro exI [of _ a'] exI [of _ ra] exI [of _ xss'] exI [of _ rx]) (simp add: Int_commute)
    then show ?thesis
      using rdy v' by (auto simp: Glob_call fra_glob_hook_reg_def a r hook_locks_ready_def)
  next
    case (Req_call ty cb p)
    then have ty: "0 \<le> ty" using assms(3) by simp
    obtain rc a' xss' h' v' where
      r: "hook_reg (Some (req_hooks_lock g)) (Live ra) ty cb p FRA_HOOK_COUNT (hookmem g) v =
          Inr (rc, Some (req_hooks_lock g), Live a', h', v')"
      and t': "hook_table h' a' xss'" "length a' = length ra"
      and st: "hook_step (hookmem g) rx ty cb p FRA_HOOK_COUNT v rc h' xss' v'"
      using hook_reg_step [OF tr ty a(4) [symmetric] rdy'(2), where cb = cb and prio = p] by blast
    have f: "hook_frame (hookmem g) (hook_addrs rx) h' (hook_addrs xss')"
      and v': "live v' = live v" "pthreads v' = pthreads v" "calm v \<Longrightarrow> calm v'"
      and rc: "rc = 0 \<and> ty < FRA_HOOK_COUNT \<and> cb \<noteq> 0 \<and>
           hook_vals h' xss' = (hook_vals (hookmem g) rx)
             [nat ty := insert_hook (cb, p) (hook_vals (hookmem g) rx ! nat ty)] \<or>
         rc = - 1 \<and> hook_vals h' xss' = hook_vals (hookmem g) rx"
      using st by (auto simp: hook_step_def)
    have ok': "heap_ok h'" using t' by (simp add: hook_table_def)
    note tg' = hook_frame_table [OF f tg _ ok']
    have len: "length rx = length ra" using tr by (simp add: hook_table_def)
    have "hook_addrs gx \<inter> hook_addrs xss' = {}"
      using f disj hook_addrs_live [OF tg] by (fastforce simp: hook_frame_def)
    moreover have "dom (cells h') = hook_addrs gx \<union> hook_addrs xss'"
      using f dom by (auto simp: hook_frame_def)
    moreover have "hook_vals h' xss' ! t = fold insert_hook (hook_for False t (rc, c)) (rl t)"
      if "t < length ra" for t
      using rc vals(2) that len ty by (auto simp: Req_call nth_list_update)
    ultimately have "hooks_rel (g\<lparr>hookmem := h', req_hooks := Live a'\<rparr>) gl
        (\<lambda>t. fold insert_hook (hook_for False t (rc, c)) (rl t))"
      unfolding hooks_rel_def
      using t' tg' disj a vals(1)
      by (intro exI [of _ ga] exI [of _ a'] exI [of _ gx] exI [of _ xss']) simp
    then show ?thesis
      using rdy v' by (auto simp: Req_call fra_req_hook_reg_def a r hook_locks_ready_def)
  qed
qed

lemma reg_calls_ok:
  "hooks_rel g gl rl \<Longrightarrow> hook_locks_ready g v \<Longrightarrow> \<forall>c \<in> set cs. 0 \<le> call_type c \<Longrightarrow>
   \<exists>rcs g' v'. reg_calls cs g v = Inr (rcs, g', v') \<and>
    hooks_rel g' (\<lambda>t. fold insert_hook (hooks_for True t rcs cs) (gl t))
      (\<lambda>t. fold insert_hook (hooks_for False t rcs cs) (rl t)) \<and>
    hook_locks_ready g' v' \<and> live v' = live v"
proof (induction cs arbitrary: g gl rl v)
  case Nil
  then show ?case by (simp add: hooks_for_def)
next
  case (Cons c cs)
  obtain rc g1 v1 where r: "reg_call c g v = Inr (rc, g1, v1)"
    and rel: "hooks_rel g1 (\<lambda>t. fold insert_hook (hook_for True t (rc, c)) (gl t))
      (\<lambda>t. fold insert_hook (hook_for False t (rc, c)) (rl t))"
    and rdy: "hook_locks_ready g1 v1" "live v1 = live v"
    using reg_call_step [OF Cons.prems(1,2), of c] Cons.prems(3) by auto
  obtain rcs g' v' where rs: "reg_calls cs g1 v1 = Inr (rcs, g', v')"
    and rel': "hooks_rel g'
      (\<lambda>t. fold insert_hook (hooks_for True t rcs cs) (fold insert_hook (hook_for True t (rc, c)) (gl t)))
      (\<lambda>t. fold insert_hook (hooks_for False t rcs cs) (fold insert_hook (hook_for False t (rc, c)) (rl t)))"
    and rdy': "hook_locks_ready g' v'" "live v' = live v1"
    using Cons.IH [OF rel rdy(1)] Cons.prems(3) by auto
  have "hooks_for b t (rc # rcs) (c # cs) = hook_for b t (rc, c) @ hooks_for b t rcs cs" for b t
    by (simp add: hooks_for_def)
  then show ?case using r rs rel' rdy rdy' by (intro exI [of _ "rc # rcs"] exI [of _ g'] exI [of _ v']) simp
qed

section \<open>The order of the hooks\<close>

text \<open>
  \<open>l\<close> runs the registrations \<open>regs\<close> in the order of their priorities, those of the same
  priority in the order of registration. A NaN is nowhere in this order.
\<close>

definition hook_sorted :: "(fnptr \<times> cfloat) list \<Rightarrow> (fnptr \<times> cfloat) list \<Rightarrow> bool" where
  "hook_sorted regs l \<longleftrightarrow> mset l = mset regs \<and>
     sorted_wrt (\<lambda>x y. snd x \<le> snd y) (filter (\<lambda>x. snd x \<noteq> NaN) l) \<and>
     (\<forall>p. p \<noteq> NaN \<longrightarrow> filter (\<lambda>x. snd x = p) l = filter (\<lambda>x. snd x = p) regs)"

lemma insert_hook_mset: "mset (insert_hook x l) = add_mset x (mset l)"
  by (induction l) auto

lemma insert_hook_nan:
  "filter (\<lambda>x. snd x \<noteq> NaN) (insert_hook x l) =
     (if snd x = NaN then filter (\<lambda>x. snd x \<noteq> NaN) l else insert_hook x (filter (\<lambda>x. snd x \<noteq> NaN) l))"
  by (induction l) auto

lemma filter_non_nan: "p \<noteq> NaN \<Longrightarrow> filter (\<lambda>x. snd x = p) l =
  filter (\<lambda>x. snd x = p) (filter (\<lambda>x. snd x \<noteq> NaN) l)" for l :: "(fnptr \<times> cfloat) list"
  by (auto intro: filter_cong)

lemma insert_hook_set: "set (insert_hook x l) = insert x (set l)"
  by (induction l) auto

lemma insert_hook_sorted:
  "snd x \<noteq> NaN \<Longrightarrow> \<forall>y \<in> set l. snd y \<noteq> NaN \<Longrightarrow> sorted_wrt (\<lambda>x y. snd x \<le> snd y) l \<Longrightarrow>
   sorted_wrt (\<lambda>x y. snd x \<le> snd y) (insert_hook x l)"
  by (induction l)
    (auto simp: insert_hook_set cfloat_not_less intro: cfloat_less_imp_le cfloat_le_trans)

lemma insert_hook_filter:
  "snd x \<noteq> NaN \<Longrightarrow> sorted_wrt (\<lambda>x y. snd x \<le> snd y) l \<Longrightarrow>
   filter (\<lambda>y. snd y = p) (insert_hook x l) = filter (\<lambda>y. snd y = p) (l @ [x])"
proof (induction l)
  case (Cons y l)
  show ?case
  proof (cases "snd x < snd y")
    case True
    have "snd z \<noteq> snd x" if "z \<in> set (y # l)" for z
    proof -
      have "snd x < snd z" using that True Cons.prems(2) by (auto intro: cfloat_less_le_trans)
      then show ?thesis by auto
    qed
    then have "snd x = p \<Longrightarrow> filter (\<lambda>y. snd y = p) (y # l) = []" by (auto simp: filter_empty_conv)
    with True show ?thesis by (cases "snd x = p") auto
  next
    case False
    with Cons show ?thesis by simp
  qed
qed simp

lemma fold_insert_hook:
  "hook_sorted r0 l \<Longrightarrow> hook_sorted (r0 @ regs) (fold insert_hook regs l)"
proof (induction regs arbitrary: r0 l)
  case (Cons x regs)
  let ?nn = "filter (\<lambda>x. snd x \<noteq> NaN)"
  have l: "sorted_wrt (\<lambda>x y. snd x \<le> snd y) (?nn l)"
    using Cons.prems by (simp add: hook_sorted_def)
  then have "sorted_wrt (\<lambda>x y. snd x \<le> snd y) (?nn (insert_hook x l))"
    unfolding insert_hook_nan by (auto intro: insert_hook_sorted)
  moreover have "filter (\<lambda>x. snd x = p) (insert_hook x l) = filter (\<lambda>x. snd x = p) (l @ [x])"
    if p: "p \<noteq> NaN" for p
  proof (cases "snd x = NaN")
    case True
    with p show ?thesis
      using filter_non_nan [OF p, of "insert_hook x l"] filter_non_nan [OF p, of l]
      by (simp add: insert_hook_nan)
  next
    case False
    with p show ?thesis
      using filter_non_nan [OF p, of "insert_hook x l"] filter_non_nan [OF p, of l]
        insert_hook_filter [OF False l, of p]
      by (simp add: insert_hook_nan)
  qed
  ultimately have "hook_sorted (r0 @ [x]) (insert_hook x l)"
    using Cons.prems by (auto simp: hook_sorted_def insert_hook_mset)
  from Cons.IH [OF this] show ?case by simp
qed simp

section \<open>Freeing the hooks\<close>

lemma free_list_ok:
  "chain h_next (cells h) p xs \<Longrightarrow> length xs < n \<Longrightarrow>
   \<exists>h'. free_list n p h = Inr h' \<and> cells h' = (\<lambda>a. if a \<in> set xs then None else cells h a) \<and> brk h' = brk h"
proof (induction n arbitrary: p xs h)
  case (Suc n)
  show ?case
  proof (cases xs)
    case Nil
    with Suc.prems show ?thesis by (intro exI [of _ h]) simp
  next
    case (Cons x ys)
    then obtain c where p: "p = x" "x \<noteq> 0" and c: "cells h x = Some c" and ch: "chain h_next (cells h) (h_next c) ys"
      using Suc.prems(1) by (auto split: option.splits)
    have x: "x \<notin> set ys" using chain_distinct [OF Suc.prems(1)] Cons by simp
    let ?h = "h\<lparr>cells := (cells h)(x := None)\<rparr>"
    have "chain h_next (cells ?h) (h_next c) ys" using ch x by (simp add: chain_upd_other)
    from Suc.IH [OF this] Suc.prems(2) Cons obtain h' where "free_list n (h_next c) ?h = Inr h'"
      and "cells h' = (\<lambda>a. if a \<in> set ys then None else cells ?h a)" "brk h' = brk h"
      by auto
    then show ?thesis
      using p c Cons by (intro exI [of _ h']) (auto simp: hget_def hfree_def)
  qed
qed simp

lemma free_lists_ok:
  "length xss = length ps \<Longrightarrow> heap_ok h \<Longrightarrow> (\<forall>t < length ps. chain h_next (cells h) (ps ! t) (xss ! t)) \<Longrightarrow>
   (\<forall>s < length ps. \<forall>t < length ps. s \<noteq> t \<longrightarrow> set (xss ! s) \<inter> set (xss ! t) = {}) \<Longrightarrow>
   \<exists>h'. free_lists ps h = Inr h' \<and> heap_ok h' \<and>
     cells h' = (\<lambda>a. if a \<in> hook_addrs xss then None else cells h a)"
proof (induction ps arbitrary: xss h)
  case Nil
  then show ?case by (simp add: hook_addrs_def)
next
  case (Cons p ps)
  then obtain xs yss where xss: "xss = xs # yss" by (cases xss) auto
  have ch: "chain h_next (cells h) p xs" using Cons.prems(3) xss by force
  obtain h1 where h1: "free_list (brk h) p h = Inr h1"
    and c1: "cells h1 = (\<lambda>a. if a \<in> set xs then None else cells h a)" and b1: "brk h1 = brk h"
    using free_list_ok [OF ch chain_length [OF Cons.prems(2) ch]] by blast
  have ok1: "heap_ok h1" using Cons.prems(2) c1 b1 by (auto simp: heap_ok_def)
  have "chain h_next (cells h1) (ps ! t) (yss ! t)" if "t < length ps" for t
  proof -
    have "set xs \<inter> set (yss ! t) = {}" 
      using Cons.prems(4) [rule_format, of 0 "Suc t"] that by (simp add: xss)
    then have "chain h_next (cells h1) (ps ! t) (yss ! t) = chain h_next (cells h) (ps ! t) (yss ! t)"
      by (intro chain_cong) (auto simp: c1)
    with Cons.prems(3) [rule_format, of "Suc t"] that show ?thesis by (simp add: xss)
  qed
  moreover have "set (yss ! s) \<inter> set (yss ! t) = {}" if "s < length ps" "t < length ps" "s \<noteq> t" for s t
    using Cons.prems(4) [rule_format, of "Suc s" "Suc t"] that by (simp add: xss)
  ultimately obtain h' where "free_lists ps h1 = Inr h'" "heap_ok h'"
    "cells h' = (\<lambda>a. if a \<in> hook_addrs yss then None else cells h1 a)"
    using Cons.IH [of yss h1] ok1 Cons.prems(1) xss by auto
  then show ?case using h1 c1 by (intro exI [of _ h']) (auto simp: xss hook_addrs_def)
qed

lemma hook_free_ok:
  assumes "hook_table h a xss" and "n = int (length a)" and "0 < n"
  shows "\<exists>h'. fra_p_hook_free (Live a) n h = Inr h' \<and> heap_ok h' \<and>
     cells h' = (\<lambda>a. if a \<in> hook_addrs xss then None else cells h a)"
  using assms free_lists_ok [of xss a h] by (auto simp: fra_p_hook_free_def hook_table_def)


lemma hook_table_free:
  assumes tab: "hook_table h a xss" and disj: "X \<inter> hook_addrs xss = {}" and "heap_ok h'"
    and c: "cells h' = (\<lambda>x. if x \<in> X then None else cells h x)"
  shows "hook_table h' a xss"
proof -
  have "chain h_next (cells h') (a ! t) (xss ! t)" if t: "t < length a" for t
  proof -
    have "x \<notin> X" if "x \<in> set (xss ! t)" for x
      using disj that t tab in_hook_addrs [of x xss] by (auto simp: hook_table_def)
    then have "chain h_next (cells h') (a ! t) (xss ! t) = chain h_next (cells h) (a ! t) (xss ! t)"
      by (intro chain_cong) (auto simp: c)
    with hook_table_chain [OF tab t] show ?thesis by simp
  qed
  with tab assms(3) show ?thesis by (simp add: hook_table_def)
qed

section \<open>Properties\<close>

lemma hook_init_ok:
  assumes "fra_p_hook_init g v = (0, g0, v0)" and "hookmem g = heap_empty"
  shows "hooks_rel g0 (\<lambda>_. []) (\<lambda>_. [])" and "live v0 = live v + 2" and "pthreads v0 = pthreads v"
    and "calm v \<Longrightarrow> calm v0" and "glob_hooks_lock g0 = glob_hooks_lock g" and "req_hooks_lock g0 = req_hooks_lock g"
proof -
  obtain b1 v1 b2 v2 where t: "take_block v = (b1, v1)" "take_block v1 = (b2, v2)" by fastforce
  with assms(1) have b: "b1" "b2" and v: "v0 = v2"
    and g0: "g0 = g\<lparr>glob_hooks := Live (replicate (nat FRA_GLOB_HOOK_COUNT) 0),
      req_hooks := Live (replicate (nat FRA_HOOK_COUNT) 0)\<rparr>"
    by (auto simp: fra_p_hook_init_def calloc_hooks_def split: if_splits)
  have tab: "hook_table heap_empty (replicate n 0) (replicate n [])" for n
    by (simp add: hook_table_def)
  have addrs: "hook_addrs (replicate n []) = {}" for n by (auto simp: hook_addrs_def)
  show "hooks_rel g0 (\<lambda>_. []) (\<lambda>_. [])"
    unfolding hooks_rel_def g0
    by (rule exI [of _ "replicate (nat FRA_GLOB_HOOK_COUNT) 0"], rule exI [of _ "replicate (nat FRA_HOOK_COUNT) 0"],
        rule exI [of _ "replicate (nat FRA_GLOB_HOOK_COUNT) []"], rule exI [of _ "replicate (nat FRA_HOOK_COUNT) []"])
      (simp add: assms(2) tab addrs hook_vals_def, simp add: FRA_GLOB_HOOK_COUNT_def FRA_HOOK_COUNT_def heap_empty_def)
  show "live v0 = live v + 2" "pthreads v0 = pthreads v"
    using t b v by (auto dest!: take_block_live)
  show "calm v \<Longrightarrow> calm v0" using t v by (auto simp: take_block_calm)
  show "glob_hooks_lock g0 = glob_hooks_lock g" "req_hooks_lock g0 = req_hooks_lock g"
    by (simp_all add: g0)
qed


text \<open>C16: hooks run in the order of their priorities. After \<open>fra_p_hook_init\<close> and any
  sequence of \<open>fra_glob_hook_reg\<close> and \<open>fra_req_hook_reg\<close> calls, with allocations failing in
  between, the list of each hook type is made of exactly the hooks registered for it with return
  code 0, sorted by priority, hooks of equal priority in the order they were registered; a NaN
  priority does not disturb the order of the others.\<close>

theorem hook_order:
  assumes "fra_p_hook_init g v = (0, g0, v0)" and "hookmem g = heap_empty"
    and "\<not> glob_hooks_lock g" and "\<not> req_hooks_lock g" and "\<not> pthreads v \<or> calm v"
    and "\<forall>c \<in> set cs. 0 \<le> call_type c"
  shows "\<exists>rcs g1 v1 ga ra. reg_calls cs g0 v0 = Inr (rcs, g1, v1) \<and>
    glob_hooks g1 = Live ga \<and> req_hooks g1 = Live ra \<and>
    (\<forall>t < length ga. \<exists>xs. chain h_next (cells (hookmem g1)) (ga ! t) xs \<and>
       hook_sorted (hooks_for True t rcs cs) (map (hook_val (hookmem g1)) xs)) \<and>
    (\<forall>t < length ra. \<exists>xs. chain h_next (cells (hookmem g1)) (ra ! t) xs \<and>
       hook_sorted (hooks_for False t rcs cs) (map (hook_val (hookmem g1)) xs))"
proof -
  note i = hook_init_ok [OF assms(1,2)]
  have "hook_locks_ready g0 v0" using assms(3-5) i(3-6) by (auto simp: hook_locks_ready_def)
  from reg_calls_ok [OF i(1) this assms(6)] obtain rcs g1 v1 where
    r: "reg_calls cs g0 v0 = Inr (rcs, g1, v1)" and
    rel: "hooks_rel g1 (\<lambda>t. fold insert_hook (hooks_for True t rcs cs) [])
      (\<lambda>t. fold insert_hook (hooks_for False t rcs cs) [])" by blast
  have srt: "hook_sorted regs (fold insert_hook regs [])" for regs
    using fold_insert_hook [of "[]" "[]" regs] by (simp add: hook_sorted_def)
  have "\<exists>xs. chain h_next (cells h) (a ! t) xs \<and> hook_sorted (regs t) (map (hook_val h) xs)"
    if "hook_table h a xss" "\<forall>t < length a. hook_vals h xss ! t = fold insert_hook (regs t) []" "t < length a"
    for h a xss regs t
    using that hook_table_chain [OF that(1,3)] srt [of "regs t"]
    by (intro exI [of _ "xss ! t"]) (auto simp: hook_vals_def hook_table_def)
  note lists = this
  from rel obtain ga ra gx rx where a: "glob_hooks g1 = Live ga" "req_hooks g1 = Live ra"
    and t: "hook_table (hookmem g1) ga gx" "hook_table (hookmem g1) ra rx"
    and v: "\<forall>t < length ga. hook_vals (hookmem g1) gx ! t = fold insert_hook (hooks_for True t rcs cs) []"
      "\<forall>t < length ra. hook_vals (hookmem g1) rx ! t = fold insert_hook (hooks_for False t rcs cs) []"
    unfolding hooks_rel_def by blast
  show ?thesis
    using r a lists [OF t(1) v(1)] lists [OF t(2) v(2)]
    by (intro exI [of _ rcs] exI [of _ g1] exI [of _ v1] exI [of _ ga] exI [of _ ra]) simp
qed

text \<open>The hook tables give back everything: init, any registrations and
  \<open>fra_p_hook_deinit\<close> leave no hook allocated and as many other blocks as before.\<close>

theorem hook_no_leak:
  assumes "fra_p_hook_init g v = (0, g0, v0)" and "hookmem g = heap_empty"
    and "\<not> glob_hooks_lock g" and "\<not> req_hooks_lock g" and "\<not> pthreads v \<or> calm v"
    and "\<forall>c \<in> set cs. 0 \<le> call_type c"
  shows "\<exists>rcs g1 v1 g2 v2. reg_calls cs g0 v0 = Inr (rcs, g1, v1) \<and>
    fra_p_hook_deinit g1 v1 = Inr (g2, v2) \<and> live v2 = live v \<and> cells (hookmem g2) = (\<lambda>_. None)"
proof -
  note i = hook_init_ok [OF assms(1,2)]
  have "hook_locks_ready g0 v0" using assms(3-5) i(3-6) by (auto simp: hook_locks_ready_def)
  from reg_calls_ok [OF i(1) this assms(6)] obtain rcs g1 v1 gl rl where
    r: "reg_calls cs g0 v0 = Inr (rcs, g1, v1)" and rel: "hooks_rel g1 gl rl" and l: "live v1 = live v0"
    by blast
  from rel obtain ga ra gx rx where a: "glob_hooks g1 = Live ga" "req_hooks g1 = Live ra"
    "int (length ga) = FRA_GLOB_HOOK_COUNT" "int (length ra) = FRA_HOOK_COUNT"
    and tg: "hook_table (hookmem g1) ga gx" and tr: "hook_table (hookmem g1) ra rx"
    and disj: "hook_addrs gx \<inter> hook_addrs rx = {}"
    and dom: "dom (cells (hookmem g1)) = hook_addrs gx \<union> hook_addrs rx"
    unfolding hooks_rel_def by blast
  obtain h1 where h1: "fra_p_hook_free (Live ga) FRA_GLOB_HOOK_COUNT (hookmem g1) = Inr h1" "heap_ok h1"
    "cells h1 = (\<lambda>x. if x \<in> hook_addrs gx then None else cells (hookmem g1) x)"
    using hook_free_ok [OF tg a(3) [symmetric]] by (auto simp: FRA_GLOB_HOOK_COUNT_def)
  have "hook_table h1 ra rx" by (rule hook_table_free [OF tr disj h1(2,3)])
  from hook_free_ok [OF this a(4) [symmetric]] obtain h2 where h2:
    "fra_p_hook_free (Live ra) FRA_HOOK_COUNT h1 = Inr h2"
    "cells h2 = (\<lambda>x. if x \<in> hook_addrs rx then None else cells h1 x)"
    by (auto simp: FRA_HOOK_COUNT_def)
  have "cells h2 = (\<lambda>_. None)" using dom h1(3) h2(2) by (auto simp: fun_eq_iff)
  then show ?thesis
    using r a h1(1) h2(1) l i(2) by (simp add: fra_p_hook_deinit_def free_array_def)
qed

text \<open>The argument checks. A type that is too large and a \<open>NULL\<close> callback are rejected
  with -1 and nothing happens; but a negative type passes the check \<open>type < type_max\<close> and
  the call indexes the table out of its bounds.\<close>

theorem hook_reg_checks:
  "(FRA_HOOK_COUNT \<le> ty \<or> cb = 0 \<longrightarrow> fra_req_hook_reg ty cb p g v = Inr (- 1, g, v)) \<and>
   (ty < 0 \<and> cb \<noteq> 0 \<and> calm v \<and> \<not> req_hooks_lock g \<and> req_hooks g = Live a \<longrightarrow>
      fra_req_hook_reg ty cb p g v = Inl (Undef Out_of_bounds))"
  by (auto simp: fra_req_hook_reg_def hook_reg_def FRA_HOOK_COUNT_def draw_calm hnew_def lock_opt_def
      fra_p_lock_calm hook_link_def)


section \<open>Witnesses\<close>

definition no_hooks :: hook_globals where
  "no_hooks = \<lparr>hookmem = heap_empty, glob_hooks = Null, req_hooks = Null,
     glob_hooks_lock = False, req_hooks_lock = False\<rparr>"

definition hooks0 :: hook_globals where
  "hooks0 = no_hooks\<lparr>glob_hooks := Live [0], req_hooks := Live [0, 0, 0, 0, 0, 0, 0]\<rparr>"

lemma init_no_hooks: "fra_p_hook_init no_hooks quiet_env = (0, hooks0, quiet_env\<lparr>live := 2\<rparr>)"
  by (simp add: fra_p_hook_init_def calloc_hooks_def take_block_calm hooks0_def no_hooks_def
      FRA_GLOB_HOOK_COUNT_def FRA_HOOK_COUNT_def quiet_env_def take_block_def draw_def numeral_eq_Suc)

text \<open>Three hooks for the same type, the last one with a lower priority than the first two.\<close>

definition demo_calls :: "hook_call list" where
  "demo_calls = [Req_call 4 11 (Fin 10), Req_call 4 12 (Fin 10), Req_call 4 13 (Fin 5), Glob_call 0 14 (Fin 1)]"

theorem hook_order_witness:
  "\<exists>rcs g1 v1 ga ra. reg_calls demo_calls hooks0 (quiet_env\<lparr>live := 2\<rparr>) = Inr (rcs, g1, v1) \<and>
    glob_hooks g1 = Live ga \<and> req_hooks g1 = Live ra \<and>
    (\<forall>t < length ra. \<exists>xs. chain h_next (cells (hookmem g1)) (ra ! t) xs \<and>
       hook_sorted (hooks_for False t rcs demo_calls) (map (hook_val (hookmem g1)) xs))"
  using hook_order [OF init_no_hooks, of demo_calls]
  by (simp add: no_hooks_def demo_calls_def quiet_env_def) blast

theorem hook_no_leak_witness:
  "\<exists>rcs g1 v1 g2 v2. reg_calls demo_calls hooks0 (quiet_env\<lparr>live := 2\<rparr>) = Inr (rcs, g1, v1) \<and>
    fra_p_hook_deinit g1 v1 = Inr (g2, v2) \<and> live v2 = 0 \<and> cells (hookmem g2) = (\<lambda>_. None)"
  using hook_no_leak [OF init_no_hooks, of demo_calls]
  by (simp add: no_hooks_def demo_calls_def quiet_env_def)

theorem hook_reg_checks_witness:
  "fra_req_hook_reg 7 1 (Fin 1) hooks0 quiet_env = Inr (- 1, hooks0, quiet_env) \<and>
   fra_req_hook_reg (- 1) 1 (Fin 1) hooks0 quiet_env = Inl (Undef Out_of_bounds)"
  using hook_reg_checks [of 7 1 "Fin 1" hooks0 quiet_env "[]"]
    hook_reg_checks [of "- 1" 1 "Fin 1" hooks0 quiet_env "[0, 0, 0, 0, 0, 0, 0]"]
  by (simp add: FRA_HOOK_COUNT_def hooks0_def no_hooks_def)

end
