(* ===== verification/World.thy ===== *)
theory World
  imports Var Url Hook
begin

text \<open>
  The state of the running library: the structs of \<open>src/end.h\<close> and \<open>src/req.h\<close>, the static
  variables of all modules, what is still to come from outside (incoming requests, results of
  \<open>poll\<close>), a trace of what the library does to the outside, and the state of the program
  that uses the library, of any type \<open>'u\<close>. The callbacks of that program, the FastCGI and
  string libraries and the contents of fresh memory are collected in a record \<open>ctx\<close> which
  is a parameter of every operation that depends on them.
\<close>

section \<open>Structs\<close>

text \<open>
  \<open>s_bytes\<close> is the number of bytes allocated for the variables behind the struct, the
  memory that \<open>store\<close> points to.
\<close>

record end_store =
  s_next :: addr
  s_bytes :: nat

record fra_end =
  store_size :: u64
  end_map :: store_map
  store_empty :: addr
  store_empty_count :: int
  store_all_count :: int
  hooks :: hook_array
  end_lock :: mutex
  callback :: fnptr

text \<open>
  A \<open>struct tagbstring\<close> whose \<open>data\<close> points into a C string, given by the bytes from there to
  the terminator; \<open>bstr_content\<close> are the \<open>slen\<close> bytes that make up its value.
\<close>

record tagbstring =
  mlen :: int
  slen :: int
  data :: string

definition bstr_content :: "tagbstring \<Rightarrow> string" where
  "bstr_content t = take (nat (slen t)) (data t)"

text \<open>\<open>req_store\<close> is the number of bytes behind the struct, as for \<open>s_bytes\<close>;
  \<open>envp\<close> stands for the \<open>FCGX_Request\<close>, of which the library reads only this field.\<close>

record fra_req =
  fcgx_defined :: bool
  envp :: "string list"
  req_next :: addr
  req_store :: nat
  endpoint :: addr
  endpoint_store :: addr
  req_url :: tagbstring
  base_url :: tagbstring
  query_url :: tagbstring
  req_verb :: tagbstring

section \<open>Polling\<close>

type_synonym short = "16 word"

definition POLLIN :: short where "POLLIN = 1"

text \<open>\<open>revents\<close> is written only by \<open>poll\<close> itself, \<open>None\<close> until then.\<close>

record pollfd =
  fd :: int
  fd_events :: short
  revents :: "short option"

text \<open>\<open>cb_fn\<close> is the member of the union that was set last, \<open>cb_req\<close> is \<open>NULL\<close> for a
  global callback.\<close>

record fd_callback =
  cb_req :: addr
  cb_fn :: fnptr

text \<open>Arrays that are written by index and grown with \<open>realloc\<close>: their entries and the number
  of bytes allocated.\<close>

record 'a block =
  entries :: "nat \<Rightarrow> 'a option"
  bytes :: nat

record poll_globals =
  initialized :: bool
  main_poll :: "pollfd block ptr"
  main_poll_len :: int
  main_poll_max_len :: int
  callbacks :: "fd_callback block ptr"
  main_poll_lock :: mutex
  should_stop :: bool

section \<open>The world\<close>

text \<open>What the library does to the outside. The \<open>FCGX_Request\<close> of \<open>exit_request\<close> is a local
  variable, \<open>None\<close>; the others lie in a request.\<close>

datatype event =
    Called fnptr addr
  | Called_glob fnptr
  | Called_fd fnptr addr short
  | FCGX_InitRequest "addr option"
  | FCGX_Accept_r "addr option" int
  | FCGX_FPrintF "addr option" string
  | FCGX_Finish_r "addr option"

text \<open>\<open>accepts\<close> are the results of the calls of \<open>FCGX_Accept_r\<close> to come, each a return code and
  the environment of the request, and \<open>polls\<close> those of \<open>poll\<close>, each a return code and the
  \<open>revents\<close> by position; when they are used up the calls block.\<close>

record 'u world =
  w_env :: env
  w_vars :: var_globals
  w_urls :: url_globals
  w_hooks :: hook_globals
  reqs :: "fra_req heap"
  ends :: "fra_end heap"
  stores :: "end_store heap"
  empty_req :: addr
  empty_count :: int
  all_count :: int
  empty_req_lock :: mutex
  w_poll :: poll_globals
  accepts :: "(int \<times> string list) list"
  polls :: "(int \<times> (nat \<Rightarrow> short)) list"
  events :: "event list"
  user :: 'u

text \<open>
  \<open>call f r\<close> runs the callback \<open>f\<close> on the request \<open>r\<close>; it may use the library, so it may
  change everything. \<open>junk\<close> is what a fresh request contains, \<open>sizeof_req\<close> the size of
  \<open>struct fra_req\<close>, \<open>handle_new_fn\<close> the address of \<open>fra_p_req_handle_new\<close>, and \<open>fuel\<close> bounds
  the loops that callbacks could keep going for ever.
\<close>

record 'u ctx =
  bs :: bstrlib
  call :: "fnptr \<Rightarrow> addr \<Rightarrow> 'u world \<Rightarrow> (int \<times> 'u world) outcome"
  call_glob :: "fnptr \<Rightarrow> 'u world \<Rightarrow> (int \<times> 'u world) outcome"
  call_fd :: "fnptr \<Rightarrow> addr \<Rightarrow> short \<Rightarrow> 'u world \<Rightarrow> (int \<times> 'u world) outcome"
  get_param :: "string \<Rightarrow> string list \<Rightarrow> string option"
  junk :: "addr \<Rightarrow> fra_req"
  sizeof_req :: u64
  handle_new_fn :: fnptr
  fuel :: nat

type_synonym 'u op = "'u world \<Rightarrow> (int \<times> 'u world) outcome"

definition say :: "event \<Rightarrow> 'u world \<Rightarrow> 'u world" where
  "say e w = w\<lparr>events := events w @ [e]\<rparr>"

definition w_draw :: "'u world \<Rightarrow> bool \<times> 'u world" where
  "w_draw w = (let (ok, v) = draw (w_env w) in (ok, w\<lparr>w_env := v\<rparr>))"

definition upd_req :: "addr \<Rightarrow> (fra_req \<Rightarrow> fra_req) \<Rightarrow> 'u world \<Rightarrow> 'u world outcome" where
  "upd_req r f w = bindo (hupd r f (reqs w)) (\<lambda>h. Inr (w\<lparr>reqs := h\<rparr>))"

definition upd_end :: "addr \<Rightarrow> (fra_end \<Rightarrow> fra_end) \<Rightarrow> 'u world \<Rightarrow> 'u world outcome" where
  "upd_end e f w = bindo (hupd e f (ends w)) (\<lambda>h. Inr (w\<lparr>ends := h\<rparr>))"

definition upd_store :: "addr \<Rightarrow> (end_store \<Rightarrow> end_store) \<Rightarrow> 'u world \<Rightarrow> 'u world outcome" where
  "upd_store s f w = bindo (hupd s f (stores w)) (\<lambda>h. Inr (w\<lparr>stores := h\<rparr>))"

section \<open>Locks\<close>

datatype lock_ref = Glob_hooks_lock | Req_hooks_lock

definition lock_hooks :: "lock_ref option \<Rightarrow> 'u op" where
  "lock_hooks lck w = (case lck of None \<Rightarrow> Inr (0, w)
     | Some Glob_hooks_lock \<Rightarrow>
         bindo (fra_p_lock (w_env w) (glob_hooks_lock (w_hooks w))) (\<lambda>(rc, v, m).
           Inr (rc, w\<lparr>w_env := v, w_hooks := (w_hooks w)\<lparr>glob_hooks_lock := m\<rparr>\<rparr>))
     | Some Req_hooks_lock \<Rightarrow>
         bindo (fra_p_lock (w_env w) (req_hooks_lock (w_hooks w))) (\<lambda>(rc, v, m).
           Inr (rc, w\<lparr>w_env := v, w_hooks := (w_hooks w)\<lparr>req_hooks_lock := m\<rparr>\<rparr>)))"

definition unlock_hooks :: "lock_ref option \<Rightarrow> 'u op" where
  "unlock_hooks lck w = (case lck of None \<Rightarrow> Inr (0, w)
     | Some Glob_hooks_lock \<Rightarrow>
         bindo (fra_p_unlock (w_env w) (glob_hooks_lock (w_hooks w))) (\<lambda>(rc, v, m).
           Inr (rc, w\<lparr>w_env := v, w_hooks := (w_hooks w)\<lparr>glob_hooks_lock := m\<rparr>\<rparr>))
     | Some Req_hooks_lock \<Rightarrow>
         bindo (fra_p_unlock (w_env w) (req_hooks_lock (w_hooks w))) (\<lambda>(rc, v, m).
           Inr (rc, w\<lparr>w_env := v, w_hooks := (w_hooks w)\<lparr>req_hooks_lock := m\<rparr>\<rparr>)))"

definition lock_end :: "addr \<Rightarrow> 'u op" where
  "lock_end e w = bindo (hget e (ends w)) (\<lambda>n.
     bindo (fra_p_lock (w_env w) (end_lock n)) (\<lambda>(rc, v, m).
     bindo (upd_end e (end_lock_update (\<lambda>_. m)) (w\<lparr>w_env := v\<rparr>)) (\<lambda>w. Inr (rc, w))))"

definition unlock_end :: "addr \<Rightarrow> 'u op" where
  "unlock_end e w = bindo (hget e (ends w)) (\<lambda>n.
     bindo (fra_p_unlock (w_env w) (end_lock n)) (\<lambda>(rc, v, m).
     bindo (upd_end e (end_lock_update (\<lambda>_. m)) (w\<lparr>w_env := v\<rparr>)) (\<lambda>w. Inr (rc, w))))"

definition lock_empty_req :: "'u op" where
  "lock_empty_req w = bindo (fra_p_lock (w_env w) (empty_req_lock w)) (\<lambda>(rc, v, m).
     Inr (rc, w\<lparr>w_env := v, empty_req_lock := m\<rparr>))"

definition unlock_empty_req :: "'u op" where
  "unlock_empty_req w = bindo (fra_p_unlock (w_env w) (empty_req_lock w)) (\<lambda>(rc, v, m).
     Inr (rc, w\<lparr>w_env := v, empty_req_lock := m\<rparr>))"

end
