(* ===== verification/Hook_Exec.thy ===== *)
theory Hook_Exec
  imports World
begin

text \<open>
  Calling the hooks (\<open>hook_execute\<close> and its callers in \<open>src/hook.c\<close>). The list is walked in
  the heap, and the next object is read only after the callback has returned, because the
  callback may have registered or freed hooks.
\<close>

section \<open>Operations\<close>

text \<open>The hook types of \<open>include/fra/core.h\<close>.\<close>

definition FRA_REQ_INCOMING :: int where "FRA_REQ_INCOMING = 0"

definition FRA_REQ_CREATED :: int where "FRA_REQ_CREATED = 0"
definition FRA_END_STORE_CREATED :: int where "FRA_END_STORE_CREATED = 1"
definition FRA_REQ_BEFORE_FCGX :: int where "FRA_REQ_BEFORE_FCGX = 2"
definition FRA_REQ_BEFORE_ENDPOINT :: int where "FRA_REQ_BEFORE_ENDPOINT = 3"
definition FRA_REQ_NEW :: int where "FRA_REQ_NEW = 4"
definition FRA_REQ_FREE :: int where "FRA_REQ_FREE = 5"
definition FRA_END_STORE_FREE :: int where "FRA_END_STORE_FREE = 6"

text \<open>\<open>call( req )\<close>, or \<open>call()\<close> for a global hook.\<close>

definition call_hook :: "'u ctx \<Rightarrow> bool \<Rightarrow> fnptr \<Rightarrow> addr \<Rightarrow> 'u op" where
  "call_hook c put_req f req w =
     (if put_req then call c f req (say (Called f req) w)
      else call_glob c f (say (Called_glob f) w))"

fun hook_loop :: "'u ctx \<Rightarrow> nat \<Rightarrow> lock_ref option \<Rightarrow> bool \<Rightarrow> addr \<Rightarrow> addr \<Rightarrow> 'u op" where
  "hook_loop c 0 lck put_req req cur w = Inl Out_of_fuel"
| "hook_loop c (Suc n) lck put_req req cur w =
     (if cur = 0 then
        bindo (unlock_hooks lck w) (\<lambda>(rc, w). if rc \<noteq> 0 then Inr (- 1, w) else Inr (0, w))
      else
        bindo (hget cur (hookmem (w_hooks w))) (\<lambda>k.
          if h_callback k = 0 then bindo (unlock_hooks lck w) (\<lambda>(rc, w). Inr (- 1, w))
          else
            bindo (unlock_hooks lck w) (\<lambda>(rc, w).
              if rc \<noteq> 0 then Inr (- 1, w)
              else
                bindo (call_hook c put_req (h_callback k) req w) (\<lambda>(rc, w).
                  if rc \<noteq> 0 then Inr (- 1, w)
                  else
                    bindo (lock_hooks lck w) (\<lambda>(rc, w).
                      if rc \<noteq> 0 then Inr (- 1, w)
                      else
                        bindo (hget cur (hookmem (w_hooks w))) (\<lambda>k.
                          hook_loop c n lck put_req req (h_next k) w))))))"

definition hook_execute ::
  "'u ctx \<Rightarrow> lock_ref option \<Rightarrow> hook_array \<Rightarrow> int \<Rightarrow> int \<Rightarrow> bool \<Rightarrow> addr \<Rightarrow> 'u op" where
  "hook_execute c lck arr type type_max put_req req w =
     (if \<not> (type < type_max \<and> arr \<noteq> Null) then Inr (- 1, w)
      else
        bindo (lock_hooks lck w) (\<lambda>(rc, w).
          if rc \<noteq> 0 then Inr (- 1, w)
          else
            bindo (deref arr) (\<lambda>a.
              if \<not> (0 \<le> type \<and> nat type < length a) then Inl (Undef Out_of_bounds)
              else hook_loop c (fuel c) lck put_req req (a ! nat type) w)))"

definition fra_p_glob_hook_execute :: "'u ctx \<Rightarrow> int \<Rightarrow> 'u op" where
  "fra_p_glob_hook_execute c type w =
     hook_execute c (Some Glob_hooks_lock) (glob_hooks (w_hooks w)) type FRA_GLOB_HOOK_COUNT
       False 0 w"

definition fra_p_end_hook_execute :: "'u ctx \<Rightarrow> addr \<Rightarrow> int \<Rightarrow> 'u op" where
  "fra_p_end_hook_execute c req type w =
     (if req = 0 then Inr (- 1, w)
      else
        bindo (hget req (reqs w)) (\<lambda>r.
          if endpoint r = 0 then Inr (- 1, w)
          else
            bindo (hget (endpoint r) (ends w)) (\<lambda>e.
              hook_execute c None (hooks e) type FRA_HOOK_COUNT True req w)))"

definition fra_p_req_hook_execute :: "'u ctx \<Rightarrow> addr \<Rightarrow> int \<Rightarrow> 'u op" where
  "fra_p_req_hook_execute c req type w =
     bindo (if req = 0 then Inr False else bindo (hget req (reqs w)) (\<lambda>r. Inr (endpoint r \<noteq> 0)))
       (\<lambda>has_endpoint.
     bindo (if has_endpoint then fra_p_end_hook_execute c req type w else Inr (0, w)) (\<lambda>(rc, w).
       if rc \<noteq> 0 then Inr (- 1, w)
       else hook_execute c (Some Req_hooks_lock) (req_hooks (w_hooks w)) type FRA_HOOK_COUNT
              True req w))"

definition fra_end_hook_reg :: "addr \<Rightarrow> int \<Rightarrow> fnptr \<Rightarrow> cfloat \<Rightarrow> 'u op" where
  "fra_end_hook_reg e type cb prio w =
     bindo (hget e (ends w)) (\<lambda>n.
     bindo (hook_reg None (hooks n) type cb prio FRA_HOOK_COUNT (hookmem (w_hooks w)) (w_env w))
       (\<lambda>(rc, lck, arr, h, v).
         bindo (upd_end e (hooks_update (\<lambda>_. arr))
             (w\<lparr>w_env := v, w_hooks := (w_hooks w)\<lparr>hookmem := h\<rparr>\<rparr>)) (\<lambda>w. Inr (rc, w))))"

section \<open>Callbacks that leave the library alone\<close>

definition same_lib :: "'u world \<Rightarrow> 'u world \<Rightarrow> bool" where
  "same_lib w w' \<longleftrightarrow> (\<exists>u ev. w' = w\<lparr>events := ev, user := u\<rparr>)"

definition benign :: "'u ctx \<Rightarrow> bool" where
  "benign c \<longleftrightarrow>
     (\<forall>f r w. \<exists>rc u. call c f r w = Inr (rc, w\<lparr>user := u\<rparr>)) \<and>
     (\<forall>f w. \<exists>rc u. call_glob c f w = Inr (rc, w\<lparr>user := u\<rparr>)) \<and>
     (\<forall>f r ev w. \<exists>rc u. call_fd c f r ev w = Inr (rc, w\<lparr>user := u\<rparr>))"

lemma same_lib_refl [simp]: "same_lib w w"
  by (auto simp: same_lib_def intro!: exI [of _ "events w"] exI [of _ "user w"])

lemma same_lib_trans: "same_lib w1 w2 \<Longrightarrow> same_lib w2 w3 \<Longrightarrow> same_lib w1 w3"
  by (auto simp: same_lib_def) blast

lemma same_lib_say [simp]: "same_lib w (say e w)"
  by (auto simp: same_lib_def say_def intro!: exI [of _ "user w"])

lemma same_lib_user [simp]: "same_lib w (w\<lparr>user := u\<rparr>)"
  by (auto simp: same_lib_def intro!: exI [of _ "events w"])

lemma same_lib_fields:
  assumes "same_lib w w'"
  shows "w_env w' = w_env w" "w_vars w' = w_vars w" "w_urls w' = w_urls w" "w_hooks w' = w_hooks w"
    "reqs w' = reqs w" "ends w' = ends w" "stores w' = stores w" "empty_req w' = empty_req w"
    "empty_count w' = empty_count w" "all_count w' = all_count w" "empty_req_lock w' = empty_req_lock w"
    "w_poll w' = w_poll w" "accepts w' = accepts w" "polls w' = polls w"
  using assms by (auto simp: same_lib_def)

text \<open>The same for callbacks \<open>fs\<close> that are called in one state: they return whenever nothing but
  trace and state of the program has changed since.\<close>

definition tame :: "'u ctx \<Rightarrow> bool \<Rightarrow> fnptr list \<Rightarrow> addr \<Rightarrow> 'u world \<Rightarrow> bool" where
  "tame c put_req fs r w \<longleftrightarrow> (\<forall>f \<in> set fs. \<forall>w'. same_lib w w' \<longrightarrow>
     (\<exists>rc u. (if put_req then call c f r w' else call_glob c f w') = Inr (rc, w'\<lparr>user := u\<rparr>)))"

lemma benign_tame: "benign c \<Longrightarrow> tame c b fs r w"
  by (simp add: benign_def tame_def)

lemma tame_simps [simp]:
  "tame c b [] r w" "tame c b (fs @ gs) r w \<longleftrightarrow> tame c b fs r w \<and> tame c b gs r w"
  by (auto simp: tame_def)

lemma tame_Cons: "tame c b (f # fs) r w \<longleftrightarrow> tame c b [f] r w \<and> tame c b fs r w"
  by (auto simp: tame_def)

lemma tame_same_lib: "tame c b fs r w \<Longrightarrow> same_lib w w' \<Longrightarrow> tame c b fs r w'"
  unfolding tame_def using same_lib_trans by blast

lemma call_hook_tame:
  assumes "tame c put_req [f] r w"
  obtains rc w' where "call_hook c put_req f r w = Inr (rc, w')" and "same_lib w w'"
    and "events w' = events w @ [if put_req then Called f r else Called_glob f]"
proof -
  let ?e = "if put_req then Called f r else Called_glob f"
  have "\<forall>w'. same_lib w w' \<longrightarrow> (\<exists>rc u. (if put_req then call c f r w' else call_glob c f w') = Inr (rc, w'\<lparr>user := u\<rparr>))"
    using assms by (simp add: tame_def)
  then obtain rc u where "(if put_req then call c f r (say ?e w) else call_glob c f (say ?e w)) = Inr (rc, (say ?e w)\<lparr>user := u\<rparr>)"
    using same_lib_say [of w ?e] by blast
  moreover have "same_lib w ((say ?e w)\<lparr>user := u\<rparr>)" by (rule same_lib_trans [OF same_lib_say [of w ?e]]) simp
  ultimately show ?thesis using that by (auto simp: call_hook_def say_def split: if_splits)
qed

text \<open>Running a list of callbacks until one fails.\<close>

fun run_hooks :: "'u ctx \<Rightarrow> bool \<Rightarrow> fnptr list \<Rightarrow> addr \<Rightarrow> 'u op" where
  "run_hooks c put_req [] r w = Inr (0, w)"
| "run_hooks c put_req (f # fs) r w =
     bindo (call_hook c put_req f r w) (\<lambda>(rc, w).
       if rc \<noteq> 0 then Inr (- 1, w) else run_hooks c put_req fs r w)"

lemma run_hooks_append:
  "run_hooks c b (fs @ gs) r w =
     bindo (run_hooks c b fs r w) (\<lambda>(rc, w). if rc \<noteq> 0 then Inr (- 1, w) else run_hooks c b gs r w)"
proof (induction fs arbitrary: w)
  case (Cons f fs)
  then show ?case
    by (cases "call_hook c b f r w") (auto split: prod.splits)
qed simp

lemma run_hooks_tame:
  assumes "tame c b fs r w"
  shows "\<exists>rc w' gs hs. run_hooks c b fs r w = Inr (rc, w') \<and> same_lib w w' \<and> fs = gs @ hs \<and>
    events w' = events w @ map (\<lambda>f. if b then Called f r else Called_glob f) gs \<and>
    (rc = 0 \<and> hs = [] \<or> rc = - 1 \<and> gs \<noteq> [])"
  using assms
proof (induction fs arbitrary: w)
  case (Cons f fs)
  have t: "tame c b [f] r w" "tame c b fs r w" using Cons.prems tame_Cons by blast+
  obtain rc1 w1 where 1: "call_hook c b f r w = Inr (rc1, w1)" "same_lib w w1"
    "events w1 = events w @ [if b then Called f r else Called_glob f]"
    using call_hook_tame [OF t(1)] by blast
  show ?case
  proof (cases "rc1 = 0")
    case True
    obtain rc w' gs hs where 2: "run_hooks c b fs r w1 = Inr (rc, w')" "same_lib w1 w'" "fs = gs @ hs"
      "events w' = events w1 @ map (\<lambda>f. if b then Called f r else Called_glob f) gs"
      "rc = 0 \<and> hs = [] \<or> rc = - 1 \<and> gs \<noteq> []"
      using Cons.IH [OF tame_same_lib [OF t(2) 1(2)]] by blast
    then show ?thesis
      using True 1 same_lib_trans [OF 1(2) 2(2)]
      by (intro exI [of _ rc] exI [of _ w'] exI [of _ "f # gs"] exI [of _ hs]) auto
  next
    case False
    with 1 show ?thesis
      by (intro exI [of _ "- 1"] exI [of _ w1] exI [of _ "[f]"] exI [of _ fs]) auto
  qed
qed auto

lemmas run_hooks_benign = run_hooks_tame [OF benign_tame]

section \<open>The walk through the heap\<close>

definition hook_lock_ready :: "lock_ref option \<Rightarrow> 'u world \<Rightarrow> bool" where
  "hook_lock_ready lck w \<longleftrightarrow> lck = None \<or> \<not> pthreads (w_env w) \<or>
     calm (w_env w) \<and> (lck = Some Glob_hooks_lock \<longrightarrow> \<not> glob_hooks_lock (w_hooks w)) \<and>
     (lck = Some Req_hooks_lock \<longrightarrow> \<not> req_hooks_lock (w_hooks w))"

lemma lock_hooks_ready:
  assumes "hook_lock_ready lck w"
  obtains w1 where "lock_hooks lck w = Inr (0, w1)" and "unlock_hooks lck w1 = Inr (0, w)"
    and "hookmem (w_hooks w1) = hookmem (w_hooks w)"
proof -
  note u = fra_p_unlock_calm [of "w_env w"]
  show ?thesis
  proof (cases "pthreads (w_env w)")
    case True
    consider "lck = None" | "lck = Some Glob_hooks_lock" | "lck = Some Req_hooks_lock"
      by (metis lock_ref.exhaust option.exhaust)
    then show ?thesis
    proof cases
      case 1
      then show ?thesis using that [of w] by (simp add: lock_hooks_def unlock_hooks_def)
    next
      case 2
      then show ?thesis
        using that [of "w\<lparr>w_hooks := (w_hooks w)\<lparr>glob_hooks_lock := True\<rparr>\<rparr>"] assms True u
        by (simp add: hook_lock_ready_def lock_hooks_def unlock_hooks_def fra_p_lock_calm)
    next
      case 3
      then show ?thesis
        using that [of "w\<lparr>w_hooks := (w_hooks w)\<lparr>req_hooks_lock := True\<rparr>\<rparr>"] assms True u
        by (simp add: hook_lock_ready_def lock_hooks_def unlock_hooks_def fra_p_lock_calm)
    qed
  next
    case False
    then show ?thesis
      using that [of w]
      by (cases lck) (auto simp: lock_hooks_def unlock_hooks_def split: lock_ref.splits)
  qed
qed

lemma hook_loop_runs:
  "chain h_next (cells (hookmem (w_hooks w))) cur xs \<Longrightarrow> length xs < n \<Longrightarrow> hook_lock_ready lck w \<Longrightarrow>
    lock_hooks lck w = Inr (0, w1) \<Longrightarrow> \<forall>x \<in> set xs. fst (hook_val (hookmem (w_hooks w)) x) \<noteq> 0 \<Longrightarrow>
    tame c b (map (\<lambda>x. fst (hook_val (hookmem (w_hooks w)) x)) xs) r w \<Longrightarrow>
    hook_loop c n lck b r cur w1 =
      run_hooks c b (map (\<lambda>x. fst (hook_val (hookmem (w_hooks w)) x)) xs) r w"
proof (induction xs arbitrary: cur n w w1)
  case Nil
  obtain w2 where "lock_hooks lck w = Inr (0, w2)" "unlock_hooks lck w2 = Inr (0, w)"
    using lock_hooks_ready [OF Nil.prems(3)] by blast
  with Nil.prems show ?case by (cases n) auto
next
  case (Cons x xs)
  obtain w2 where "lock_hooks lck w = Inr (0, w2)" "unlock_hooks lck w2 = Inr (0, w)"
      "hookmem (w_hooks w2) = hookmem (w_hooks w)"
    using lock_hooks_ready [OF Cons.prems(3)] by blast
  then have u: "unlock_hooks lck w1 = Inr (0, w)" and mem: "hookmem (w_hooks w1) = hookmem (w_hooks w)"
    using Cons.prems(4) by auto
  obtain k n' where n: "n = Suc n'" and cur: "cur = x" "x \<noteq> 0" and k: "cells (hookmem (w_hooks w)) x = Some k"
    and chn: "chain h_next (cells (hookmem (w_hooks w))) (h_next k) xs"
    using Cons.prems(1,2) by (cases n) (auto split: option.splits)
  have f: "fst (hook_val (hookmem (w_hooks w)) x) = h_callback k" using k by (simp add: hook_val_def)
  then have cb: "h_callback k \<noteq> 0" using Cons.prems(5) by auto
  have "tame c b (h_callback k # map (\<lambda>x. fst (hook_val (hookmem (w_hooks w)) x)) xs) r w"
    using Cons.prems(6) f by simp
  then have t: "tame c b [h_callback k] r w" "tame c b (map (\<lambda>x. fst (hook_val (hookmem (w_hooks w)) x)) xs) r w"
    using tame_Cons by blast+
  obtain rc w3 where call: "call_hook c b (h_callback k) r w = Inr (rc, w3)" and same: "same_lib w w3"
    using call_hook_tame [OF t(1)] by blast
  have rdy3: "hook_lock_ready lck w3" using Cons.prems(3) same_lib_fields [OF same]
    by (simp add: hook_lock_ready_def)
  obtain w4 where w4: "lock_hooks lck w3 = Inr (0, w4)" "hookmem (w_hooks w4) = hookmem (w_hooks w3)"
    using lock_hooks_ready [OF rdy3] by blast
  have "rc = 0 \<Longrightarrow> hook_loop c n' lck b r (h_next k) w4 =
      run_hooks c b (map (\<lambda>x. fst (hook_val (hookmem (w_hooks w3)) x)) xs) r w3"
    using chn Cons.prems(2,5) n rdy3 w4(1) same_lib_fields [OF same] tame_same_lib [OF t(2) same] by (intro Cons.IH) auto
  then show ?case
    using n cur k cb u mem call w4 same_lib_fields [OF same]
    by (simp add: hget_def f)
qed

section \<open>The callbacks of a hook type\<close>

fun hook_fns :: "nat \<Rightarrow> hook heap \<Rightarrow> addr \<Rightarrow> fnptr list" where
  "hook_fns 0 h p = []"
| "hook_fns (Suc n) h p =
     (case cells h p of None \<Rightarrow> [] | Some k \<Rightarrow> if p = 0 then [] else h_callback k # hook_fns n h (h_next k))"

definition array_fns :: "hook heap \<Rightarrow> hook_array \<Rightarrow> int \<Rightarrow> fnptr list" where
  "array_fns h arr type = (case arr of Live a \<Rightarrow> hook_fns (brk h) h (a ! nat type) | _ \<Rightarrow> [])"

lemma hook_fns_chain:
  "heap_ok h \<Longrightarrow> chain h_next (cells h) p xs \<Longrightarrow> length xs < n \<Longrightarrow> hook_fns n h p = map (\<lambda>x. fst (hook_val h x)) xs"
proof (induction xs arbitrary: n p)
  case Nil
  then show ?case by (cases n) (auto split: option.splits)
next
  case (Cons x xs)
  then show ?case by (cases n) (auto simp: hook_val_def split: option.splits)
qed

text \<open>An array of \<open>cnt\<close> lists of registered hooks, none too long for the fuel \<open>n\<close>.\<close>

definition array_ok :: "nat \<Rightarrow> hook heap \<Rightarrow> hook_array \<Rightarrow> int \<Rightarrow> bool" where
  "array_ok n h arr cnt \<longleftrightarrow> heap_ok h \<and> (\<exists>a. arr = Live a \<and> int (length a) = cnt \<and>
     (\<forall>t < length a. \<exists>xs. chain h_next (cells h) (a ! t) xs \<and> length xs < n \<and>
        (\<forall>x \<in> set xs. fst (hook_val h x) \<noteq> 0)))"

lemma hook_execute_runs:
  assumes tm: "tame c b (array_fns (hookmem (w_hooks w)) arr type) r w" and arr: "array_ok (fuel c) (hookmem (w_hooks w)) arr type_max"
    and ty: "0 \<le> type" "type < type_max" and rdy: "hook_lock_ready lck w"
  shows "hook_execute c lck arr type type_max b r w =
    run_hooks c b (array_fns (hookmem (w_hooks w)) arr type) r w"
proof -
  let ?h = "hookmem (w_hooks w)"
  from arr obtain a where a: "arr = Live a" "int (length a) = type_max" and ok: "heap_ok ?h"
    and lists: "\<And>t. t < length a \<Longrightarrow> \<exists>xs. chain h_next (cells ?h) (a ! t) xs \<and> length xs < fuel c \<and>
        (\<forall>x \<in> set xs. fst (hook_val ?h x) \<noteq> 0)"
    unfolding array_ok_def by blast
  have t: "nat type < length a" using a ty by (simp add: nat_less_iff)
  from lists [OF t] obtain xs where xs: "chain h_next (cells ?h) (a ! nat type) xs" "length xs < fuel c"
    "\<forall>x \<in> set xs. fst (hook_val ?h x) \<noteq> 0" by blast
  obtain w1 where w1: "lock_hooks lck w = Inr (0, w1)" by (rule lock_hooks_ready [OF rdy])
  have fns: "array_fns ?h arr type = map (\<lambda>x. fst (hook_val ?h x)) xs"
    using hook_fns_chain [OF ok xs(1) chain_length [OF ok xs(1)]] by (simp add: array_fns_def a)
  moreover have "hook_loop c (fuel c) lck b r (a ! nat type) w1 = run_hooks c b (map (\<lambda>x. fst (hook_val ?h x)) xs) r w"
    using xs w1 rdy tm fns by (intro hook_loop_runs) auto
  ultimately show ?thesis using ty t w1 by (simp add: hook_execute_def a)
qed

text \<open>All hook tables of the library, with their locks free.\<close>

definition hooks_ok :: "'u ctx \<Rightarrow> 'u world \<Rightarrow> bool" where
  "hooks_ok c w \<longleftrightarrow>
     array_ok (fuel c) (hookmem (w_hooks w)) (glob_hooks (w_hooks w)) FRA_GLOB_HOOK_COUNT \<and>
     array_ok (fuel c) (hookmem (w_hooks w)) (req_hooks (w_hooks w)) FRA_HOOK_COUNT \<and>
     (\<forall>e n. cells (ends w) e = Some n \<longrightarrow>
        array_ok (fuel c) (hookmem (w_hooks w)) (hooks n) FRA_HOOK_COUNT) \<and>
     hook_lock_ready (Some Glob_hooks_lock) w \<and> hook_lock_ready (Some Req_hooks_lock) w"

definition glob_fns :: "'u world \<Rightarrow> int \<Rightarrow> fnptr list" where
  "glob_fns w type = array_fns (hookmem (w_hooks w)) (glob_hooks (w_hooks w)) type"

text \<open>The hooks for a request: those of its endpoint, if it has one, then the global ones.\<close>

definition req_fns :: "'u world \<Rightarrow> addr \<Rightarrow> int \<Rightarrow> fnptr list" where
  "req_fns w e type =
     (case cells (ends w) e of None \<Rightarrow> [] | Some n \<Rightarrow> array_fns (hookmem (w_hooks w)) (hooks n) type) @
     array_fns (hookmem (w_hooks w)) (req_hooks (w_hooks w)) type"

lemma glob_hook_execute_runs:
  assumes "tame c False (glob_fns w FRA_REQ_INCOMING) 0 w" and "hooks_ok c w"
  shows "fra_p_glob_hook_execute c FRA_REQ_INCOMING w = run_hooks c False (glob_fns w FRA_REQ_INCOMING) 0 w"
  using assms hook_execute_runs [OF assms(1) [unfolded glob_fns_def]]
  by (simp add: fra_p_glob_hook_execute_def glob_fns_def hooks_ok_def FRA_REQ_INCOMING_def
      FRA_GLOB_HOOK_COUNT_def)

lemma req_hook_execute_runs:
  assumes tm: "tame c True (req_fns w (endpoint q) type) r w" and ok: "hooks_ok c w" and heap: "heap_ok (ends w)"
    and q: "r \<noteq> 0" "cells (reqs w) r = Some q" and e: "endpoint q \<noteq> 0 \<longrightarrow> cells (ends w) (endpoint q) \<noteq> None"
    and ty: "0 \<le> type" "type < FRA_HOOK_COUNT"
  shows "fra_p_req_hook_execute c r type w = run_hooks c True (req_fns w (endpoint q) type) r w"
proof -
  let ?fs = "array_fns (hookmem (w_hooks w)) (req_hooks (w_hooks w)) type"
  have tg: "tame c True ?fs r w" using tm by (simp add: req_fns_def)
  have glob: "hook_execute c (Some Req_hooks_lock) (req_hooks (w_hooks w')) type FRA_HOOK_COUNT True r w' =
      run_hooks c True ?fs r w'"
    if "same_lib w w'" for w'
    using ok ty hook_execute_runs [of c True w' "req_hooks (w_hooks w')" type r FRA_HOOK_COUNT "Some Req_hooks_lock"]
      tame_same_lib [OF tg that]
    by (simp add: hooks_ok_def same_lib_fields [OF that] hook_lock_ready_def)
  show ?thesis
  proof (cases "endpoint q = 0")
    case True
    have "cells (ends w) 0 = None" using heap by (cases "cells (ends w) 0") (auto simp: heap_ok_def)
    then show ?thesis
      using True q glob [of w] by (simp add: fra_p_req_hook_execute_def hget_def req_fns_def)
  next
    case False
    then obtain n where n: "cells (ends w) (endpoint q) = Some n" using e by auto
    then have "array_ok (fuel c) (hookmem (w_hooks w)) (hooks n) FRA_HOOK_COUNT"
      using ok by (auto simp: hooks_ok_def)
    moreover have te: "tame c True (array_fns (hookmem (w_hooks w)) (hooks n) type) r w"
      using tm n by (simp add: req_fns_def)
    ultimately have "fra_p_end_hook_execute c r type w =
        run_hooks c True (array_fns (hookmem (w_hooks w)) (hooks n) type) r w"
      using hook_execute_runs [OF te, of FRA_HOOK_COUNT None] ty False q n
      by (simp add: fra_p_end_hook_execute_def hget_def hook_lock_ready_def)
    moreover obtain rc w' where "run_hooks c True (array_fns (hookmem (w_hooks w)) (hooks n) type) r w = Inr (rc, w')"
      and "same_lib w w'"
      using run_hooks_tame [OF te] by blast
    ultimately show ?thesis
      using False q n glob [of w']
      by (simp add: fra_p_req_hook_execute_def hget_def req_fns_def run_hooks_append)
  qed
qed

section \<open>Properties\<close>


end
