(* ===== verification/End.thy ===== *)
theory End
  imports Hook_Exec
begin

text \<open>
  Endpoints, \<open>src/end.c\<close>: creating and freeing them, their callback and their variables, and
  the stores of endpoint variables, which are cached in a list of the endpoint between
  requests.
\<close>

section \<open>Stores\<close>

text \<open>\<open>malloc( sizeof( fra_p_end_store_t ) + e->store_size )\<close>: the sum is taken in \<open>size_t\<close>
  and may wrap to less than the struct, whose fields are then written beyond the block.\<close>

definition sizeof_end_store :: u64 where "sizeof_end_store = 16"

definition malloc_bytes :: "u64 \<Rightarrow> u64 \<Rightarrow> nat outcome" where
  "malloc_bytes header sz =
     (if unat (header + sz) < unat header then Inl (Undef Out_of_bounds)
      else Inr (unat (header + sz) - unat header))"

definition fail_unlock_end :: "addr \<Rightarrow> 'u op" where
  "fail_unlock_end e w = bindo (unlock_end e w) (\<lambda>(rc, w). Inr (- 1, w))"

definition succeed_unlock_end :: "addr \<Rightarrow> 'u op" where
  "succeed_unlock_end e w =
     bindo (unlock_end e w) (\<lambda>(rc, w). if rc \<noteq> 0 then fail_unlock_end e w else Inr (0, w))"

definition free_store :: "addr \<Rightarrow> 'u world \<Rightarrow> 'u world outcome" where
  "free_store s w = bindo (hfree s (stores w)) (\<lambda>h. Inr (w\<lparr>stores := h\<rparr>))"

definition fra_p_end_store_set :: "'u ctx \<Rightarrow> addr \<Rightarrow> 'u op" where
  "fra_p_end_store_set c r w =
     (if r = 0 then Inr (- 1, w)
      else bindo (hget r (reqs w)) (\<lambda>q.
        if endpoint q = 0 then Inr (- 1, w)
        else
          let e = endpoint q in
          bindo (lock_end e w) (\<lambda>(rc, w).
            if rc \<noteq> 0 then Inr (- 1, w)
            else bindo (hget e (ends w)) (\<lambda>n.
              if store_empty n = 0 then
                let (ok, w) = w_draw w in
                if \<not> ok then fail_unlock_end e w
                else
                  bindo (malloc_bytes sizeof_end_store (store_size n)) (\<lambda>size.
                  let (cur, h) = hnew \<lparr>s_next = 0, s_bytes = size\<rparr> (stores w) in
                  bindo (upd_req r (endpoint_store_update (\<lambda>_. cur)) (w\<lparr>stores := h\<rparr>)) (\<lambda>w.
                  bindo (fra_p_req_hook_execute c r FRA_END_STORE_CREATED w) (\<lambda>(rc, w).
                    if rc \<noteq> 0 then bindo (free_store cur w) (fail_unlock_end e)
                    else
                      bindo (upd_end e (store_all_count_update (\<lambda>n. n + 1)) w)
                        (succeed_unlock_end e))))
              else
                bindo (upd_req r (endpoint_store_update (\<lambda>_. store_empty n)) w) (\<lambda>w.
                bindo (hget (store_empty n) (stores w)) (\<lambda>s.
                bindo (upd_end e (\<lambda>n. n\<lparr>store_empty := s_next s,
                    store_empty_count := store_empty_count n - 1\<rparr>) w)
                  (succeed_unlock_end e)))))))"

definition fra_p_end_store_maybe_free :: "'u ctx \<Rightarrow> addr \<Rightarrow> 'u op" where
  "fra_p_end_store_maybe_free c r w =
     bindo (if r = 0 then Inr 0 else bindo (hget r (reqs w)) (\<lambda>q. Inr (endpoint q))) (\<lambda>e.
       if e = 0 then Inr (0, w)
       else
         bindo (lock_end e w) (\<lambda>(rc, w).
           if rc \<noteq> 0 then Inr (- 1, w)
           else bindo (hget e (ends w)) (\<lambda>n.
             if over_growth (store_all_count n) (store_empty_count n) then
               bindo (fra_p_req_hook_execute c r FRA_END_STORE_FREE w) (\<lambda>(rc, w).
                 if rc \<noteq> 0 then fail_unlock_end e w
                 else
                   bindo (hget r (reqs w)) (\<lambda>q.
                   bindo (free_store (endpoint_store q) w) (\<lambda>w.
                   bindo (upd_end e (store_all_count_update (\<lambda>n. n - 1)) w) (succeed_unlock_end e))))
             else
               bindo (hget r (reqs w)) (\<lambda>q.
               bindo (upd_store (endpoint_store q) (s_next_update (\<lambda>_. store_empty n)) w) (\<lambda>w.
               bindo (upd_end e (\<lambda>n. n\<lparr>store_empty := endpoint_store q,
                   store_empty_count := store_empty_count n + 1\<rparr>) w)
                 (succeed_unlock_end e))))))"

section \<open>Endpoints\<close>

text \<open>
  The object is put into the heap when all of its parts are there. \<open>pthread_mutex_init\<close> is
  called whether or not \<open>fra_p_pthreads\<close> is set; the lock it makes is free.
\<close>

definition fra_end_new :: "int \<Rightarrow> 'u world \<Rightarrow> addr \<times> 'u world" where
  "fra_end_new var_count w =
     (let (ok, v) = draw (w_env w) in
      if \<not> ok then (0, w\<lparr>w_env := v\<rparr>)
      else let (ok, v) = draw v in
      if \<not> ok then (0, w\<lparr>w_env := v\<rparr>)
      else let (m, v) = fra_p_var_ht_get var_count v in
      case m of
        Live ht \<Rightarrow>
          let (arr, v) = calloc_hooks FRA_HOOK_COUNT v in
          if arr = Null then
            let v = projr (fra_p_ht_free m v);
                v = (if pthreads v then snd (draw v) else v)
            in (0, w\<lparr>w_env := v\<rparr>)
          else
            let (e, h) = hnew \<lparr>store_size = 0, end_map = m, store_empty = 0,
                  store_empty_count = 0, store_all_count = 0, hooks = arr, end_lock = False,
                  callback = 0\<rparr> (ends w)
            in (e, w\<lparr>w_env := v, ends := h\<rparr>)
      | _ \<Rightarrow> (0, w\<lparr>w_env := (if pthreads v then snd (draw v) else v)\<rparr>))"

text \<open>
  The loop of \<open>fra_end_free\<close> that frees the cached stores; \<open>r\<close> is the request on the stack
  that the hooks are called with. It stops with -1 when a hook fails.
\<close>

fun free_stores :: "'u ctx \<Rightarrow> nat \<Rightarrow> addr \<Rightarrow> addr \<Rightarrow> 'u op" where
  "free_stores c 0 e r w = Inl Out_of_fuel"
| "free_stores c (Suc k) e r w =
     bindo (hget e (ends w)) (\<lambda>n.
       if store_empty n = 0 then Inr (0, w)
       else
         let cur = store_empty n in
         bindo (hget cur (stores w)) (\<lambda>s.
         bindo (upd_end e (store_empty_update (\<lambda>_. s_next s)) w) (\<lambda>w.
         bindo (upd_req r (\<lambda>q. q\<lparr>endpoint := e, fcgx_defined := False, endpoint_store := cur\<rparr>) w) (\<lambda>w.
         bindo (fra_p_req_hook_execute c r FRA_END_STORE_FREE w) (\<lambda>(rc, w).
           if rc \<noteq> 0 then Inr (- 1, w)
           else bindo (free_store cur w) (\<lambda>w. free_stores c k e r w))))))"

definition free_end :: "addr \<Rightarrow> 'u world \<Rightarrow> 'u world outcome" where
  "free_end e w = bindo (hfree e (ends w)) (\<lambda>h. Inr (w\<lparr>ends := h\<rparr>))"

text \<open>\<open>fra_end_free\<close> once it holds the lock, up to the return code.\<close>

definition end_free_locked :: "'u ctx \<Rightarrow> addr \<Rightarrow> addr \<Rightarrow> 'u op" where
  "end_free_locked c e r w =
     bindo (free_stores c (fuel c) e r w) (\<lambda>(rc, w).
       if rc \<noteq> 0 then
         bindo (unlock_end e w) (\<lambda>(rc, w). bindo (free_end e w) (\<lambda>w. Inr (- 1, w)))
       else
         bindo (hget e (ends w)) (\<lambda>n.
         bindo (fra_p_ht_free (end_map n) (w_env w)) (\<lambda>v.
         bindo (fra_p_hook_free (hooks n) FRA_HOOK_COUNT (hookmem (w_hooks w))) (\<lambda>h.
         bindo (free_array (hooks n) v) (\<lambda>v.
         bindo (unlock_end e (w\<lparr>w_env := v, w_hooks := (w_hooks w)\<lparr>hookmem := h\<rparr>\<rparr>)) (\<lambda>(rc, w).
           if rc \<noteq> 0 then bindo (free_end e w) (\<lambda>w. Inr (- 1, w))
           else
             let (ok, w) = w_draw w in
             bindo (free_end e w) (\<lambda>w. Inr (if ok then 0 else - 1, w))))))))"

definition fra_end_free :: "'u ctx \<Rightarrow> addr \<Rightarrow> 'u op" where
  "fra_end_free c e w =
     (if e = 0 then Inr (0, w)
      else
        bindo (lock_end e w) (\<lambda>(rc, w).
          if rc \<noteq> 0 then Inr (- 1, w)
          else
            let (r, h) = hnew (junk c (brk (reqs w))) (reqs w) in
            bindo (end_free_locked c e r (w\<lparr>reqs := h\<rparr>)) (\<lambda>(rc, w).
            bindo (hfree r (reqs w)) (\<lambda>h. Inr (rc, w\<lparr>reqs := h\<rparr>)))))"

definition fra_end_callback_set :: "addr \<Rightarrow> fnptr \<Rightarrow> 'u op" where
  "fra_end_callback_set e cb w =
     bindo (lock_end e w) (\<lambda>(rc, w).
       if rc \<noteq> 0 then Inr (- 1, w)
       else
         bindo (upd_end e (callback_update (\<lambda>_. cb)) w) (\<lambda>w.
         bindo (unlock_end e w) (\<lambda>(rc, w). if rc \<noteq> 0 then Inr (- 1, w) else Inr (0, w))))"

definition fra_end_var_reg :: "bstrlib \<Rightarrow> addr \<Rightarrow> string \<Rightarrow> string \<Rightarrow> u64 \<Rightarrow> 'u op" where
  "fra_end_var_reg b e name type sz w =
     bindo (hget e (ends w)) (\<lambda>n.
     bindo (reg b (end_map n) (store_size n) name type sz (w_env w)) (\<lambda>(rc, m, s, v).
     bindo (upd_end e (\<lambda>n. n\<lparr>end_map := m, store_size := s\<rparr>) (w\<lparr>w_env := v\<rparr>)) (\<lambda>w. Inr (rc, w))))"

end
