(* ===== verification/Req.thy ===== *)
theory Req
  imports End
begin

text \<open>
  The life of a request, \<open>src/req.c\<close>: taking a request object from the cache or making a new
  one, reading verb and url from the FastCGI environment, finding the endpoint, running the
  hooks and the endpoint's callback, and giving the object back.
\<close>

section \<open>The cache of request objects\<close>

definition free_req :: "addr \<Rightarrow> 'u world \<Rightarrow> 'u world outcome" where
  "free_req r w = bindo (hfree r (reqs w)) (\<lambda>h. Inr (w\<lparr>reqs := h\<rparr>))"

text \<open>The cleanup of \<open>get_req\<close> unlocks without asking \<open>fra_p_pthreads\<close>.\<close>

definition get_req_unlock_cleanup :: "'u world \<Rightarrow> (addr \<times> 'u world) outcome" where
  "get_req_unlock_cleanup w =
     bindo (pthread_mutex_unlock (w_env w) (empty_req_lock w)) (\<lambda>(rc, v, m).
       Inr (0, w\<lparr>w_env := v, empty_req_lock := m\<rparr>))"

definition get_req_return :: "addr \<Rightarrow> 'u world \<Rightarrow> (addr \<times> 'u world) outcome" where
  "get_req_return cur w =
     bindo (unlock_empty_req w) (\<lambda>(rc, w).
       if rc \<noteq> 0 then bindo (free_req cur w) get_req_unlock_cleanup else Inr (cur, w))"

definition get_req :: "'u ctx \<Rightarrow> 'u world \<Rightarrow> (addr \<times> 'u world) outcome" where
  "get_req c w =
     bindo (lock_empty_req w) (\<lambda>(rc, w).
       if rc \<noteq> 0 then Inr (0, w)
       else if empty_req w = 0 then
         bindo (fra_p_var_store_size_get (w_vars w) (w_env w)) (\<lambda>(sz, rc, g, v).
           let w = w\<lparr>w_vars := g, w_env := v\<rparr> in
           if rc \<noteq> 0 then Inr (0, w)
           else
             let (ok, w) = w_draw w in
             if \<not> ok then get_req_unlock_cleanup w
             else
               bindo (malloc_bytes (sizeof_req c) sz) (\<lambda>size.
               let (cur, h) = hnew ((junk c (brk (reqs w)))\<lparr>req_store := size\<rparr>) (reqs w) in
               bindo (fra_p_req_hook_execute c cur FRA_REQ_CREATED (w\<lparr>reqs := h\<rparr>)) (\<lambda>(rc, w).
                 if rc \<noteq> 0 then bindo (free_req cur w) get_req_unlock_cleanup
                 else get_req_return cur (w\<lparr>all_count := all_count w + 1\<rparr>))))
       else
         let cur = empty_req w in
         bindo (hget cur (reqs w)) (\<lambda>q.
           get_req_return cur (w\<lparr>empty_req := req_next q, empty_count := empty_count w - 1\<rparr>)))"

definition req_maybe_free :: "'u ctx \<Rightarrow> addr \<Rightarrow> 'u op" where
  "req_maybe_free c req w =
     bindo (lock_empty_req w) (\<lambda>(rc, w).
       if rc \<noteq> 0 then Inr (- 1, w)
       else
         bindo (fra_p_end_store_maybe_free c req w) (\<lambda>(rc, w).
           if rc \<noteq> 0 then Inr (- 1, w)
           else
             bindo (if over_growth (all_count w) (empty_count w) then
                 bindo (fra_p_req_hook_execute c req FRA_REQ_FREE w) (\<lambda>(rc, w).
                   if rc \<noteq> 0 then Inr (- 1, w)
                   else bindo (free_req req w) (\<lambda>w. Inr (0, w\<lparr>all_count := all_count w - 1\<rparr>)))
               else
                 bindo (upd_req req (req_next_update (\<lambda>_. empty_req w)) w) (\<lambda>w.
                   Inr (0, w\<lparr>empty_req := req, empty_count := empty_count w + 1\<rparr>))) (\<lambda>(rc_free, w).
             bindo (unlock_empty_req w) (\<lambda>(rc, w).
               if rc_free \<noteq> (0 :: int) then Inr (- 1, w)
               else if rc \<noteq> 0 then Inr (- 1, w)
               else Inr (0, w)))))"

definition reset_req :: "addr \<Rightarrow> 'u world \<Rightarrow> 'u world outcome" where
  "reset_req r w = upd_req r (\<lambda>q. q\<lparr>fcgx_defined := False, endpoint := 0\<rparr>) w"

section \<open>Parameters\<close>

definition FRA_CORE_MAX_URL_LENGTH :: nat where "FRA_CORE_MAX_URL_LENGTH = 512"
definition FRA_CORE_MAX_VERB_LENGTH :: nat where "FRA_CORE_MAX_VERB_LENGTH = 50"

text \<open>\<open>None\<close> for the return code -1, otherwise the string that the target refers to.\<close>

definition set_param :: "'u ctx \<Rightarrow> string \<Rightarrow> nat \<Rightarrow> string list \<Rightarrow> tagbstring option" where
  "set_param c key maxlen env =
     (case get_param c key env of
        None \<Rightarrow> None
      | Some param \<Rightarrow>
          let len = min (length param) maxlen in
          if len < maxlen then Some \<lparr>mlen = - 1, slen = int len, data = param\<rparr> else None)"

text \<open>
  The loop of \<open>set_url\<close> over the rest of the url from position \<open>i\<close> on; \<open>bl\<close> is
  \<open>base_url.slen\<close> and \<open>q\<close> is \<open>query_url.data\<close>. The first component of the result is \<open>i\<close> at
  the end, \<open>None\<close> for a url that is too long.
\<close>

fun url_loop :: "string \<Rightarrow> nat \<Rightarrow> int \<Rightarrow> string \<Rightarrow> nat option \<times> int \<times> string" where
  "url_loop [] i bl q = (Some i, bl, q)"
| "url_loop (ch # chs) i bl q =
     (if \<not> i < FRA_CORE_MAX_URL_LENGTH then (None, bl, q)
      else if ch = CHR ''?'' \<and> bl = - 1 then url_loop chs (Suc i) (int i) (ch # chs)
      else url_loop chs (Suc i) bl q)"

definition set_req_url :: "'u ctx \<Rightarrow> fra_req \<Rightarrow> int \<times> fra_req" where
  "set_req_url c r =
     (case get_param c ''REQUEST_URI'' (envp r) of
        None \<Rightarrow> (- 1, r)
      | Some param \<Rightarrow>
          let (res, bl, q) = url_loop param 0 (- 1) '''';
              r = r\<lparr>base_url := \<lparr>mlen = - 1, slen = bl, data = param\<rparr>,
                    req_url := \<lparr>mlen = - 1, slen = - 1, data = param\<rparr>,
                    query_url := \<lparr>mlen = - 1, slen = - 1, data = q\<rparr>\<rparr>
          in case res of
               None \<Rightarrow> (- 1, r)
             | Some i \<Rightarrow>
                 let bl = (if bl = - 1 then int i else bl)
                 in (0, r\<lparr>req_url := \<lparr>mlen = - 1, slen = int i, data = param\<rparr>,
                          base_url := \<lparr>mlen = - 1, slen = bl, data = param\<rparr>,
                          query_url := \<lparr>mlen = - 1, slen = int i - bl, data = q\<rparr>\<rparr>))"

section \<open>Answering\<close>

definition crlf :: string where
  "crlf = [CHR 0x0D, CHR 0x0A]"

definition error_page :: string where
  "error_page = ''Status: 500 Internal Server Error'' @ crlf @
     ''Content-type: application/json; charset=utf-8'' @ crlf @ crlf @
     ''{ \"s\":-1, \"error\": \"Go away\" }'' @ crlf"

text \<open>The next request from the web server.\<close>

definition accept_r :: "addr option \<Rightarrow> 'u world \<Rightarrow> (int \<times> string list \<times> 'u world) outcome" where
  "accept_r f w = (case accepts w of
       [] \<Rightarrow> Inl Blocked
     | (rc, env) # rest \<Rightarrow> Inr (rc, env, say (FCGX_Accept_r f rc) (w\<lparr>accepts := rest\<rparr>)))"

definition exit_request :: "'u world \<Rightarrow> 'u world outcome" where
  "exit_request w =
     bindo (accept_r None (say (FCGX_InitRequest None) w)) (\<lambda>(rc, env, w).
       Inr (say (FCGX_Finish_r None) (say (FCGX_FPrintF None error_page) w)))"

section \<open>Handling a request\<close>

definition final_cleanup :: "bool \<Rightarrow> 'u op" where
  "final_cleanup rc_ex w =
     (if rc_ex then bindo (exit_request w) (\<lambda>w. Inr (- 1, w)) else Inr (- 1, w))"

definition req_cleanup :: "'u ctx \<Rightarrow> bool \<Rightarrow> addr \<Rightarrow> 'u op" where
  "req_cleanup c rc_ex req w =
     bindo (req_maybe_free c req w) (\<lambda>(rc, w). final_cleanup rc_ex w)"

definition fcgx_cleanup :: "'u ctx \<Rightarrow> addr \<Rightarrow> 'u op" where
  "fcgx_cleanup c req w =
     req_cleanup c False req
       (say (FCGX_Finish_r (Some req)) (say (FCGX_FPrintF (Some req) error_page) w))"

text \<open>\<open>rc = f; check( rc == 0, fcgx_cleanup );\<close> and going on with \<open>k\<close>.\<close>

definition or_fcgx_cleanup :: "'u ctx \<Rightarrow> addr \<Rightarrow> (int \<times> 'u world) outcome \<Rightarrow> 'u op \<Rightarrow> (int \<times> 'u world) outcome" where
  "or_fcgx_cleanup c req m k =
     bindo m (\<lambda>(rc, w). if rc \<noteq> 0 then fcgx_cleanup c req w else k w)"

definition set_verb :: "'u ctx \<Rightarrow> addr \<Rightarrow> 'u op" where
  "set_verb c req w =
     bindo (hget req (reqs w)) (\<lambda>q.
       case set_param c ''REQUEST_METHOD'' FRA_CORE_MAX_VERB_LENGTH (envp q) of
         None \<Rightarrow> Inr (- 1, w)
       | Some t \<Rightarrow> bindo (upd_req req (req_verb_update (\<lambda>_. t)) w) (\<lambda>w. Inr (0, w)))"

definition set_urls :: "'u ctx \<Rightarrow> addr \<Rightarrow> 'u op" where
  "set_urls c req w =
     bindo (hget req (reqs w)) (\<lambda>q.
       let (rc, q) = set_req_url c q
       in bindo (upd_req req (\<lambda>_. q) w) (\<lambda>w. Inr (rc, w)))"

definition find_endpoint :: "'u ctx \<Rightarrow> addr \<Rightarrow> 'u op" where
  "find_endpoint c req w =
     bindo (hget req (reqs w)) (\<lambda>q.
       if endpoint q \<noteq> 0 then Inr (0, w)
       else
         bindo (fra_p_url_to_endpoint (bs c) (bstr_content (req_verb q)) (bstr_content (base_url q))
                  (w_urls w) (w_env w)) (\<lambda>(e, g, v).
         bindo (upd_req req (endpoint_update (\<lambda>_. e)) (w\<lparr>w_urls := g, w_env := v\<rparr>)) (\<lambda>w.
           Inr (if e = 0 then - 1 else 0, w))))"

definition call_handler :: "'u ctx \<Rightarrow> addr \<Rightarrow> 'u op" where
  "call_handler c req w =
     bindo (hget req (reqs w)) (\<lambda>q.
     bindo (hget (endpoint q) (ends w)) (\<lambda>e.
       if callback e \<noteq> 0 then call c (callback e) req (say (Called (callback e) req) w)
       else Inr (0, w)))"

text \<open>From \<open>FCGX_InitRequest\<close> on.\<close>

definition accept_req :: "'u ctx \<Rightarrow> addr \<Rightarrow> 'u op" where
  "accept_req c req w =
     bindo (upd_req req (envp_update (\<lambda>_. [])) (say (FCGX_InitRequest (Some req)) w)) (\<lambda>w.
     bindo (accept_r (Some req) w) (\<lambda>(rc, env, w).
       if rc < 0 then Inr (- 1, w)
       else bindo (upd_req req (\<lambda>q. q\<lparr>envp := env, fcgx_defined := True\<rparr>) w) (\<lambda>w. Inr (0, w))))"

definition finish_req :: "'u ctx \<Rightarrow> addr \<Rightarrow> 'u op" where
  "finish_req c req w =
     bindo (req_maybe_free c req (say (FCGX_Finish_r (Some req)) w)) (\<lambda>(rc, w).
       if rc \<noteq> 0 then final_cleanup True w else Inr (0, w))"

definition fra_p_req_handle_new :: "'u ctx \<Rightarrow> short \<Rightarrow> 'u op" where
  "fra_p_req_handle_new c revs w =
     (if revs AND POLLIN = 0 then final_cleanup True w
      else
        bindo (fra_p_glob_hook_execute c FRA_REQ_INCOMING w) (\<lambda>(rc, w).
          if rc \<noteq> 0 then final_cleanup True w
          else
            bindo (get_req c w) (\<lambda>(req, w).
              if req = 0 then final_cleanup True w
              else
                bindo (reset_req req w) (\<lambda>w.
                bindo (fra_p_req_hook_execute c req FRA_REQ_BEFORE_FCGX w) (\<lambda>(rc, w).
                  if rc \<noteq> 0 then req_cleanup c True req w
                  else
                    or_fcgx_cleanup c req (accept_req c req w) (\<lambda>w.
                    or_fcgx_cleanup c req (set_verb c req w) (\<lambda>w.
                    or_fcgx_cleanup c req (set_urls c req w) (\<lambda>w.
                    or_fcgx_cleanup c req (fra_p_req_hook_execute c req FRA_REQ_BEFORE_ENDPOINT w) (\<lambda>w.
                    or_fcgx_cleanup c req (find_endpoint c req w) (\<lambda>w.
                    or_fcgx_cleanup c req (fra_p_end_store_set c req w) (\<lambda>w.
                    or_fcgx_cleanup c req (fra_p_req_hook_execute c req FRA_REQ_NEW w) (\<lambda>w.
                    bindo (call_handler c req w) (\<lambda>(rc, w).
                      finish_req c req w)))))))))))))"

section \<open>Init, deinit, accessors\<close>

definition fra_p_req_init :: "'u op" where
  "fra_p_req_init w =
     (let (ok, w) = w_draw w in if \<not> ok then Inr (- 1, w) else Inr (0, w\<lparr>empty_req := 0\<rparr>))"

text \<open>The counters are not reset. The result of the hooks is ignored.\<close>

fun req_deinit_loop :: "'u ctx \<Rightarrow> nat \<Rightarrow> 'u world \<Rightarrow> 'u world outcome" where
  "req_deinit_loop c 0 w = Inl Out_of_fuel"
| "req_deinit_loop c (Suc n) w =
     (if empty_req w = 0 then Inr w
      else
        let cur = empty_req w in
        bindo (hget cur (reqs w)) (\<lambda>q.
        bindo (upd_req cur (endpoint_update (\<lambda>_. 0)) (w\<lparr>empty_req := req_next q\<rparr>)) (\<lambda>w.
        bindo (fra_p_req_hook_execute c cur FRA_REQ_FREE w) (\<lambda>(rc, w).
        bindo (free_req cur w) (\<lambda>w. req_deinit_loop c n w)))))"

definition fra_p_req_deinit :: "'u ctx \<Rightarrow> 'u world \<Rightarrow> 'u world outcome" where
  "fra_p_req_deinit c w = req_deinit_loop c (fuel c) w"

text \<open>\<open>fra_req_fcgx\<close> returns the address of the field, here that of its request.\<close>

definition fra_req_fcgx :: "addr \<Rightarrow> 'u world \<Rightarrow> addr outcome" where
  "fra_req_fcgx r w = bindo (hget r (reqs w)) (\<lambda>q. Inr (if fcgx_defined q then r else 0))"

definition fra_req_endpoint :: "addr \<Rightarrow> 'u world \<Rightarrow> addr outcome" where
  "fra_req_endpoint r w = bindo (hget r (reqs w)) (\<lambda>q. Inr (endpoint q))"

end
