(* ===== verification/Pool.thy ===== *)
theory Pool
  imports Req
begin

text \<open>
  The two caches of the library, of request objects (\<open>get_req\<close>, \<open>req_maybe_free\<close>) and of
  endpoint stores (\<open>fra_p_end_store_set\<close>, \<open>fra_p_end_store_maybe_free\<close>): their invariants, and
  what the operations do when no call fails and the callbacks leave the library alone.
\<close>

section \<open>Writing objects\<close>

definition with_req :: "addr \<Rightarrow> fra_req \<Rightarrow> 'u world \<Rightarrow> 'u world" where
  "with_req r q w = w\<lparr>reqs := (reqs w)\<lparr>cells := (cells (reqs w))(r := Some q)\<rparr>\<rparr>"

definition with_end :: "addr \<Rightarrow> fra_end \<Rightarrow> 'u world \<Rightarrow> 'u world" where
  "with_end e n w = w\<lparr>ends := (ends w)\<lparr>cells := (cells (ends w))(e := Some n)\<rparr>\<rparr>"

definition with_store :: "addr \<Rightarrow> end_store \<Rightarrow> 'u world \<Rightarrow> 'u world" where
  "with_store s n w = w\<lparr>stores := (stores w)\<lparr>cells := (cells (stores w))(s := Some n)\<rparr>\<rparr>"

lemma upd_req_ok: "heap_ok (reqs w) \<Longrightarrow> cells (reqs w) r = Some q \<Longrightarrow> upd_req r f w = Inr (with_req r (f q) w)"
  by (simp add: upd_req_def hupd_def hput_def hget_ok with_req_def)

lemma upd_end_ok: "heap_ok (ends w) \<Longrightarrow> cells (ends w) e = Some n \<Longrightarrow> upd_end e f w = Inr (with_end e (f n) w)"
  by (simp add: upd_end_def hupd_def hput_def hget_ok with_end_def)

lemma upd_store_ok:
  "heap_ok (stores w) \<Longrightarrow> cells (stores w) s = Some n \<Longrightarrow> upd_store s f w = Inr (with_store s (f n) w)"
  by (simp add: upd_store_def hupd_def hput_def hget_ok with_store_def)

section \<open>The state between two operations\<close>

text \<open>
  What the operations on requests and stores leave alone: everything but the heaps of
  requests and stores, the lists of cached objects with their counters, the requests to come,
  the trace and the user's state.
\<close>

definition end_core :: "fra_end \<Rightarrow> u64 \<times> store_map \<times> hook_array \<times> fnptr" where
  "end_core n = (store_size n, end_map n, hooks n, callback n)"

definition frame :: "'u world \<Rightarrow> 'u world \<Rightarrow> bool" where
  "frame w w' \<longleftrightarrow> w_env w' = w_env w \<and> w_vars w' = w_vars w \<and> w_urls w' = w_urls w \<and>
     w_hooks w' = w_hooks w \<and> w_poll w' = w_poll w \<and> polls w' = polls w \<and>
     (\<forall>e. map_option end_core (cells (ends w') e) = map_option end_core (cells (ends w) e))"

lemma frame_refl [simp]: "frame w w"
  by (simp add: frame_def)

lemma frame_trans: "frame w1 w2 \<Longrightarrow> frame w2 w3 \<Longrightarrow> frame w1 w3"
  by (simp add: frame_def)

lemma frame_sym: "frame w w' \<Longrightarrow> frame w' w"
  by (simp add: frame_def)

lemma same_lib_frame: "same_lib w w' \<Longrightarrow> frame w w'"
  by (auto simp: frame_def same_lib_def)

lemma frame_with [simp]:
  "frame w (with_req r q w)" "frame w (with_store s k w)"
  "frame w (w\<lparr>reqs := rh\<rparr>)" "frame w (w\<lparr>stores := sh\<rparr>)"
  "frame w (w\<lparr>empty_req := a, empty_count := i\<rparr>)" "frame w (w\<lparr>all_count := j\<rparr>)" "frame w (w\<lparr>empty_req_lock := m\<rparr>)"
  "frame w (say ev w)"
  by (simp_all add: frame_def with_req_def with_store_def say_def)

lemma frame_with_end:
  "cells (ends w) e = Some n \<Longrightarrow> end_core n' = end_core n \<Longrightarrow> frame w (with_end e n' w)"
  by (simp add: frame_def with_end_def)

lemma frame_live: "frame w w' \<Longrightarrow> cells (ends w) e = Some n \<Longrightarrow>
  \<exists>n'. cells (ends w') e = Some n' \<and> end_core n' = end_core n"
  unfolding frame_def by (metis map_option_eq_Some)

lemma frame_none: "frame w w' \<Longrightarrow> cells (ends w') e = None \<longleftrightarrow> cells (ends w) e = None"
  unfolding frame_def by (metis map_option_is_None)

lemma frame_hooks: "frame w w' \<Longrightarrow> req_fns w' e type = req_fns w e type"
proof -
  assume f: "frame w w'"
  then have "w_hooks w' = w_hooks w" by (simp add: frame_def)
  moreover have "map_option hooks (cells (ends w') e) = map_option hooks (cells (ends w) e)"
    using frame_live [OF f, of e] frame_none [OF f, of e]
    by (cases "cells (ends w) e") (auto simp: end_core_def)
  ultimately show ?thesis
    by (cases "cells (ends w) e"; cases "cells (ends w') e") (simp_all add: req_fns_def)
qed

lemma frame_hooks_ok: "frame w w' \<Longrightarrow> hooks_ok c w \<Longrightarrow> hooks_ok c w'"
proof -
  assume f: "frame w w'" and ok: "hooks_ok c w"
  have "\<exists>n0. cells (ends w) e = Some n0 \<and> hooks n = hooks n0" if "cells (ends w') e = Some n" for e n
    using frame_live [OF frame_sym [OF f] that] by (auto simp: end_core_def)
  moreover have "w_hooks w' = w_hooks w" "w_env w' = w_env w" using f by (simp_all add: frame_def)
  ultimately show ?thesis
    using ok unfolding hooks_ok_def hook_lock_ready_def by metis
qed

text \<open>The heaps are in order, nothing fails, the locks of hooks and endpoints are free, the routes lead to live
  endpoints, and no allocation size wraps around.\<close>

definition steady :: "'u ctx \<Rightarrow> 'u world \<Rightarrow> bool" where
  "steady c w \<longleftrightarrow> calm (w_env w) \<and> hooks_ok c w \<and> heap_ok (reqs w) \<and> heap_ok (ends w) \<and> heap_ok (stores w) \<and>
     routes_ready (bs c) (w_urls w) \<and>
     (\<forall>k e. routes (urls (w_urls w)) k = Some e \<longrightarrow> cells (ends w) e \<noteq> None) \<and>
     \<not> glob_store_map_lock (w_vars w) \<and>
     unat (sizeof_req c) \<le> unat (sizeof_req c + glob_store_size (w_vars w)) \<and>
     (\<forall>e n. cells (ends w) e = Some n \<longrightarrow> \<not> end_lock n \<and>
        unat sizeof_end_store \<le> unat (sizeof_end_store + store_size n))"

lemma steady_frame:
  assumes "frame w w'" and "steady c w" and "heap_ok (reqs w')" and "heap_ok (ends w')" and "heap_ok (stores w')"
    and "\<forall>e n. cells (ends w') e = Some n \<longrightarrow> \<not> end_lock n"
  shows "steady c w'"
proof -
  have "unat sizeof_end_store \<le> unat (sizeof_end_store + store_size n)" if n: "cells (ends w') e = Some n" for e n
  proof -
    obtain n0 where "cells (ends w) e = Some n0" and "store_size n = store_size n0"
      using frame_live [OF frame_sym [OF assms(1)] n] by (auto simp: end_core_def)
    then show ?thesis using assms(2) by (simp add: steady_def)
  qed
  moreover have "cells (ends w') e \<noteq> None" if "routes (urls (w_urls w')) k = Some e" for k e
  proof -
    have "routes (urls (w_urls w)) k = Some e" using that assms(1) by (simp add: frame_def)
    then have "cells (ends w) e \<noteq> None" using assms(2) unfolding steady_def by blast
    then show ?thesis by (simp add: frame_none [OF assms(1)])
  qed
  moreover have "w_env w' = w_env w" "w_vars w' = w_vars w" "w_urls w' = w_urls w"
    using assms(1) by (simp_all add: frame_def)
  ultimately show ?thesis
    using assms frame_hooks_ok [OF assms(1)] unfolding steady_def by metis
qed

text \<open>Moreover no request object changes the size of its block, and new ones have room for all variables of
  the time.\<close>

definition evolves :: "'u world \<Rightarrow> 'u world \<Rightarrow> bool" where
  "evolves w w' \<longleftrightarrow> frame w w' \<and> (\<forall>a q'. cells (reqs w') a = Some q' \<longrightarrow>
     (\<exists>q. cells (reqs w) a = Some q \<and> req_store q = req_store q') \<or> req_store q' = unat (glob_store_size (w_vars w)))"

lemma evolves_frame: "evolves w w' \<Longrightarrow> frame w w'"
  by (simp add: evolves_def)

lemma evolves_refl [simp]: "evolves w w"
  by (simp add: evolves_def)

lemma evolves_trans: "evolves w1 w2 \<Longrightarrow> evolves w2 w3 \<Longrightarrow> evolves w1 w3"
proof -
  assume 1: "evolves w1 w2" and 2: "evolves w2 w3"
  then have f: "frame w1 w3" "w_vars w2 = w_vars w1"
    using frame_trans [OF evolves_frame [OF 1] evolves_frame [OF 2]] by (simp_all add: evolves_def frame_def)
  have "(\<exists>q. cells (reqs w1) a = Some q \<and> req_store q = req_store q') \<or> req_store q' = unat (glob_store_size (w_vars w1))"
    if "cells (reqs w3) a = Some q'" for a q'
    using that 1 2 f(2) unfolding evolves_def by metis
  with f(1) show ?thesis by (simp add: evolves_def)
qed

lemma evolves_same: "frame w w' \<Longrightarrow> reqs w' = reqs w \<Longrightarrow> evolves w w'"
  by (simp add: evolves_def)

lemma evolves_same_lib: "same_lib w w' \<Longrightarrow> evolves w w'"
  by (rule evolves_same [OF same_lib_frame]) (simp_all add: same_lib_fields)

lemma evolves_upd:
  "frame w w' \<Longrightarrow> cells (reqs w) r = Some q0 \<Longrightarrow> req_store q = req_store q0 \<Longrightarrow> cells (reqs w') r = Some q \<Longrightarrow>
   (\<And>a. a \<noteq> r \<Longrightarrow> cells (reqs w') a = cells (reqs w) a) \<Longrightarrow> evolves w w'"
  unfolding evolves_def by (metis option.inject)

lemma evolves_with_req:
  "cells (reqs w) r = Some q0 \<Longrightarrow> req_store q = req_store q0 \<Longrightarrow> evolves w (with_req r q w)"
  by (erule evolves_upd [where r = r and q = q, rotated]) (simp_all add: with_req_def frame_def)

section \<open>The caches\<close>

interpretation req_list: linked req_next "\<lambda>a q. q\<lparr>req_next := a\<rparr>" endpoint
  by unfold_locales simp_all

interpretation store_list: linked s_next "\<lambda>a s. s\<lparr>s_next := a\<rparr>" s_bytes
  by unfold_locales simp_all

text \<open>Every request object is cached or one of the \<open>R\<close> in use, and the counters say so; they
  may be higher when the library was used before, since \<open>fra_p_req_deinit\<close> keeps them.\<close>

definition req_pool :: "addr set \<Rightarrow> 'u world \<Rightarrow> bool" where
  "req_pool R w \<longleftrightarrow> finite R \<and> (\<exists>xs. chain req_next (cells (reqs w)) (empty_req w) xs \<and>
     set xs \<inter> R = {} \<and> dom (cells (reqs w)) = set xs \<union> R \<and>
     all_count w = empty_count w + int (card R) \<and> int (length xs) \<le> empty_count w)"

text \<open>
  The same for the stores of every endpoint: of those of \<open>e\<close>, \<open>Y e\<close> are cached and \<open>B e\<close>
  in use.
\<close>

definition store_lists ::
  "(addr \<Rightarrow> addr list) \<Rightarrow> (addr \<Rightarrow> addr set) \<Rightarrow> (addr \<Rightarrow> fra_end option) \<Rightarrow> (addr \<Rightarrow> end_store option) \<Rightarrow> bool"
where
  "store_lists Y B E S \<longleftrightarrow>
     (\<forall>e n. E e = Some n \<longrightarrow>
        chain s_next S (store_empty n) (Y e) \<and> finite (B e) \<and>
        store_all_count n = store_empty_count n + int (card (B e)) \<and>
        store_empty_count n = int (length (Y e))) \<and>
     (\<forall>e s. s \<in> set (Y e) \<longrightarrow> s \<notin> B e) \<and>
     (\<forall>e e' s. e \<noteq> e' \<longrightarrow> s \<in> set (Y e) \<union> B e \<longrightarrow> s \<notin> set (Y e') \<union> B e') \<and>
     (\<forall>e. E e = None \<longrightarrow> Y e = [] \<and> B e = {}) \<and>
     (\<forall>s. S s \<noteq> None \<longleftrightarrow> (\<exists>e. s \<in> set (Y e) \<union> B e))"

definition store_pool :: "(addr \<Rightarrow> addr set) \<Rightarrow> 'u world \<Rightarrow> bool" where
  "store_pool B w \<longleftrightarrow> (\<exists>Y. store_lists Y B (cells (ends w)) (cells (stores w)))"

lemma lock_end_calm:
  assumes "calm (w_env w)" and "heap_ok (ends w)" and "cells (ends w) e = Some n" and "\<not> end_lock n"
  shows "lock_end e w = Inr (0, with_end e (n\<lparr>end_lock := pthreads (w_env w)\<rparr>) w)"
  using assms upd_end_ok [of w e n "end_lock_update (\<lambda>_. pthreads (w_env w))"]
  by (simp add: lock_end_def hget_ok fra_p_lock_calm)

lemma unlock_end_calm:
  assumes "calm (w_env w)" and "heap_ok (ends w)" and "cells (ends w) e = Some n"
    and "end_lock n = pthreads (w_env w)"
  shows "unlock_end e w = Inr (0, with_end e (n\<lparr>end_lock := False\<rparr>) w)"
  using assms upd_end_ok [of w e n "end_lock_update (\<lambda>_. False)"] fra_p_unlock_calm [OF assms(1)]
  by (simp add: unlock_end_def hget_ok)

lemma succeed_unlock_end_calm:
  assumes "calm (w_env w)" and "heap_ok (ends w)" and "cells (ends w) e = Some n"
    and "end_lock n = pthreads (w_env w)"
  shows "succeed_unlock_end e w = Inr (0, with_end e (n\<lparr>end_lock := False\<rparr>) w)"
  using unlock_end_calm [OF assms] by (simp add: succeed_unlock_end_def)

lemma user_with [simp]: "user (with_req r q w) = user w" "user (with_end e n w) = user w" "user (with_store a k w) = user w"
  by (simp_all add: with_req_def with_end_def with_store_def)

lemma with_simps [simp]:
  "cells (reqs (with_req r q w)) = (cells (reqs w))(r := Some q)"
  "ends (with_req r q w) = ends w" "stores (with_req r q w) = stores w"
  "cells (ends (with_end e n w)) = (cells (ends w))(e := Some n)"
  "reqs (with_end e n w) = reqs w" "stores (with_end e n w) = stores w"
  "cells (stores (with_store s k w)) = (cells (stores w))(s := Some k)"
  "reqs (with_store s k w) = reqs w" "ends (with_store s k w) = ends w"
  "brk (reqs (with_req r q w)) = brk (reqs w)" "brk (ends (with_end e n w)) = brk (ends w)"
  "brk (stores (with_store s k w)) = brk (stores w)"
  by (simp_all add: with_req_def with_end_def with_store_def)

lemma with_rest [simp]:
  "w_env (with_req r q w) = w_env w" "w_env (with_end e n w) = w_env w" "w_env (with_store s k w) = w_env w"
  "events (with_req r q w) = events w" "events (with_end e n w) = events w" "events (with_store s k w) = events w"
  "accepts (with_req r q w) = accepts w" "accepts (with_end e n w) = accepts w" "accepts (with_store s k w) = accepts w"
  "empty_req (with_req r q w) = empty_req w" "empty_req (with_end e n w) = empty_req w" "empty_req (with_store s k w) = empty_req w"
  "empty_count (with_req r q w) = empty_count w" "empty_count (with_end e n w) = empty_count w" "empty_count (with_store s k w) = empty_count w"
  "all_count (with_req r q w) = all_count w" "all_count (with_end e n w) = all_count w" "all_count (with_store s k w) = all_count w"
  "empty_req_lock (with_req r q w) = empty_req_lock w" "empty_req_lock (with_end e n w) = empty_req_lock w"
  "empty_req_lock (with_store s k w) = empty_req_lock w"
  "w_hooks (with_req r q w) = w_hooks w" "w_hooks (with_end e n w) = w_hooks w" "w_hooks (with_store s k w) = w_hooks w"
  "w_urls (with_req r q w) = w_urls w" "w_urls (with_end e n w) = w_urls w" "w_urls (with_store s k w) = w_urls w"
  "w_vars (with_req r q w) = w_vars w" "w_vars (with_end e n w) = w_vars w" "w_vars (with_store s k w) = w_vars w"
  by (simp_all add: with_req_def with_end_def with_store_def)

lemma heap_ok_with [simp]:
  "heap_ok (reqs w) \<Longrightarrow> cells (reqs w) r = Some q0 \<Longrightarrow> heap_ok (reqs (with_req r q w))"
  "heap_ok (ends w) \<Longrightarrow> cells (ends w) e = Some n0 \<Longrightarrow> heap_ok (ends (with_end e n w))"
  "heap_ok (stores w) \<Longrightarrow> cells (stores w) s = Some k0 \<Longrightarrow> heap_ok (stores (with_store s k w))"
  by (auto simp: with_req_def with_end_def with_store_def intro: heap_ok_upd)

section \<open>Hooks that succeed\<close>

definition succeeds :: "'u ctx \<Rightarrow> fnptr \<Rightarrow> bool" where
  "succeeds c f \<longleftrightarrow> (\<forall>r w. \<exists>u. call c f r w = Inr (0, w\<lparr>user := u\<rparr>))"

text \<open>The same for the callbacks \<open>fs\<close> in one state.\<close>

definition pass_at :: "'u ctx \<Rightarrow> fnptr list \<Rightarrow> addr \<Rightarrow> 'u world \<Rightarrow> bool" where
  "pass_at c fs r w \<longleftrightarrow> (\<forall>f \<in> set fs. \<forall>w'. same_lib w w' \<longrightarrow> (\<exists>u. call c f r w' = Inr (0, w'\<lparr>user := u\<rparr>)))"

lemma succeeds_pass_at: "\<forall>f \<in> set fs. succeeds c f \<Longrightarrow> pass_at c fs r w"
  by (simp add: succeeds_def pass_at_def)

lemma pass_at_tame: "pass_at c fs r w \<Longrightarrow> tame c True fs r w"
  unfolding pass_at_def tame_def by (metis (mono_tags))

lemma pass_at_same_lib: "pass_at c fs r w \<Longrightarrow> same_lib w w' \<Longrightarrow> pass_at c fs r w'"
  unfolding pass_at_def using same_lib_trans by blast

lemma run_hooks_pass:
  "pass_at c fs r w \<Longrightarrow>
   \<exists>w'. run_hooks c True fs r w = Inr (0, w') \<and> same_lib w w' \<and> events w' = events w @ map (\<lambda>f. Called f r) fs \<and>
     (fs = [] \<longrightarrow> user w' = user w)"
proof (induction fs arbitrary: w)
  case (Cons f fs)
  have "\<forall>w'. same_lib w w' \<longrightarrow> (\<exists>u. call c f r w' = Inr (0, w'\<lparr>user := u\<rparr>))"
    using Cons.prems by (simp add: pass_at_def)
  then obtain u where "call c f r (say (Called f r) w) = Inr (0, (say (Called f r) w)\<lparr>user := u\<rparr>)"
    using same_lib_say by blast
  moreover define w1 where "w1 = (say (Called f r) w)\<lparr>user := u\<rparr>"
  ultimately have 1: "call_hook c True f r w = Inr (0, w1)" by (simp add: call_hook_def)
  have s1: "same_lib w w1" "events w1 = events w @ [Called f r]"
    using same_lib_trans [OF same_lib_say same_lib_user] by (auto simp: w1_def say_def)
  have "pass_at c fs r w" using Cons.prems by (simp add: pass_at_def)
  then obtain w' where "run_hooks c True fs r w1 = Inr (0, w')" "same_lib w1 w'"
    "events w' = events w1 @ map (\<lambda>f. Called f r) fs"
    using Cons.IH [OF pass_at_same_lib [OF _ s1(1)]] by blast
  then show ?case using 1 s1 same_lib_trans [OF s1(1)] by (intro exI [of _ w']) auto
qed simp

section \<open>Moving stores between the list and the requests\<close>

definition mine :: "(addr \<Rightarrow> addr list) \<Rightarrow> (addr \<Rightarrow> addr set) \<Rightarrow> addr \<Rightarrow> addr set" where
  "mine Y B e = set (Y e) \<union> B e"

lemma store_listsI:
  assumes "\<And>e n. E e = Some n \<Longrightarrow> chain s_next S (store_empty n) (Y e)"
    and "\<And>e n. E e = Some n \<Longrightarrow> finite (B e)"
    and "\<And>e n. E e = Some n \<Longrightarrow> store_all_count n = store_empty_count n + int (card (B e))"
    and "\<And>e n. E e = Some n \<Longrightarrow> store_empty_count n = int (length (Y e))"
    and "\<And>e s. s \<in> set (Y e) \<Longrightarrow> s \<notin> B e"
    and "\<And>e e' s. e \<noteq> e' \<Longrightarrow> s \<in> mine Y B e \<Longrightarrow> s \<notin> mine Y B e'"
    and "\<And>e. E e = None \<Longrightarrow> Y e = [] \<and> B e = {}"
    and "\<And>s. S s \<noteq> None \<longleftrightarrow> (\<exists>e. s \<in> mine Y B e)"
  shows "store_lists Y B E S"
  using assms unfolding store_lists_def mine_def by blast

lemma store_listsD:
  assumes "store_lists Y B E S"
  shows "\<And>e n. E e = Some n \<Longrightarrow> chain s_next S (store_empty n) (Y e)"
    and "\<And>e n. E e = Some n \<Longrightarrow> finite (B e)"
    and "\<And>e n. E e = Some n \<Longrightarrow> store_all_count n = store_empty_count n + int (card (B e))"
    and "\<And>e n. E e = Some n \<Longrightarrow> store_empty_count n = int (length (Y e))"
    and "\<And>e s. s \<in> set (Y e) \<Longrightarrow> s \<notin> B e"
    and "\<And>e e' s. e \<noteq> e' \<Longrightarrow> s \<in> mine Y B e \<Longrightarrow> s \<notin> mine Y B e'"
    and "\<And>e. E e = None \<Longrightarrow> Y e = [] \<and> B e = {}"
    and "\<And>s. S s \<noteq> None \<longleftrightarrow> (\<exists>e. s \<in> mine Y B e)"
  using assms unfolding store_lists_def mine_def by blast+

lemma store_lists_new:
  assumes p: "store_lists Y B E S" and e: "E e = Some n"
    and s: "S s = None"
  shows "store_lists Y (B(e := insert s (B e)))
    (E(e \<mapsto> n\<lparr>store_all_count := store_all_count n + 1\<rparr>)) (S(s \<mapsto> k))"
proof -
  note d = store_listsD [OF p]
  have out: "s \<notin> mine Y B e'" for e' using d(8) s by blast
  then have out': "s \<notin> set (Y e')" "s \<notin> B e'" for e' by (auto simp: mine_def)
  have ch: "chain s_next (S(s \<mapsto> k)) p (Y e') = chain s_next S p (Y e')" for e' p
    using out' by (intro chain_upd_other) auto
  have m: "mine Y (B(e := insert s (B e))) e' = (if e' = e then insert s (mine Y B e) else mine Y B e')" for e'
    by (simp add: mine_def)
  show ?thesis
  proof (rule store_listsI)
    show "(S(s \<mapsto> k)) x \<noteq> None \<longleftrightarrow> (\<exists>e'. x \<in> mine Y (B(e := insert s (B e))) e')" for x
      unfolding m using d(8) [of x] by auto
    show "x \<in> mine Y (B(e := insert s (B e))) e1 \<Longrightarrow> x \<notin> mine Y (B(e := insert s (B e))) e2" if "e1 \<noteq> e2" for x e1 e2
      unfolding m using d(6) [OF that, of x] out that by (auto split: if_splits)
    show "chain s_next (S(s \<mapsto> k)) (store_empty n0) (Y e')" if "(E(e \<mapsto> n\<lparr>store_all_count := store_all_count n + 1\<rparr>)) e' = Some n0" for e' n0
      using that ch d(1) [of e' n0] d(1) [OF e] by (cases "e' = e") auto
    show "finite ((B(e := insert s (B e))) e')" if "(E(e \<mapsto> n\<lparr>store_all_count := store_all_count n + 1\<rparr>)) e' = Some n0" for e' n0
      using that d(2) [of e' n0] d(2) [OF e] by (cases "e' = e") auto
    show "store_all_count n0 = store_empty_count n0 + int (card ((B(e := insert s (B e))) e'))" if "(E(e \<mapsto> n\<lparr>store_all_count := store_all_count n + 1\<rparr>)) e' = Some n0" for e' n0
      using that d(3) [of e' n0] d(3) [OF e] d(2) [OF e] out'(2) [of e] by (cases "e' = e") auto
    show "store_empty_count n0 = int (length (Y e'))" if "(E(e \<mapsto> n\<lparr>store_all_count := store_all_count n + 1\<rparr>)) e' = Some n0" for e' n0
      using that d(4) [of e' n0] d(4) [OF e] by (cases "e' = e") auto
    show "x \<in> set (Y e') \<Longrightarrow> x \<notin> (B(e := insert s (B e))) e'" for x e'
      using d(5) [of x e'] out'(1) [of e'] by (auto split: if_splits)
    show "Y e' = [] \<and> (B(e := insert s (B e))) e' = {}" if "(E(e \<mapsto> n\<lparr>store_all_count := store_all_count n + 1\<rparr>)) e' = None" for e'
      using that d(7) [of e'] by (cases "e' = e") auto
  qed
qed

lemma store_lists_take:
  assumes p: "store_lists Y B E S" and e: "E e = Some n" and z: "store_empty n \<noteq> 0"
  obtains k ys where "S (store_empty n) = Some k" and "Y e = store_empty n # ys" and
    "store_lists (Y(e := ys)) (B(e := insert (store_empty n) (B e)))
      (E(e \<mapsto> n\<lparr>store_empty := s_next k, store_empty_count := store_empty_count n - 1\<rparr>)) S"
proof -
  note d = store_listsD [OF p]
  note ch = d(1) [OF e]
  then obtain k ys where k: "S (store_empty n) = Some k" and y: "Y e = store_empty n # ys"
    and ch': "chain s_next S (s_next k) ys"
    using z by (auto simp: chain_nonnull)
  have ns: "store_empty n \<notin> set ys" using chain_distinct [OF ch] y by simp
  have nb: "store_empty n \<notin> B e" using d(5) [of "store_empty n" e] y by simp
  let ?Y = "Y(e := ys)" and ?B = "B(e := insert (store_empty n) (B e))"
  have m: "mine ?Y ?B e' = mine Y B e'" for e'
    by (auto simp: mine_def y)
  have "store_lists ?Y ?B
      (E(e \<mapsto> n\<lparr>store_empty := s_next k, store_empty_count := store_empty_count n - 1\<rparr>)) S"
  proof (rule store_listsI)
    show "S x \<noteq> None \<longleftrightarrow> (\<exists>e'. x \<in> mine ?Y ?B e')" for x unfolding m by (rule d(8))
    show "x \<in> mine ?Y ?B e1 \<Longrightarrow> x \<notin> mine ?Y ?B e2" if "e1 \<noteq> e2" for x e1 e2
      unfolding m by (rule d(6) [OF that])
    show "x \<in> set (?Y e') \<Longrightarrow> x \<notin> ?B e'" for x e'
      using d(5) [of x e'] ns y by (auto split: if_splits)
    show "chain s_next S (store_empty n0) (?Y e')" if "(E(e \<mapsto> n\<lparr>store_empty := s_next k, store_empty_count := store_empty_count n - 1\<rparr>)) e' = Some n0" for e' n0
      using that ch' d(1) [of e' n0] by (cases "e' = e") auto
    show "finite (?B e')" if "(E(e \<mapsto> n\<lparr>store_empty := s_next k, store_empty_count := store_empty_count n - 1\<rparr>)) e' = Some n0" for e' n0
      using that d(2) [of e' n0] d(2) [OF e] by (cases "e' = e") auto
    show "store_all_count n0 = store_empty_count n0 + int (card (?B e'))" if "(E(e \<mapsto> n\<lparr>store_empty := s_next k, store_empty_count := store_empty_count n - 1\<rparr>)) e' = Some n0" for e' n0
      using that d(3) [of e' n0] d(3) [OF e] d(2) [OF e] nb by (cases "e' = e") auto
    show "store_empty_count n0 = int (length (?Y e'))" if "(E(e \<mapsto> n\<lparr>store_empty := s_next k, store_empty_count := store_empty_count n - 1\<rparr>)) e' = Some n0" for e' n0
      using that d(4) [of e' n0] d(4) [OF e] y by (cases "e' = e") auto
    show "?Y e' = [] \<and> ?B e' = {}" if "(E(e \<mapsto> n\<lparr>store_empty := s_next k, store_empty_count := store_empty_count n - 1\<rparr>)) e' = None" for e'
      using that d(7) [of e'] by (cases "e' = e") auto
  qed
  with k y that show ?thesis by blast
qed

lemma store_lists_put:
  assumes p: "store_lists Y B E S" and e: "E e = Some n" and s: "s \<in> B e" and nz: "s \<noteq> 0"
  obtains k where "S s = Some k" and
    "store_lists (Y(e := s # Y e)) (B(e := B e - {s}))
      (E(e \<mapsto> n\<lparr>store_empty := s, store_empty_count := store_empty_count n + 1\<rparr>))
      (S(s \<mapsto> k\<lparr>s_next := store_empty n\<rparr>))"
proof -
  note d = store_listsD [OF p]
  have se: "s \<in> mine Y B e" using s by (simp add: mine_def)
  then obtain k where k: "S s = Some k" using d(8) [of s] by blast
  have out: "s \<notin> set (Y e')" for e'
    using d(5) [of s e'] d(6) [of e e' s] s se by (cases "e' = e") (auto simp: mine_def)
  have outB: "s \<notin> B e'" if "e' \<noteq> e" for e'
    using d(6) [of e e' s] se that by (auto simp: mine_def)
  have ch: "chain s_next (S(s \<mapsto> k\<lparr>s_next := store_empty n\<rparr>)) p (Y e') = chain s_next S p (Y e')" for e' p
    using out by (intro chain_upd_other) auto
  have c: "card (B e) = Suc (card (B e - {s}))" using d(2) [OF e] s by (rule card.remove)
  let ?Y = "Y(e := s # Y e)" and ?B = "B(e := B e - {s})"
  have m: "mine ?Y ?B e' = mine Y B e'" for e' using s by (auto simp: mine_def)
  have "store_lists ?Y ?B (E(e \<mapsto> n\<lparr>store_empty := s, store_empty_count := store_empty_count n + 1\<rparr>))
      (S(s \<mapsto> k\<lparr>s_next := store_empty n\<rparr>))"
  proof (rule store_listsI)
    show "(S(s \<mapsto> k\<lparr>s_next := store_empty n\<rparr>)) x \<noteq> None \<longleftrightarrow> (\<exists>e'. x \<in> mine ?Y ?B e')" for x
      unfolding m using d(8) [of x] se by auto
    show "x \<in> mine ?Y ?B e1 \<Longrightarrow> x \<notin> mine ?Y ?B e2" if "e1 \<noteq> e2" for x e1 e2
      unfolding m by (rule d(6) [OF that])
    show "x \<in> set (?Y e') \<Longrightarrow> x \<notin> ?B e'" for x e'
      using d(5) [of x e'] by (auto split: if_splits)
    show "chain s_next (S(s \<mapsto> k\<lparr>s_next := store_empty n\<rparr>)) (store_empty n0) (?Y e')" if "(E(e \<mapsto> n\<lparr>store_empty := s, store_empty_count := store_empty_count n + 1\<rparr>)) e' = Some n0" for e' n0
      using that ch d(1) [of e' n0] d(1) [OF e] nz by (cases "e' = e") auto
    show "finite (?B e')" if "(E(e \<mapsto> n\<lparr>store_empty := s, store_empty_count := store_empty_count n + 1\<rparr>)) e' = Some n0" for e' n0
      using that d(2) [of e' n0] d(2) [OF e] by (cases "e' = e") auto
    show "store_all_count n0 = store_empty_count n0 + int (card (?B e'))" if "(E(e \<mapsto> n\<lparr>store_empty := s, store_empty_count := store_empty_count n + 1\<rparr>)) e' = Some n0" for e' n0
      using that d(3) [of e' n0] d(3) [OF e] c by (cases "e' = e") auto
    show "store_empty_count n0 = int (length (?Y e'))" if "(E(e \<mapsto> n\<lparr>store_empty := s, store_empty_count := store_empty_count n + 1\<rparr>)) e' = Some n0" for e' n0
      using that d(4) [of e' n0] d(4) [OF e] by (cases "e' = e") auto
    show "?Y e' = [] \<and> ?B e' = {}" if "(E(e \<mapsto> n\<lparr>store_empty := s, store_empty_count := store_empty_count n + 1\<rparr>)) e' = None" for e'
      using that d(7) [of e'] by (cases "e' = e") auto
  qed
  with k that show ?thesis by blast
qed

lemma store_lists_counts:
  assumes "store_lists Y B E S" and "E e = Some n"
  shows "over_growth (store_all_count n) (store_empty_count n) = False"
  using store_listsD(3,4) [OF assms(1) assms(2)] by (simp add: over_growth_never)

section \<open>The operations on stores\<close>

text \<open>What a successful operation on the stores of the request \<open>r\<close> leaves alone.\<close>

definition store_frame :: "addr \<Rightarrow> 'u world \<Rightarrow> 'u world \<Rightarrow> bool" where
  "store_frame r w w' \<longleftrightarrow> frame w w' \<and> brk (reqs w') = brk (reqs w) \<and>
     (\<forall>a. a \<noteq> r \<longrightarrow> cells (reqs w') a = cells (reqs w) a) \<and>
     empty_req w' = empty_req w \<and> empty_count w' = empty_count w \<and> all_count w' = all_count w \<and>
     accepts w' = accepts w \<and> empty_req_lock w' = empty_req_lock w"

lemma steadyD:
  assumes "steady c w"
  shows "calm (w_env w)" "hooks_ok c w" "heap_ok (reqs w)" "heap_ok (ends w)" "heap_ok (stores w)"
    "\<And>e n. cells (ends w) e = Some n \<Longrightarrow> \<not> end_lock n"
    "\<And>e n. cells (ends w) e = Some n \<Longrightarrow> unat sizeof_end_store \<le> unat (sizeof_end_store + store_size n)"
    "routes_ready (bs c) (w_urls w)" "\<And>k e. routes (urls (w_urls w)) k = Some e \<Longrightarrow> cells (ends w) e \<noteq> None"
    "\<not> glob_store_map_lock (w_vars w)"
    "unat (sizeof_req c) \<le> unat (sizeof_req c + glob_store_size (w_vars w))"
  using assms unfolding steady_def by blast+

lemma steady_mid:
  assumes "steady c w" and "frame w w'" and "heap_ok (ends w')"
  shows "hooks_ok c w'" and "calm (w_env w')"
  using assms frame_hooks_ok by (auto simp: steady_def frame_def)

lemma req_hooks_pass:
  assumes "hooks_ok c w" and "heap_ok (ends w)" and "heap_ok (reqs w)"
    and q: "cells (reqs w) r = Some q" and "endpoint q \<noteq> 0 \<longrightarrow> cells (ends w) (endpoint q) \<noteq> None"
    and "0 \<le> type" and "type < FRA_HOOK_COUNT" and hk: "pass_at c (req_fns w (endpoint q) type) r w"
  obtains w' where "fra_p_req_hook_execute c r type w = Inr (0, w')" and "same_lib w w'"
    and "events w' = events w @ map (\<lambda>f. Called f r) (req_fns w (endpoint q) type)"
    and "req_fns w (endpoint q) type = [] \<longrightarrow> user w' = user w"
  using run_hooks_pass [OF hk]
    req_hook_execute_runs [OF pass_at_tame [OF hk] assms(1,2) heap_ok_nonnull [OF assms(3) q] q assms(5-7)] that
  by auto

lemmas req_hooks_succeed = req_hooks_pass [OF _ _ _ _ _ _ _ succeeds_pass_at]

lemma all_count_update: "store_all_count_update f n = n\<lparr>store_all_count := f (store_all_count n)\<rparr>"
  by (cases n) simp

lemma end_store_set_ok:
  assumes st: "steady c w" and pool: "store_pool B w"
    and q: "cells (reqs w) r = Some q" and e: "endpoint q = e" and n: "cells (ends w) e = Some n"
    and hk: "\<forall>f \<in> set (req_fns w e FRA_END_STORE_CREATED). succeeds c f"
  shows "\<exists>s w'. fra_p_end_store_set c r w = Inr (0, w') \<and> store_frame r w w' \<and> steady c w' \<and>
    store_pool (B(e := insert s (B e))) w' \<and> s \<noteq> 0 \<and> s \<notin> B e \<and>
    cells (reqs w') r = Some (q\<lparr>endpoint_store := s\<rparr>) \<and>
    (store_empty n \<noteq> 0 \<or> req_fns w e FRA_END_STORE_CREATED = [] \<longrightarrow> user w' = user w) \<and>
    events w' = events w @ (if store_empty n = 0
      then map (\<lambda>f. Called f r) (req_fns w e FRA_END_STORE_CREATED) else [])"
proof -
  note calm = steadyD(1) [OF st] and hr = steadyD(3) [OF st] and he = steadyD(4) [OF st]
    and hs = steadyD(5) [OF st] and lk = steadyD(6) [OF st n] and size = steadyD(7) [OF st n]
  have nz: "r \<noteq> 0" "e \<noteq> 0" using heap_ok_nonnull [OF hr q] heap_ok_nonnull [OF he n] by simp_all
  obtain Y where Y: "store_lists Y B (cells (ends w)) (cells (stores w))"
    using pool by (auto simp: store_pool_def)
  let ?pt = "pthreads (w_env w)"
  define w1 where "w1 = with_end e (n\<lparr>end_lock := ?pt\<rparr>) w"
  have lock: "lock_end e w = Inr (0, w1)"
    unfolding w1_def by (rule lock_end_calm [OF calm he n lk])
  have he1: "heap_ok (ends w1)" using he n by (simp add: w1_def)
  show ?thesis
  proof (cases "store_empty n = 0")
    case True
    define cur where "cur = brk (stores w)"
    define k where "k = \<lparr>s_next = 0, s_bytes = unat (sizeof_end_store + store_size n) - unat sizeof_end_store\<rparr>"
    define h where "h = (stores w)\<lparr>cells := (cells (stores w))(cur \<mapsto> k), brk := Suc cur\<rparr>"
    have new: "hnew k (stores w) = (cur, h)" by (simp add: hnew_def h_def cur_def)
    define w3 where "w3 = with_req r (q\<lparr>endpoint_store := cur\<rparr>) (w1\<lparr>stores := h\<rparr>)"
    have f3: "frame w w3"
      using frame_with_end [OF n, of "n\<lparr>end_lock := ?pt\<rparr>"] 
      by (auto simp: w3_def w1_def end_core_def intro!: frame_trans [OF _ frame_with(1)] frame_trans [OF _ frame_with(4)])
    have he3: "heap_ok (ends w3)" and hr3: "heap_ok (reqs w3)" and hs3: "heap_ok (stores w3)"
      using he1 hr q heap_ok_hnew [OF hs new] by (auto simp: w3_def w1_def with_req_def with_end_def intro: heap_ok_upd)
    have q3: "cells (reqs w3) r = Some (q\<lparr>endpoint_store := cur\<rparr>)" by (simp add: w3_def)
    have n3: "cells (ends w3) e = Some (n\<lparr>end_lock := ?pt\<rparr>)" by (simp add: w3_def w1_def)
    obtain w4 where hooks: "fra_p_req_hook_execute c r FRA_END_STORE_CREATED w3 = Inr (0, w4)" and s4: "same_lib w3 w4"
      and ev4: "events w4 = events w3 @ map (\<lambda>f. Called f r) (req_fns w e FRA_END_STORE_CREATED)"
      and us4: "req_fns w e FRA_END_STORE_CREATED = [] \<longrightarrow> user w4 = user w3"
      using req_hooks_succeed [OF steady_mid(1) [OF st f3 he3] he3 hr3 q3, of FRA_END_STORE_CREATED]
        hk n3 e frame_hooks [OF f3] by (auto simp: FRA_END_STORE_CREATED_def FRA_HOOK_COUNT_def)
    note same4 = same_lib_fields [OF s4]
    let ?n5 = "n\<lparr>end_lock := ?pt, store_all_count := store_all_count n + 1\<rparr>"
    let ?n6 = "n\<lparr>store_all_count := store_all_count n + 1\<rparr>"
    define w5 where "w5 = with_end e ?n5 w4"
    define w6 where "w6 = with_end e ?n6 w5"
    have he4: "heap_ok (ends w4)" and n4: "cells (ends w4) e = Some (n\<lparr>end_lock := ?pt\<rparr>)" using he3 n3 same4 by simp_all
    have env4: "w_env w4 = w_env w" using f3 same4 by (simp add: frame_def)
    have u5: "upd_end e (store_all_count_update (\<lambda>n. n + 1)) w4 = Inr w5"
      using upd_end_ok [OF he4 n4] by (simp add: w5_def all_count_update [of "\<lambda>n. n + 1"])
    have he5: "heap_ok (ends w5)" using he4 n4 by (simp add: w5_def)
    have "succeed_unlock_end e w5 = Inr (0, with_end e (?n5\<lparr>end_lock := False\<rparr>) w5)"
      using calm env4 by (intro succeed_unlock_end_calm) (simp_all add: w5_def he5 [unfolded w5_def])
    moreover have "?n5\<lparr>end_lock := False\<rparr> = ?n6" using lk by simp
    ultimately have u6: "succeed_unlock_end e w5 = Inr (0, w6)" by (simp add: w6_def)
    have g1: "hget e (ends w1) = Inr (n\<lparr>end_lock := ?pt\<rparr>)"
      using he1 by (intro hget_ok) (simp_all add: w1_def)
    have d1: "w_draw w1 = (True, w1)" using calm by (simp add: w_draw_def draw_calm w1_def)
    have m1: "malloc_bytes sizeof_end_store (store_size n) = Inr (s_bytes k)" using size by (simp add: malloc_bytes_def k_def)
    have new1: "hnew \<lparr>s_next = 0, s_bytes = s_bytes k\<rparr> (stores w1) = (cur, h)"
      using new by (simp add: k_def w1_def)
    have r1: "upd_req r (endpoint_store_update (\<lambda>_. cur)) (w1\<lparr>stores := h\<rparr>) = Inr w3"
      using upd_req_ok [of "w1\<lparr>stores := h\<rparr>" r q] hr q by (simp add: w3_def w1_def)
    have run: "fra_p_end_store_set c r w = Inr (0, w6)"
      using nz e True by (simp add: fra_p_end_store_set_def hget_ok [OF hr q] lock g1 d1 m1 new1 r1 hooks u5 u6)
    have n6: "cells (ends w6) = (cells (ends w))(e \<mapsto> ?n6)"
      using same4 by (simp add: w6_def w5_def w3_def w1_def)
    have r6: "reqs w6 = reqs w3" and s6: "stores w6 = h"
      using same4 by (simp_all add: w6_def w5_def w3_def w1_def)
    have "frame w w6"
    proof -
      have "frame w3 w4" by (rule same_lib_frame [OF s4])
      moreover have "frame w4 w5" unfolding w5_def by (rule frame_with_end [OF n4]) (simp add: end_core_def)
      moreover have "frame w5 w6" unfolding w6_def by (rule frame_with_end [where n = ?n5]) (simp_all add: end_core_def w5_def)
      ultimately show ?thesis using f3 frame_trans by blast
    qed
    moreover have "store_pool (B(e := insert cur (B e))) w6"
    proof -
      have "cells (stores w) cur = None" using hs by (auto simp: cur_def heap_ok_def)
      from store_lists_new [OF Y n this, of k] show ?thesis
        by (auto simp: store_pool_def n6 s6 h_def)
    qed
    moreover have "steady c w6"
    proof (rule steady_frame [OF \<open>frame w w6\<close> st])
      show "heap_ok (reqs w6)" using hr3 r6 by simp
      show "heap_ok (stores w6)" using hs3 s6 by (simp add: w3_def)
      show "heap_ok (ends w6)" using he5 unfolding w6_def by (rule heap_ok_with(2)) (simp add: w5_def)
      show "\<forall>e n. cells (ends w6) e = Some n \<longrightarrow> \<not> end_lock n" using steadyD(6) [OF st] lk by (auto simp: n6)
    qed
    moreover have "cur \<noteq> 0" using hs by (simp add: cur_def heap_ok_def)
    moreover have "cur \<notin> B e"
    proof -
      have "cells (stores w) cur = None" using hs by (auto simp: cur_def heap_ok_def)
      then show ?thesis using store_listsD(8) [OF Y, of cur] by (auto simp: mine_def)
    qed
    ultimately show ?thesis
      using run r6 ev4 us4 True same4
      by (intro exI [of _ cur] exI [of _ w6] conjI) (simp_all add: store_frame_def w6_def w5_def w3_def w1_def)
  next
    case False
    then obtain k ys where k: "cells (stores w) (store_empty n) = Some k" and y: "Y e = store_empty n # ys"
      and Y': "store_lists (Y(e := ys)) (B(e := insert (store_empty n) (B e)))
        ((cells (ends w))(e \<mapsto> n\<lparr>store_empty := s_next k, store_empty_count := store_empty_count n - 1\<rparr>)) (cells (stores w))"
      using store_lists_take [OF Y n] by blast
    define s where "s = store_empty n"
    have s: "s \<noteq> 0" "s \<notin> B e" using False store_listsD(5) [OF Y, of s e] y by (simp_all add: s_def)
    define w3 where "w3 = with_req r (q\<lparr>endpoint_store := s\<rparr>) w1"
    let ?n5 = "n\<lparr>end_lock := ?pt, store_empty := s_next k, store_empty_count := store_empty_count n - 1\<rparr>"
    let ?n6 = "n\<lparr>store_empty := s_next k, store_empty_count := store_empty_count n - 1\<rparr>"
    define w5 where "w5 = with_end e ?n5 w3"
    define w6 where "w6 = with_end e ?n6 w5"
    have g1: "hget e (ends w1) = Inr (n\<lparr>end_lock := ?pt\<rparr>)"
      using he1 by (intro hget_ok) (simp_all add: w1_def)
    have r1: "upd_req r (endpoint_store_update (\<lambda>_. s)) w1 = Inr w3"
      using upd_req_ok [of w1 r q] hr q by (simp add: w3_def w1_def)
    have g3: "hget s (stores w3) = Inr k" using hs k by (intro hget_ok) (simp_all add: w3_def w1_def s_def)
    have he3: "heap_ok (ends w3)" using he1 by (simp add: w3_def)
    have u5: "upd_end e (\<lambda>n. n\<lparr>store_empty := s_next k, store_empty_count := store_empty_count n - 1\<rparr>) w3 = Inr w5"
      using upd_end_ok [OF he3, of e "n\<lparr>end_lock := ?pt\<rparr>"] by (simp add: w5_def w3_def w1_def)
    have he5: "heap_ok (ends w5)" unfolding w5_def using he3 by (rule heap_ok_with(2)) (simp add: w3_def w1_def)
    have env5: "w_env w5 = w_env w" by (simp add: w5_def w3_def w1_def)
    have "succeed_unlock_end e w5 = Inr (0, with_end e (?n5\<lparr>end_lock := False\<rparr>) w5)"
      using calm env5 he5 by (intro succeed_unlock_end_calm) (simp_all add: w5_def)
    moreover have "?n5\<lparr>end_lock := False\<rparr> = ?n6" using lk by simp
    ultimately have u6: "succeed_unlock_end e w5 = Inr (0, w6)" by (simp add: w6_def)
    have run: "fra_p_end_store_set c r w = Inr (0, w6)"
      using nz e False s by (simp add: fra_p_end_store_set_def hget_ok [OF hr q] lock g1 r1 g3 u5 u6 flip: s_def)
    have n6: "cells (ends w6) = (cells (ends w))(e \<mapsto> ?n6)" by (simp add: w6_def w5_def w3_def w1_def)
    have "frame w w6"
    proof -
      have "frame w w1" unfolding w1_def by (rule frame_with_end [OF n]) (simp add: end_core_def)
      moreover have "frame w1 w3" by (simp add: w3_def)
      moreover have "frame w3 w5" unfolding w5_def
        by (rule frame_with_end [where n = "n\<lparr>end_lock := ?pt\<rparr>"]) (simp_all add: end_core_def w3_def w1_def)
      moreover have "frame w5 w6" unfolding w6_def by (rule frame_with_end [where n = ?n5]) (simp_all add: end_core_def w5_def)
      ultimately show ?thesis using frame_trans by blast
    qed
    moreover have "store_pool (B(e := insert s (B e))) w6"
      using Y' by (auto simp: store_pool_def n6 s_def w6_def w5_def w3_def w1_def)
    moreover have "steady c w6"
    proof (rule steady_frame [OF \<open>frame w w6\<close> st])
      show "heap_ok (reqs w6)" using hr q by (simp add: w6_def w5_def w3_def w1_def)
      show "heap_ok (stores w6)" using hs by (simp add: w6_def w5_def w3_def w1_def)
      show "heap_ok (ends w6)" using he5 unfolding w6_def by (rule heap_ok_with(2)) (simp add: w5_def)
      show "\<forall>e n. cells (ends w6) e = Some n \<longrightarrow> \<not> end_lock n" using steadyD(6) [OF st] lk by (auto simp: n6)
    qed
    ultimately show ?thesis
      using run s False
      by (intro exI [of _ s] exI [of _ w6] conjI) (simp_all add: store_frame_def w6_def w5_def w3_def w1_def)
  qed
qed

lemma store_frame_evolves:
  "store_frame r w w' \<Longrightarrow> cells (reqs w) r = Some q0 \<Longrightarrow> cells (reqs w') r = Some q \<Longrightarrow> req_store q = req_store q0 \<Longrightarrow> evolves w w'"
  unfolding store_frame_def by (elim conjE) (rule evolves_upd, auto)

lemma end_store_maybe_free_ok:
  assumes st: "steady c w" and pool: "store_pool B w"
    and q: "cells (reqs w) r = Some q" and e: "endpoint q = e" and n: "cells (ends w) e = Some n"
    and s: "endpoint_store q = s" "s \<in> B e" "s \<noteq> 0"
  shows "\<exists>w'. fra_p_end_store_maybe_free c r w = Inr (0, w') \<and> store_frame r w w' \<and> steady c w' \<and>
    store_pool (B(e := B e - {s})) w' \<and> reqs w' = reqs w \<and> events w' = events w \<and> user w' = user w"
proof -
  note calm = steadyD(1) [OF st] and hr = steadyD(3) [OF st] and he = steadyD(4) [OF st]
    and hs = steadyD(5) [OF st] and lk = steadyD(6) [OF st n]
  have nz: "r \<noteq> 0" "e \<noteq> 0" using heap_ok_nonnull [OF hr q] heap_ok_nonnull [OF he n] by simp_all
  obtain Y where Y: "store_lists Y B (cells (ends w)) (cells (stores w))"
    using pool by (auto simp: store_pool_def)
  obtain k where k: "cells (stores w) s = Some k" and
    Y': "store_lists (Y(e := s # Y e)) (B(e := B e - {s}))
      ((cells (ends w))(e \<mapsto> n\<lparr>store_empty := s, store_empty_count := store_empty_count n + 1\<rparr>))
      ((cells (stores w))(s \<mapsto> k\<lparr>s_next := store_empty n\<rparr>))"
    using store_lists_put [OF Y n s(2,3)] by blast
  let ?pt = "pthreads (w_env w)"
  define w1 where "w1 = with_end e (n\<lparr>end_lock := ?pt\<rparr>) w"
  have lock: "lock_end e w = Inr (0, w1)"
    unfolding w1_def by (rule lock_end_calm [OF calm he n lk])
  have he1: "heap_ok (ends w1)" using he n by (simp add: w1_def)
  define w3 where "w3 = with_store s (k\<lparr>s_next := store_empty n\<rparr>) w1"
  let ?n5 = "n\<lparr>end_lock := ?pt, store_empty := s, store_empty_count := store_empty_count n + 1\<rparr>"
  let ?n6 = "n\<lparr>store_empty := s, store_empty_count := store_empty_count n + 1\<rparr>"
  define w5 where "w5 = with_end e ?n5 w3"
  define w6 where "w6 = with_end e ?n6 w5"
  have g0: "hget r (reqs w) = Inr q" "hget r (reqs w1) = Inr q" using hr q by (simp_all add: hget_ok w1_def)
  have g1: "hget e (ends w1) = Inr (n\<lparr>end_lock := ?pt\<rparr>)"
    using he1 by (intro hget_ok) (simp_all add: w1_def)
  have r1: "upd_store s (s_next_update (\<lambda>_. store_empty n)) w1 = Inr w3"
    using upd_store_ok [of w1 s k] hs k by (simp add: w3_def w1_def)
  have he3: "heap_ok (ends w3)" using he1 by (simp add: w3_def)
  have u5: "upd_end e (\<lambda>n. n\<lparr>store_empty := s, store_empty_count := store_empty_count n + 1\<rparr>) w3 = Inr w5"
    using upd_end_ok [OF he3, of e "n\<lparr>end_lock := ?pt\<rparr>"] by (simp add: w5_def w3_def w1_def)
  have he5: "heap_ok (ends w5)" unfolding w5_def using he3 by (rule heap_ok_with(2)) (simp add: w3_def w1_def)
  have env5: "w_env w5 = w_env w" by (simp add: w5_def w3_def w1_def)
  have "succeed_unlock_end e w5 = Inr (0, with_end e (?n5\<lparr>end_lock := False\<rparr>) w5)"
    using calm env5 he5 by (intro succeed_unlock_end_calm) (simp_all add: w5_def)
  moreover have "?n5\<lparr>end_lock := False\<rparr> = ?n6" using lk by simp
  ultimately have u6: "succeed_unlock_end e w5 = Inr (0, w6)" by (simp add: w6_def)
  have run: "fra_p_end_store_maybe_free c r w = Inr (0, w6)"
    using nz e s(1) by (simp add: fra_p_end_store_maybe_free_def g0 lock g1 r1 u5 u6 store_lists_counts [OF Y n])
  have n6: "cells (ends w6) = (cells (ends w))(e \<mapsto> ?n6)" by (simp add: w6_def w5_def w3_def w1_def)
  have "frame w w6"
  proof -
    have "frame w w1" unfolding w1_def by (rule frame_with_end [OF n]) (simp add: end_core_def)
    moreover have "frame w1 w3" by (simp add: w3_def)
    moreover have "frame w3 w5" unfolding w5_def
      by (rule frame_with_end [where n = "n\<lparr>end_lock := ?pt\<rparr>"]) (simp_all add: end_core_def w3_def w1_def)
    moreover have "frame w5 w6" unfolding w6_def by (rule frame_with_end [where n = ?n5]) (simp_all add: end_core_def w5_def)
    ultimately show ?thesis using frame_trans by blast
  qed
  moreover have "store_pool (B(e := B e - {s})) w6"
    using Y' by (auto simp: store_pool_def n6 w6_def w5_def w3_def w1_def)
  moreover have "steady c w6"
  proof (rule steady_frame [OF \<open>frame w w6\<close> st])
    show "heap_ok (reqs w6)" using hr by (simp add: w6_def w5_def w3_def w1_def)
    show "heap_ok (stores w6)" using hs k by (simp add: w6_def w5_def w3_def w1_def)
    show "heap_ok (ends w6)" using he5 unfolding w6_def by (rule heap_ok_with(2)) (simp add: w5_def)
    show "\<forall>e n. cells (ends w6) e = Some n \<longrightarrow> \<not> end_lock n" using steadyD(6) [OF st] lk by (auto simp: n6)
  qed
  ultimately show ?thesis
    using run
    by (intro exI [of _ w6] conjI) (simp_all add: store_frame_def w6_def w5_def w3_def w1_def)
qed

section \<open>The operations on requests\<close>

lemma req_pool_counts: "req_pool R w \<Longrightarrow> over_growth (all_count w) (empty_count w) = False"
  using over_growth_never [of "empty_count w" "all_count w"] by (auto simp: req_pool_def)

lemma lock_empty_req_calm:
  "calm (w_env w) \<Longrightarrow> \<not> empty_req_lock w \<Longrightarrow>
   lock_empty_req w = Inr (0, w\<lparr>empty_req_lock := pthreads (w_env w)\<rparr>)"
  by (simp add: lock_empty_req_def fra_p_lock_calm)

lemma unlock_empty_req_calm:
  "calm (w_env w) \<Longrightarrow> empty_req_lock w = pthreads (w_env w) \<Longrightarrow>
   unlock_empty_req w = Inr (0, w\<lparr>empty_req_lock := False\<rparr>)"
  by (simp add: unlock_empty_req_def fra_p_unlock_calm)

text \<open>A change to a request in use, or to anything else, leaves the cache as it is.\<close>

lemma req_pool_frame:
  assumes "req_pool R w" and "empty_req w' = empty_req w" and "empty_count w' = empty_count w"
    and "all_count w' = all_count w"
    and "\<And>a. a \<notin> R \<Longrightarrow> cells (reqs w') a = cells (reqs w) a"
    and "\<And>a. a \<in> R \<Longrightarrow> cells (reqs w') a \<noteq> None"
  shows "req_pool R w'"
proof -
  obtain xs where xs: "chain req_next (cells (reqs w)) (empty_req w) xs" "set xs \<inter> R = {}"
    "dom (cells (reqs w)) = set xs \<union> R"
    and cnt: "finite R" "all_count w = empty_count w + int (card R)" "int (length xs) \<le> empty_count w"
    using assms(1) by (auto simp: req_pool_def)
  have "chain req_next (cells (reqs w')) (empty_req w) xs = chain req_next (cells (reqs w)) (empty_req w) xs"
    using xs(2) assms(5) by (intro chain_cong) (auto simp: disjoint_iff)
  moreover have "dom (cells (reqs w')) = dom (cells (reqs w))"
  proof -
    have "cells (reqs w') a = None \<longleftrightarrow> cells (reqs w) a = None" for a
      using assms(5,6) [of a] xs(3) by (cases "a \<in> R") auto
    then show ?thesis by (auto simp: dom_def)
  qed
  ultimately show ?thesis using xs cnt assms(2-4) by (auto simp: req_pool_def)
qed

lemma req_pool_new:
  assumes "req_pool R w" and "cells (reqs w) r = None"
    and "cells (reqs w') = (cells (reqs w))(r \<mapsto> q)" and "empty_req w' = empty_req w"
    and "empty_count w' = empty_count w" and "all_count w' = all_count w + 1"
  shows "req_pool (insert r R) w'" and "r \<notin> R"
proof -
  obtain xs where xs: "chain req_next (cells (reqs w)) (empty_req w) xs" "set xs \<inter> R = {}" "dom (cells (reqs w)) = set xs \<union> R"
    and cnt: "finite R" "all_count w = empty_count w + int (card R)" "int (length xs) \<le> empty_count w"
    using assms(1) by (auto simp: req_pool_def)
  have r: "r \<notin> set xs" "r \<notin> R" using xs(3) assms(2) by auto
  then show "req_pool (insert r R) w'" and "r \<notin> R"
    using xs cnt assms(3-6) by (auto simp: req_pool_def chain_upd_other intro!: exI [of _ xs])
qed

lemma req_pool_pop:
  assumes "req_pool R w" and "empty_req w \<noteq> 0"
  obtains q where "cells (reqs w) (empty_req w) = Some q" and "empty_req w \<notin> R" and
    "req_pool (insert (empty_req w) R) (w\<lparr>empty_req := req_next q, empty_count := empty_count w - 1\<rparr>)"
proof -
  obtain xs where xs: "chain req_next (cells (reqs w)) (empty_req w) xs" "set xs \<inter> R = {}" "dom (cells (reqs w)) = set xs \<union> R"
    and cnt: "finite R" "all_count w = empty_count w + int (card R)" "int (length xs) \<le> empty_count w"
    using assms(1) by (auto simp: req_pool_def)
  obtain q ys where y: "xs = empty_req w # ys" and q: "cells (reqs w) (empty_req w) = Some q"
    and ch: "chain req_next (cells (reqs w)) (req_next q) ys"
    using xs(1) assms(2) by (auto simp: chain_nonnull)
  have r: "empty_req w \<notin> set ys" "empty_req w \<notin> R" using chain_distinct [OF xs(1)] xs(2) y by auto
  then have "req_pool (insert (empty_req w) R) (w\<lparr>empty_req := req_next q, empty_count := empty_count w - 1\<rparr>)"
    using ch xs(2,3) cnt y unfolding req_pool_def by (intro conjI exI [of _ ys]) auto
  with q r(2) that show ?thesis by blast
qed

lemma req_pool_push:
  assumes "req_pool R w" and "r \<in> R" and q: "cells (reqs w) r = Some q" and "heap_ok (reqs w)"
    and "cells (reqs w') = (cells (reqs w))(r \<mapsto> q\<lparr>req_next := empty_req w\<rparr>)" and "empty_req w' = r"
    and "empty_count w' = empty_count w + 1" and "all_count w' = all_count w"
  shows "req_pool (R - {r}) w'"
proof -
  obtain xs where xs: "chain req_next (cells (reqs w)) (empty_req w) xs" "set xs \<inter> R = {}"
    "dom (cells (reqs w)) = set xs \<union> R"
    and cnt: "finite R" "all_count w = empty_count w + int (card R)" "int (length xs) \<le> empty_count w"
    using assms(1) by (auto simp: req_pool_def)
  have "r \<notin> set xs" "r \<noteq> 0" using heap_ok_nonnull [OF assms(4) q] xs(2) assms(2) by auto
  then have "chain req_next (cells (reqs w')) r (r # xs)"
    using xs(1) assms(5) by (auto simp: chain_upd_other)
  moreover have "dom (cells (reqs w')) = set (r # xs) \<union> (R - {r})" using xs(3) assms(2,5) by auto
  moreover have "card R = Suc (card (R - {r}))" using cnt(1) assms(2) by (metis card_Suc_Diff1)
  ultimately show ?thesis
    using xs(2) assms(2) cnt assms(6-8) unfolding req_pool_def by (intro conjI exI [of _ "r # xs"]) auto
qed

lemma steady_same:
  assumes "steady c w" and "frame w w'" and "heap_ok (reqs w')" and "ends w' = ends w" and "stores w' = stores w"
  shows "steady c w'"
  using assms steadyD(4,5,6) [OF assms(1)] by (intro steady_frame [OF assms(2,1)]) auto

lemma unat_add_minus: "unat (a :: u64) \<le> unat (a + b) \<Longrightarrow> unat (a + b) - unat a = unat b"
  using unsigned_less [of b, where ?'a = nat] by (auto simp: unat_plus_if' split: if_splits)

lemma get_req_ok:
  assumes st: "steady c w" and lk: "\<not> empty_req_lock w" and pool: "req_pool R w"
    and hk: "\<forall>f \<in> set (req_fns w 0 FRA_REQ_CREATED). succeeds c f" and jk: "\<forall>a. endpoint (junk c a) = 0"
  shows "\<exists>r w'. get_req c w = Inr (r, w') \<and> r \<noteq> 0 \<and> frame w w' \<and> steady c w' \<and> \<not> empty_req_lock w' \<and>
    req_pool (insert r R) w' \<and> r \<notin> R \<and> (\<forall>a. a \<noteq> r \<longrightarrow> cells (reqs w') a = cells (reqs w) a) \<and>
    cells (reqs w') r \<noteq> None \<and> evolves w w' \<and>
    ends w' = ends w \<and> stores w' = stores w \<and> accepts w' = accepts w \<and>
    (req_fns w 0 FRA_REQ_CREATED = [] \<longrightarrow> user w' = user w) \<and>
    events w' = events w @ (if empty_req w = 0 then map (\<lambda>f. Called f r) (req_fns w 0 FRA_REQ_CREATED) else [])"
proof -
  note calm = steadyD(1) [OF st] and hr = steadyD(3) [OF st] and he = steadyD(4) [OF st]
  let ?pt = "pthreads (w_env w)"
  define w1 where "w1 = w\<lparr>empty_req_lock := ?pt\<rparr>"
  have lock: "lock_empty_req w = Inr (0, w1)" unfolding w1_def by (rule lock_empty_req_calm [OF calm lk])
  show ?thesis
  proof (cases "empty_req w = 0")
    case True
    define g where "g = glob_store_size (w_vars w)"
    have sz: "fra_p_var_store_size_get (w_vars w1) (w_env w1) = Inr (g, 0, w_vars w1, w_env w1)"
      using steadyD(10) [OF st] calm
      by (simp add: fra_p_var_store_size_get_def fra_p_lock_calm fra_p_unlock_calm w1_def g_def)
    have d1: "w_draw w1 = (True, w1)" using calm by (simp add: w_draw_def draw_calm w1_def)
    define k where "k = unat (sizeof_req c + g) - unat (sizeof_req c)"
    have m1: "malloc_bytes (sizeof_req c) g = Inr k"
      using steadyD(11) [OF st] by (simp add: malloc_bytes_def k_def g_def)
    define r where "r = brk (reqs w)"
    define q where "q = (junk c r)\<lparr>req_store := k\<rparr>"
    define h where "h = (reqs w)\<lparr>cells := (cells (reqs w))(r \<mapsto> q), brk := Suc r\<rparr>"
    have new: "hnew q (reqs w1) = (r, h)" by (simp add: hnew_def h_def r_def w1_def)
    define w2 where "w2 = w1\<lparr>reqs := h\<rparr>"
    have h2: "heap_ok (reqs w2)" using heap_ok_hnew [OF hr, of q r h] new by (simp add: w2_def w1_def)
    have f2: "frame w w2" by (simp add: frame_def w2_def w1_def)
    have q2: "cells (reqs w2) r = Some q" "endpoint q = 0" using jk by (simp_all add: w2_def h_def q_def)
    obtain w3 where hooks: "fra_p_req_hook_execute c r FRA_REQ_CREATED w2 = Inr (0, w3)" and s3: "same_lib w2 w3"
      and ev3: "events w3 = events w2 @ map (\<lambda>f. Called f r) (req_fns w 0 FRA_REQ_CREATED)"
      and us3: "req_fns w 0 FRA_REQ_CREATED = [] \<longrightarrow> user w3 = user w2"
      using req_hooks_succeed [OF steady_mid(1) [OF st f2] _ h2 q2(1), of FRA_REQ_CREATED] he hk q2(2) frame_hooks [OF f2]
      by (auto simp: w2_def w1_def FRA_REQ_CREATED_def FRA_HOOK_COUNT_def)
    note same3 = same_lib_fields [OF s3]
    define w5 where "w5 = w3\<lparr>all_count := all_count w3 + 1, empty_req_lock := False\<rparr>"
    have "get_req_return r (w3\<lparr>all_count := all_count w3 + 1\<rparr>) = Inr (r, w5)"
      using unlock_empty_req_calm [of "w3\<lparr>all_count := all_count w3 + 1\<rparr>"] calm
      by (simp add: get_req_return_def w5_def same3 w2_def w1_def)
    then have run: "get_req c w = Inr (r, w5)"
      using True new m1 hooks
      by (simp add: get_req_def lock sz d1 w2_def r_def q_def) (simp add: w1_def r_def q_def)
    have r5: "reqs w5 = h" by (simp add: w5_def same3 w2_def)
    have f5: "frame w w5" using f2 same3 by (simp add: frame_def w5_def)
    have "r \<noteq> 0" and fresh: "cells (reqs w) r = None" using hr by (auto simp: r_def heap_ok_def)
    moreover have "req_pool (insert r R) w5" "r \<notin> R"
      by (rule req_pool_new [OF pool fresh, of w5 q]; simp add: r5 h_def w5_def same3 w2_def w1_def)+
    moreover have "steady c w5"
      using h2 by (intro steady_same [OF st f5]) (simp_all add: r5 w2_def w5_def same3 w1_def)
    moreover have "evolves w w5"
      using f5 unat_add_minus [of "sizeof_req c" g] steadyD(11) [OF st]
      by (simp add: evolves_def r5 h_def q_def k_def flip: g_def)
    ultimately show ?thesis
      using run f5 ev3 us3 True by (intro exI [of _ r] exI [of _ w5] conjI) (simp_all add: r5 h_def, simp_all add: w5_def same3 w2_def w1_def)
  next
    case False
    obtain q where q: "cells (reqs w) (empty_req w) = Some q" and nr: "empty_req w \<notin> R" and
      p: "req_pool (insert (empty_req w) R) (w\<lparr>empty_req := req_next q, empty_count := empty_count w - 1\<rparr>)"
      using req_pool_pop [OF pool False] by blast
    define w5 where "w5 = w\<lparr>empty_req := req_next q, empty_count := empty_count w - 1, empty_req_lock := False\<rparr>"
    have "get_req_return (empty_req w) (w1\<lparr>empty_req := req_next q, empty_count := empty_count w - 1\<rparr>) =
        Inr (empty_req w, w5)"
      using unlock_empty_req_calm [of "w1\<lparr>empty_req := req_next q, empty_count := empty_count w - 1\<rparr>"] calm
      by (simp add: get_req_return_def w5_def w1_def)
    then have run: "get_req c w = Inr (empty_req w, w5)"
      using False hget_ok [OF hr q] by (simp add: get_req_def lock) (simp add: w1_def)
    have f5: "frame w w5" by (simp add: frame_def w5_def)
    have "req_pool (insert (empty_req w) R) w5" using p by (simp add: req_pool_def w5_def)
    moreover have "steady c w5" using hr by (intro steady_same [OF st f5]) (simp_all add: w5_def)
    moreover have "evolves w w5" by (rule evolves_same [OF f5]) (simp add: w5_def)
    ultimately show ?thesis
      using run f5 False q nr by (intro exI [of _ "empty_req w"] exI [of _ w5] conjI) (simp_all add: w5_def)
  qed
qed

section \<open>Idle and busy\<close>

text \<open>Between two requests nothing is in use; while \<open>r\<close> is handled it is, and when it has an
  endpoint so is one store of the endpoint.\<close>

definition idle :: "'u ctx \<Rightarrow> 'u world \<Rightarrow> bool" where
  "idle c w \<longleftrightarrow> steady c w \<and> \<not> empty_req_lock w \<and> req_pool {} w \<and> store_pool (\<lambda>_. {}) w"

definition held :: "fra_req \<Rightarrow> 'u world \<Rightarrow> bool" where
  "held q w \<longleftrightarrow> (if endpoint q = 0 then store_pool (\<lambda>_. {}) w
     else cells (ends w) (endpoint q) \<noteq> None \<and> endpoint_store q \<noteq> 0 \<and>
       store_pool ((\<lambda>_. {})(endpoint q := {endpoint_store q})) w)"

definition busy :: "'u ctx \<Rightarrow> addr \<Rightarrow> fra_req \<Rightarrow> 'u world \<Rightarrow> bool" where
  "busy c r q w \<longleftrightarrow> steady c w \<and> \<not> empty_req_lock w \<and> req_pool {r} w \<and>
     cells (reqs w) r = Some q \<and> held q w"

text \<open>Giving back the request \<open>r\<close>, and the store of its endpoint if it has one, while others are in use.\<close>

lemma req_put_back:
  assumes st: "steady c w" and lk: "\<not> empty_req_lock w" and pool: "req_pool R w" and r: "r \<in> R"
    and q: "cells (reqs w) r = Some q" and sp: "store_pool B w"
    and s: "endpoint q \<noteq> 0 \<Longrightarrow> cells (ends w) (endpoint q) \<noteq> None \<and> endpoint_store q \<noteq> 0 \<and> endpoint_store q \<in> B (endpoint q)"
  shows "\<exists>w'. req_maybe_free c r w = Inr (0, w') \<and> frame w w' \<and> steady c w' \<and> \<not> empty_req_lock w' \<and> req_pool (R - {r}) w' \<and>
    store_pool (if endpoint q = 0 then B else B(endpoint q := B (endpoint q) - {endpoint_store q})) w' \<and>
    (\<forall>a. a \<noteq> r \<longrightarrow> cells (reqs w') a = cells (reqs w) a) \<and>
    accepts w' = accepts w \<and> events w' = events w \<and> evolves w w' \<and> user w' = user w"
proof -
  let ?B = "if endpoint q = 0 then B else B(endpoint q := B (endpoint q) - {endpoint_store q})"
  note calm = steadyD(1) [OF st] and hr = steadyD(3) [OF st]
  define w1 where "w1 = w\<lparr>empty_req_lock := pthreads (w_env w)\<rparr>"
  have lock: "lock_empty_req w = Inr (0, w1)" unfolding w1_def by (rule lock_empty_req_calm [OF calm lk])
  have st1: "steady c w1" using hr by (intro steady_same [OF st]) (simp_all add: w1_def)
  have q1: "cells (reqs w1) r = Some q" using q by (simp add: w1_def)
  have "\<exists>w2. fra_p_end_store_maybe_free c r w1 = Inr (0, w2) \<and> store_frame r w1 w2 \<and> steady c w2 \<and>
    store_pool ?B w2 \<and> reqs w2 = reqs w1 \<and> events w2 = events w1 \<and> user w2 = user w1"
  proof (cases "endpoint q = 0")
    case True
    have "fra_p_end_store_maybe_free c r w1 = Inr (0, w1)"
      using True heap_ok_nonnull [OF hr q] hget_ok [OF steadyD(3) [OF st1] q1]
      by (simp add: fra_p_end_store_maybe_free_def)
    then show ?thesis
      using st1 sp True by (intro exI [of _ w1]) (simp add: store_frame_def store_pool_def w1_def)
  next
    case False
    then obtain n where n: "cells (ends w1) (endpoint q) = Some n" and s: "endpoint_store q \<in> B (endpoint q)" "endpoint_store q \<noteq> 0"
      and p: "store_pool B w1"
      using s sp by (auto simp: store_pool_def w1_def)
    from end_store_maybe_free_ok [OF st1 p q1 refl n refl s] False show ?thesis by auto
  qed
  then obtain w2 where free: "fra_p_end_store_maybe_free c r w1 = Inr (0, w2)" and f2: "store_frame r w1 w2"
    and st2: "steady c w2" and p2: "store_pool ?B w2" and r2: "reqs w2 = reqs w1" and ev2: "events w2 = events w1" "user w2 = user w1"
    by blast
  have c2: "over_growth (all_count w2) (empty_count w2) = False"
    using req_pool_counts [OF pool] f2 by (simp add: store_frame_def w1_def)
  define w3 where "w3 = with_req r (q\<lparr>req_next := empty_req w2\<rparr>) w2"
  have u3: "upd_req r (req_next_update (\<lambda>_. empty_req w2)) w2 = Inr w3"
    using upd_req_ok [of w2 r q] hr q by (simp add: w3_def r2 w1_def)
  define w5 where "w5 = w3\<lparr>empty_req := r, empty_count := empty_count w3 + 1, empty_req_lock := False\<rparr>"
  have env2: "w_env w2 = w_env w" "empty_req_lock w2 = pthreads (w_env w)"
    using f2 by (simp_all add: store_frame_def frame_def w1_def)
  have "unlock_empty_req (w3\<lparr>empty_req := r, empty_count := empty_count w3 + 1\<rparr>) = Inr (0, w5)"
    using unlock_empty_req_calm [of "w3\<lparr>empty_req := r, empty_count := empty_count w3 + 1\<rparr>"] calm env2
    by (simp add: w5_def w3_def)
  then have run: "req_maybe_free c r w = Inr (0, w5)"
    by (simp add: req_maybe_free_def lock free c2 u3)
  have f5: "frame w w5"
    using f2 by (simp add: store_frame_def frame_def w5_def w3_def w1_def with_req_def)
  have e5: "ends w5 = ends w2" "stores w5 = stores w2" "reqs w5 = reqs w3" by (simp_all add: w5_def w3_def)
  have r3: "cells (reqs w3) = (cells (reqs w))(r \<mapsto> q\<lparr>req_next := empty_req w\<rparr>)"
    using f2 by (simp add: w3_def r2 store_frame_def w1_def)
  have "req_pool (R - {r}) w5"
    by (rule req_pool_push [OF pool r q hr])
      (use f2 r3 in \<open>simp_all add: e5 w5_def store_frame_def w3_def w1_def\<close>)
  moreover have "steady c w5"
  proof (rule steady_frame [OF f5 st])
    show "heap_ok (reqs w5)" using hr q r2 by (simp add: e5 w3_def w1_def)
    show "heap_ok (ends w5)" "heap_ok (stores w5)" using steadyD(4,5) [OF st2] by (simp_all add: e5)
    show "\<forall>e n. cells (ends w5) e = Some n \<longrightarrow> \<not> end_lock n" using steadyD(6) [OF st2] by (simp add: e5)
  qed
  moreover have "store_pool ?B w5" using p2 by (simp add: store_pool_def e5 split del: if_split)
  moreover have "evolves w w5" by (rule evolves_upd [OF f5 q]) (simp_all add: e5 r3)
  moreover have "\<forall>a. a \<noteq> r \<longrightarrow> cells (reqs w5) a = cells (reqs w) a" by (simp add: e5 r3)
  moreover have "\<not> empty_req_lock w5" "accepts w5 = accepts w" "events w5 = events w" "user w5 = user w"
    using ev2 f2 by (simp_all add: w5_def w3_def store_frame_def w1_def)
  ultimately show ?thesis using run f5 by blast
qed

lemma req_maybe_free_ok:
  assumes "busy c r q w"
  shows "\<exists>w'. req_maybe_free c r w = Inr (0, w') \<and> frame w w' \<and> idle c w' \<and> accepts w' = accepts w \<and>
    events w' = events w \<and> evolves w w' \<and> user w' = user w"
proof -
  from assms have st: "steady c w" and lk: "\<not> empty_req_lock w" and pool: "req_pool {r} w"
    and q: "cells (reqs w) r = Some q" and held: "held q w"
    by (simp_all add: busy_def)
  let ?B = "if endpoint q = 0 then \<lambda>_. {} else (\<lambda>_. {})(endpoint q := {endpoint_store q})"
  have sp: "store_pool ?B w" and s: "endpoint q \<noteq> 0 \<Longrightarrow> cells (ends w) (endpoint q) \<noteq> None \<and> endpoint_store q \<noteq> 0 \<and>
      endpoint_store q \<in> ?B (endpoint q)"
    using held by (auto simp: held_def)
  have "(if endpoint q = 0 then ?B else ?B(endpoint q := ?B (endpoint q) - {endpoint_store q})) = (\<lambda>_. {})" by auto
  with req_put_back [OF st lk pool _ q sp s] show ?thesis by (auto simp: idle_def)
qed

section \<open>Small steps while a request is handled\<close>

lemma busy_same_lib:
  assumes "busy c r q w" and "same_lib w w'"
  shows "busy c r q w'"
proof -
  note same = same_lib_fields [OF assms(2)]
  have "steady c w'"
    using assms(1) same by (intro steady_same [OF _ same_lib_frame [OF assms(2)]]) (auto simp: busy_def steady_def)
  then show ?thesis
    using assms(1) same unfolding busy_def req_pool_def held_def store_pool_def by simp
qed

lemma busy_with_req:
  assumes "busy c r q w" and "endpoint q' = endpoint q" and "endpoint_store q' = endpoint_store q"
  shows "busy c r q' (with_req r q' w)"
proof -
  from assms(1) have q: "cells (reqs w) r = Some q" and st: "steady c w" and p: "req_pool {r} w"
    by (simp_all add: busy_def)
  have "steady c (with_req r q' w)"
    using steadyD(3) [OF st] q by (intro steady_same [OF st]) simp_all
  moreover have "req_pool {r} (with_req r q' w)" by (rule req_pool_frame [OF p]) auto
  moreover have "held q' (with_req r q' w)"
    using assms by (simp add: busy_def held_def store_pool_def split: if_splits)
  ultimately show ?thesis using assms by (simp add: busy_def)
qed

lemma busy_accepts: "busy c r q w \<Longrightarrow> busy c r q (w\<lparr>accepts := a\<rparr>)"
proof -
  assume b: "busy c r q w"
  then have st: "steady c w" by (simp add: busy_def)
  have "steady c (w\<lparr>accepts := a\<rparr>)"
    by (rule steady_same [OF st]) (use steadyD(3) [OF st] in \<open>simp_all add: frame_def\<close>)
  moreover have "held q (w\<lparr>accepts := a\<rparr>)"
    using b by (simp add: busy_def held_def store_pool_def split: if_splits)
  ultimately show ?thesis using b by (simp add: busy_def req_pool_def)
qed

end
