(* ===== verification/Sample.thy ===== *)
theory Sample
  imports Pool
begin

text \<open>
  A concrete program that uses the library, to show that the assumptions of the properties can
  be met: one endpoint with a callback and one hook, no store yet and no request seen.
\<close>

text \<open>\<open>FCGX_GetParam\<close> looks for an entry \<open>name=value\<close> of the environment.\<close>

fun env_param :: "string \<Rightarrow> string list \<Rightarrow> string option" where
  "env_param key [] = None"
| "env_param key (s # env) =
     (if take (Suc (length key)) s = key @ ''='' then Some (drop (Suc (length key)) s) else env_param key env)"

definition blank :: tagbstring where
  "blank = \<lparr>mlen = 0, slen = 0, data = ''''\<rparr>"

text \<open>The callbacks count their calls; callback 13 fails.\<close>

definition demo_ctx :: "nat ctx" where
  "demo_ctx = \<lparr>bs = plain_bstr,
     call = (\<lambda>f r w. Inr (if f = 13 then 5 else 0, w\<lparr>user := Suc (user w)\<rparr>)),
     call_glob = (\<lambda>f w. Inr (0, w\<lparr>user := Suc (user w)\<rparr>)),
     call_fd = (\<lambda>f r ev w. Inr (0, w\<lparr>user := Suc (user w)\<rparr>)),
     get_param = env_param,
     junk = (\<lambda>a. \<lparr>fcgx_defined = False, envp = [], req_next = 0, req_store = 0, endpoint = 0, endpoint_store = 0,
       req_url = blank, base_url = blank, query_url = blank, req_verb = blank\<rparr>),
     sizeof_req = 400, handle_new_fn = 7, fuel = 10\<rparr>"

definition demo_hooks :: hook_globals where
  "demo_hooks = \<lparr>hookmem = \<lparr>cells = [1 \<mapsto> \<lparr>h_next = 0, h_callback = 12, h_priority = Fin 10\<rparr>], brk = 2\<rparr>,
     glob_hooks = Live [0], req_hooks = Live [0, 0, 0, 0, 1, 0, 0],
     glob_hooks_lock = False, req_hooks_lock = False\<rparr>"

definition demo_end :: fra_end where
  "demo_end = \<lparr>store_size = 8, end_map = Null, store_empty = 0, store_empty_count = 0, store_all_count = 0,
     hooks = Live [0, 0, 0, 0, 0, 0, 0], end_lock = False, callback = 11\<rparr>"

definition demo_env :: "string list" where
  "demo_env = [''REQUEST_METHOD=GET'', ''REQUEST_URI=/a?x=1'']"

definition demo_world :: "url_globals \<Rightarrow> nat world" where
  "demo_world g = \<lparr>w_env = quiet_env\<lparr>live := 20\<rparr>,
     w_vars = \<lparr>glob_store_map = Null, glob_store_size = 4, glob_store_map_lock = False\<rparr>, w_urls = g, w_hooks = demo_hooks,
     reqs = heap_empty, ends = \<lparr>cells = [1 \<mapsto> demo_end], brk = 2\<rparr>, stores = heap_empty,
     empty_req = 0, empty_count = 0, all_count = 0, empty_req_lock = False,
     w_poll = \<lparr>initialized = False, main_poll = Null, main_poll_len = 0, main_poll_max_len = 0,
       callbacks = Null, main_poll_lock = False, should_stop = False\<rparr>,
     accepts = [(0, demo_env)], polls = [], events = [], user = 0\<rparr>"

lemma demo_benign: "benign demo_ctx"
  unfolding benign_def demo_ctx_def by auto

lemma demo_succeeds: "f \<noteq> 13 \<Longrightarrow> succeeds demo_ctx f"
  by (auto simp: succeeds_def demo_ctx_def)

lemma one_hook_array:
  assumes "cells h = [1 \<mapsto> k]" and "brk h = 2" and "h_next k = 0" and "h_callback k \<noteq> 0"
    and a: "length a = n" "set a \<subseteq> {0, 1}"
  shows "array_ok (fuel demo_ctx) h (Live a) (int n)"
proof -
  have "heap_ok h" using assms(1,2) by (simp add: heap_ok_def)
  moreover have "\<exists>xs. chain h_next (cells h) (a ! t) xs \<and> length xs < 10 \<and> (\<forall>x \<in> set xs. fst (hook_val h x) \<noteq> 0)"
    if "t < length a" for t
  proof -
    from that a(2) have "a ! t = 0 \<or> a ! t = 1" using nth_mem by blast
    then show ?thesis
    proof
      assume "a ! t = 1"
      then show ?thesis using assms by (intro exI [of _ "[1]"]) (simp add: hook_val_def)
    qed (auto intro!: exI [of _ "[]"])
  qed
  ultimately show ?thesis using a(1) by (simp add: array_ok_def demo_ctx_def)
qed

text \<open>The same program with other hooks: one hook in all, and the arrays \<open>ra\<close> of the requests and \<open>ea\<close> of
  the endpoint.\<close>

definition sample_world :: "hook_globals \<Rightarrow> addr list \<Rightarrow> url_globals \<Rightarrow> nat world" where
  "sample_world hk ea g = (demo_world g)\<lparr>w_hooks := hk, ends := \<lparr>cells = [1 \<mapsto> demo_end\<lparr>hooks := Live ea\<rparr>], brk = 2\<rparr>\<rparr>"

lemma demo_sample: "demo_world g = sample_world demo_hooks [0, 0, 0, 0, 0, 0, 0] g"
  by (simp add: sample_world_def demo_world_def demo_end_def)

definition one_hook :: "hook \<Rightarrow> addr list \<Rightarrow> hook_globals" where
  "one_hook k ra = \<lparr>hookmem = \<lparr>cells = [1 \<mapsto> k], brk = 2\<rparr>, glob_hooks = Live [0], req_hooks = Live ra,
     glob_hooks_lock = False, req_hooks_lock = False\<rparr>"

lemma sample_hooks_ok:
  assumes "h_next k = 0" and "h_callback k \<noteq> 0" and "length ra = 7" "set ra \<subseteq> {0, 1}" "length ea = 7" "set ea \<subseteq> {0, 1}"
  shows "hooks_ok demo_ctx (sample_world (one_hook k ra) ea g)"
proof -
  let ?w = "sample_world (one_hook k ra) ea g"
  have w: "w_hooks ?w = one_hook k ra" "w_env ?w = quiet_env\<lparr>live := 20\<rparr>"
    and cell: "cells (ends ?w) e = Some n \<Longrightarrow> hooks n = Live ea" for e n
    by (auto simp: sample_world_def demo_world_def split: if_splits)
  have arr: "length a = n \<Longrightarrow> set a \<subseteq> {0, 1} \<Longrightarrow> array_ok (fuel demo_ctx) (hookmem (one_hook k ra)) (Live a) (int n)" for a n
    by (rule one_hook_array [where k = k]) (simp_all add: one_hook_def assms(1,2))
  have arrays: "glob_hooks (one_hook k ra) = Live [0]" "req_hooks (one_hook k ra) = Live ra" by (simp_all add: one_hook_def)
  have ready: "hook_lock_ready l ?w" for l by (simp add: hook_lock_ready_def w quiet_env_def)
  show ?thesis
    unfolding hooks_ok_def w arrays FRA_HOOK_COUNT_def FRA_GLOB_HOOK_COUNT_def
    using arr [of "[0]" 1] arr [of ra 7] arr [of ea 7] assms(3-6)
    by (auto simp: ready dest!: cell simp del: One_nat_def)
qed

lemma sample_idle:
  assumes "routes_ready plain_bstr g" and "routes (urls g) = [(''/a'', ''GET'') \<mapsto> 1]" and "hooks_ok demo_ctx (sample_world hk ea g)"
  shows "idle demo_ctx (sample_world hk ea g)"
proof -
  let ?w = "sample_world hk ea g"
  have "steady demo_ctx ?w"
    using assms unfolding steady_def
    by (auto simp: sample_world_def demo_world_def demo_ctx_def demo_end_def quiet_env_def calm_def heap_ok_def heap_empty_def
        sizeof_end_store_def split: if_splits)
  moreover have "req_pool {} ?w" by (simp add: req_pool_def sample_world_def demo_world_def heap_empty_def)
  moreover have "store_lists (\<lambda>_. []) (\<lambda>_. {}) (cells (ends ?w)) (cells (stores ?w))"
    by (simp add: store_lists_def sample_world_def demo_world_def heap_empty_def demo_end_def)
  ultimately show ?thesis unfolding idle_def store_pool_def by (auto simp: sample_world_def demo_world_def)
qed

lemma demo_hooks_ok: "hooks_ok demo_ctx (demo_world g)"
proof -
  have eq: "demo_hooks = one_hook \<lparr>h_next = 0, h_callback = 12, h_priority = Fin 10\<rparr> [0, 0, 0, 0, 1, 0, 0]"
    by (simp add: demo_hooks_def one_hook_def)
  show ?thesis unfolding demo_sample eq by (rule sample_hooks_ok) simp_all
qed

lemma demo_routes: "\<exists>g. routes_ready plain_bstr g \<and> routes (urls g) = [(''/a'', ''GET'') \<mapsto> 1]"
proof -
  let ?g0 = "no_urls\<lparr>urls := Live url_table0\<rparr>"
  have np: "\<not> pthreads quiet_env" by (simp add: quiet_env_def)
  have empty: "routes (Live url_table0) = Map.empty"
    by (rule url_init_ok [OF np init_no_urls]) (simp add: no_urls_def)
  obtain t v where t: "route_entry plain_bstr (Live url_table0) (''/a'', ''GET'') 1 quiet_env = Inr (0, t, v)"
    and ready: "routes_ready plain_bstr (?g0\<lparr>urls := t\<rparr>)"
    using url_add_ok [OF no_urls_ready, of quiet_env "''/a''" 1 "''GET''"]
    by (auto simp: FRA_CORE_MAX_ENDPOINT_LENGTH_def)
  have "table_inv plain_bstr (Live url_table0)" using no_urls_ready by (simp add: routes_ready_def)
  from route.reg_ok [OF this t] have "routes t = [(''/a'', ''GET'') \<mapsto> 1]"
    by (simp add: empty first_wins_def)
  with ready show ?thesis by (intro exI [of _ "?g0\<lparr>urls := t\<rparr>"]) simp
qed

lemma demo_idle:
  assumes "routes_ready plain_bstr g" and "routes (urls g) = [(''/a'', ''GET'') \<mapsto> 1]"
  shows "idle demo_ctx (demo_world g)"
  unfolding demo_sample by (rule sample_idle [OF assms]) (rule demo_hooks_ok [unfolded demo_sample])

section \<open>Witnesses for the hooks\<close>

text \<open>The demo world with a fresh request at address 1.\<close>

definition demo_req :: fra_req where
  "demo_req = junk demo_ctx 1"


end
