(* ===== verification/Serve.thy ===== *)
theory Serve
  imports Sample
begin

text \<open>
  What \<open>fra_p_req_handle_new\<close> guarantees to the web server and to itself: with callbacks that
  leave the library alone, every call takes exactly one request, answers it exactly once and
  leaves the library as it found it, with all requests and stores back in their caches.
\<close>

section \<open>The dialogue with the web server\<close>

fun is_fcgx :: "event \<Rightarrow> bool" where
  "is_fcgx (Called f r) = False"
| "is_fcgx (Called_glob f) = False"
| "is_fcgx (Called_fd f r ev) = False"
| "is_fcgx _ = True"

definition fcgx_log :: "'u world \<Rightarrow> event list" where
  "fcgx_log w = filter is_fcgx (events w)"

definition answered :: "'u ctx \<Rightarrow> addr \<Rightarrow> 'u world \<Rightarrow> (int \<times> 'u world) outcome \<Rightarrow> bool" where
  "answered c r w res \<longleftrightarrow> (\<exists>rc w'. res = Inr (rc, w') \<and> frame w w' \<and> idle c w' \<and> accepts w' = accepts w \<and>
     (rc = 0 \<and> fcgx_log w' = fcgx_log w @ [FCGX_Finish_r (Some r)] \<or>
      rc = - 1 \<and> fcgx_log w' = fcgx_log w @ [FCGX_FPrintF (Some r) error_page, FCGX_Finish_r (Some r)]))"

lemma answeredI:
  "res = Inr (rc, w') \<Longrightarrow> frame w w' \<Longrightarrow> idle c w' \<Longrightarrow> accepts w' = accepts w \<Longrightarrow>
   rc = 0 \<and> fcgx_log w' = fcgx_log w @ [FCGX_Finish_r (Some r)] \<or>
   rc = - 1 \<and> fcgx_log w' = fcgx_log w @ [FCGX_FPrintF (Some r) error_page, FCGX_Finish_r (Some r)] \<Longrightarrow>
   answered c r w res"
  unfolding answered_def by blast

lemma answered_from:
  "answered c r w1 res \<Longrightarrow> frame w w1 \<Longrightarrow> accepts w1 = accepts w \<Longrightarrow> fcgx_log w1 = fcgx_log w \<Longrightarrow>
   answered c r w res"
  unfolding answered_def by (elim exE conjE) (simp add: frame_trans)

lemma busy_say: "busy c r q w \<Longrightarrow> busy c r q (say e w)"
  by (rule busy_same_lib [OF _ same_lib_say])

lemma fcgx_cleanup_runs:
  assumes "busy c r q w"
  obtains w' where "fcgx_cleanup c r w = Inr (- 1, w')" and "frame w w'" and "idle c w'" and "accepts w' = accepts w"
    and "fcgx_log w' = fcgx_log w @ [FCGX_FPrintF (Some r) error_page, FCGX_Finish_r (Some r)]"
    and "events w' = events w @ [FCGX_FPrintF (Some r) error_page, FCGX_Finish_r (Some r)]"
proof -
  let ?w1 = "say (FCGX_Finish_r (Some r)) (say (FCGX_FPrintF (Some r) error_page) w)"
  have "busy c r q ?w1" using assms by (intro busy_say)
  from req_maybe_free_ok [OF this] obtain w' where run: "req_maybe_free c r ?w1 = Inr (0, w')"
    and w': "frame ?w1 w'" "idle c w'" "accepts w' = accepts ?w1" "events w' = events ?w1" by blast
  have "fcgx_cleanup c r w = Inr (- 1, w')"
    by (simp add: fcgx_cleanup_def req_cleanup_def final_cleanup_def run)
  from that [OF this] w' show ?thesis by (simp add: frame_def say_def fcgx_log_def)
qed

lemma fcgx_cleanup_answers:
  assumes "busy c r q w"
  shows "answered c r w (fcgx_cleanup c r w)"
  by (rule fcgx_cleanup_runs [OF assms]) (simp add: answered_def)

lemma finish_answers:
  assumes "busy c r q w"
  shows "answered c r w (finish_req c r w)"
proof -
  let ?w1 = "say (FCGX_Finish_r (Some r)) w"
  from req_maybe_free_ok [OF busy_say [OF assms]] obtain w' where run: "req_maybe_free c r ?w1 = Inr (0, w')"
    and w': "frame ?w1 w'" "idle c w'" "accepts w' = accepts ?w1" "events w' = events ?w1" by blast
  have "finish_req c r w = Inr (0, w')" by (simp add: finish_req_def run)
  then show ?thesis
    by (rule answeredI) (use w' in \<open>simp_all add: frame_def say_def fcgx_log_def\<close>)
qed

lemma or_cleanup_answers:
  assumes "m = Inr (rc, w1)" and "frame w w1" and "accepts w1 = accepts w" and "fcgx_log w1 = fcgx_log w"
    and "rc \<noteq> 0 \<Longrightarrow> \<exists>q. busy c r q w1" and "rc = 0 \<Longrightarrow> answered c r w1 (k w1)"
  shows "answered c r w (or_fcgx_cleanup c r m k)"
proof (cases "rc = 0")
  case True
  with assms show ?thesis by (auto simp: or_fcgx_cleanup_def intro: answered_from)
next
  case False
  with assms(5) obtain q where "busy c r q w1" by blast
  from answered_from [OF fcgx_cleanup_answers [OF this] assms(2-4)] False assms(1) show ?thesis
    by (simp add: or_fcgx_cleanup_def)
qed

section \<open>The stages\<close>

lemma hooks_stage:
  assumes b: "benign c" and busy: "busy c r q w" and ty: "0 \<le> type" "type < FRA_HOOK_COUNT"
  obtains rc w' where "fra_p_req_hook_execute c r type w = Inr (rc, w')" and "busy c r q w'"
    and "frame w w'" and "accepts w' = accepts w" and "fcgx_log w' = fcgx_log w" and "ends w' = ends w"
proof -
  from busy have st: "steady c w" and q: "cells (reqs w) r = Some q"
    and e: "endpoint q \<noteq> 0 \<longrightarrow> cells (ends w) (endpoint q) \<noteq> None"
    by (auto simp: busy_def held_def)
  have run: "fra_p_req_hook_execute c r type w = run_hooks c True (req_fns w (endpoint q) type) r w"
    using st ty by (intro req_hook_execute_runs benign_tame [OF b] steadyD [OF st] heap_ok_nonnull [OF steadyD(3) [OF st] q] q e)
  obtain rc w' gs where "run_hooks c True (req_fns w (endpoint q) type) r w = Inr (rc, w')" "same_lib w w'"
    "events w' = events w @ map (\<lambda>f. Called f r) gs"
    using run_hooks_benign [OF b, of True "req_fns w (endpoint q) type" r w] by auto
  moreover from this have "fcgx_log w' = fcgx_log w" by (simp add: fcgx_log_def filter_empty_conv)
  ultimately show ?thesis
    using that [of rc w'] run busy_same_lib [OF busy, of w'] same_lib_frame [of w w'] same_lib_fields [of w w']
    by simp
qed

lemma accept_stage:
  assumes "busy c r q w" and "endpoint q = 0" and "accepts w = (arc, env) # rest"
  obtains rc q' w' where "accept_req c r w = Inr (rc, w')" and "busy c r q' w'" and "endpoint q' = 0"
    and "frame w w'" and "accepts w' = rest" and "ends w' = ends w"
    and "fcgx_log w' = fcgx_log w @ [FCGX_InitRequest (Some r), FCGX_Accept_r (Some r) arc]"
    and "rc = (if arc < 0 then - 1 else 0)"
    and "arc \<ge> 0 \<Longrightarrow> envp q' = env"
proof -
  let ?w0 = "say (FCGX_InitRequest (Some r)) w"
  from assms(1) have q: "cells (reqs w) r = Some q" and st: "steady c w" by (simp_all add: busy_def)
  let ?q1 = "q\<lparr>envp := []\<rparr>"
  define w1 where "w1 = with_req r ?q1 ?w0"
  have u1: "upd_req r (envp_update (\<lambda>_. [])) ?w0 = Inr w1"
    using upd_req_ok [of ?w0 r q] steadyD(3) [OF st] q by (simp add: w1_def say_def)
  have b1: "busy c r ?q1 w1" unfolding w1_def by (rule busy_with_req [OF busy_say [OF assms(1)]]) simp_all
  define w2 where "w2 = say (FCGX_Accept_r (Some r) arc) (w1\<lparr>accepts := rest\<rparr>)"
  have a2: "accept_r (Some r) w1 = Inr (arc, env, w2)"
    using assms(3) by (simp add: accept_r_def w2_def w1_def say_def with_req_def)
  have b2: "busy c r ?q1 w2" unfolding w2_def by (intro busy_say busy_accepts b1)
  have f2: "frame w w2" by (simp add: frame_def w2_def w1_def say_def with_req_def)
  have log2: "fcgx_log w2 = fcgx_log w @ [FCGX_InitRequest (Some r), FCGX_Accept_r (Some r) arc]"
    by (simp add: fcgx_log_def w2_def w1_def say_def with_req_def)
  have e2: "ends w2 = ends w" "accepts w2 = rest" by (simp_all add: w2_def w1_def say_def with_req_def)
  show ?thesis
  proof (cases "arc < 0")
    case True
    have "accept_req c r w = Inr (- 1, w2)" using True by (simp add: accept_req_def u1 a2)
    from that [OF this b2 _ f2 e2(2,1) log2] show ?thesis using True assms(2) by simp
  next
    case False
    let ?q3 = "?q1\<lparr>envp := env, fcgx_defined := True\<rparr>"
    define w3 where "w3 = with_req r ?q3 w2"
    have q2: "cells (reqs w2) r = Some ?q1" "heap_ok (reqs w2)"
      using b2 by (simp_all add: busy_def steady_def)
    have "upd_req r (\<lambda>q. q\<lparr>envp := env, fcgx_defined := True\<rparr>) w2 = Inr w3"
      using upd_req_ok [OF q2(2,1), of "\<lambda>q. q\<lparr>envp := env, fcgx_defined := True\<rparr>"] by (simp add: w3_def)
    then have run: "accept_req c r w = Inr (0, w3)" using False by (simp add: accept_req_def u1 a2)
    have "busy c r ?q3 w3" unfolding w3_def by (rule busy_with_req [OF b2]) simp_all
    from that [OF run this] show ?thesis
      using False f2 e2 log2 assms(2) by (simp add: w3_def frame_def with_req_def fcgx_log_def)
  qed
qed

lemma set_verb_stage:
  assumes "busy c r q w"
  obtains rc q' w' where "set_verb c r w = Inr (rc, w')" and "busy c r q' w'" and "endpoint q' = endpoint q"
    and "frame w w'" and "accepts w' = accepts w" and "ends w' = ends w" and "fcgx_log w' = fcgx_log w"
proof -
  from assms have q: "cells (reqs w) r = Some q" and st: "steady c w" by (simp_all add: busy_def)
  note g = hget_ok [OF steadyD(3) [OF st] q]
  show ?thesis
  proof (cases "set_param c ''REQUEST_METHOD'' FRA_CORE_MAX_VERB_LENGTH (envp q)")
    case None
    then have "set_verb c r w = Inr (- 1, w)" by (simp add: set_verb_def g)
    from that [OF this assms] show ?thesis by simp
  next
    case (Some t)
    then have "set_verb c r w = Inr (0, with_req r (q\<lparr>req_verb := t\<rparr>) w)"
      using upd_req_ok [OF steadyD(3) [OF st] q] by (simp add: set_verb_def g)
    from that [OF this busy_with_req [OF assms]] show ?thesis by (simp add: fcgx_log_def)
  qed
qed

lemma set_req_url_keeps:
  "set_req_url c q = (rc, q') \<Longrightarrow> endpoint q' = endpoint q \<and> endpoint_store q' = endpoint_store q \<and>
     req_verb q' = req_verb q \<and> envp q' = envp q"
  by (auto simp: set_req_url_def Let_def split: option.splits prod.splits if_splits)

lemma set_urls_stage:
  assumes "busy c r q w"
  obtains rc q' w' where "set_urls c r w = Inr (rc, w')" and "busy c r q' w'" and "set_req_url c q = (rc, q')"
    and "frame w w'" and "accepts w' = accepts w" and "ends w' = ends w" and "fcgx_log w' = fcgx_log w"
proof -
  from assms have q: "cells (reqs w) r = Some q" and st: "steady c w" by (simp_all add: busy_def)
  obtain rc q' where u: "set_req_url c q = (rc, q')" by (cases "set_req_url c q")
  have "set_urls c r w = Inr (rc, with_req r q' w)"
    using upd_req_ok [OF steadyD(3) [OF st] q] by (simp add: set_urls_def hget_ok [OF steadyD(3) [OF st] q] u)
  from that [OF this busy_with_req [OF assms] u] show ?thesis
    using set_req_url_keeps [OF u] by (simp add: fcgx_log_def)
qed

text \<open>After routing the request has an endpoint but no store yet.\<close>

definition routed :: "'u ctx \<Rightarrow> addr \<Rightarrow> fra_req \<Rightarrow> 'u world \<Rightarrow> bool" where
  "routed c r q w \<longleftrightarrow> steady c w \<and> \<not> empty_req_lock w \<and> req_pool {r} w \<and> cells (reqs w) r = Some q \<and>
     cells (ends w) (endpoint q) \<noteq> None \<and> store_pool (\<lambda>_. {}) w"

lemma find_endpoint_stage:
  assumes "busy c r q w" and e0: "endpoint q = 0"
  obtains rc q' w' where "find_endpoint c r w = Inr (rc, w')" and "frame w w'" and "accepts w' = accepts w"
    and "fcgx_log w' = fcgx_log w" and "ends w' = ends w"
    and "rc \<noteq> 0 \<longrightarrow> busy c r q' w'" and "rc = 0 \<longrightarrow> routed c r q' w'"
    and "rc = (if routes (urls (w_urls w)) (bstr_content (base_url q), bstr_content (req_verb q)) = None then - 1 else 0)"
    and "rc = 0 \<longrightarrow> routes (urls (w_urls w)) (bstr_content (base_url q), bstr_content (req_verb q)) = Some (endpoint q')"
proof -
  from assms have q: "cells (reqs w) r = Some q" and st: "steady c w" and lk: "\<not> empty_req_lock w"
    and p: "req_pool {r} w" and sp: "store_pool (\<lambda>_. {}) w"
    by (simp_all add: busy_def held_def)
  let ?k = "(bstr_content (base_url q), bstr_content (req_verb q))"
  define e where "e = (case routes (urls (w_urls w)) ?k of None \<Rightarrow> 0 | Some e \<Rightarrow> e)"
  let ?q' = "q\<lparr>endpoint := e\<rparr>"
  define w' where "w' = with_req r ?q' w"
  have "fra_p_url_to_endpoint (bs c) (bstr_content (req_verb q)) (bstr_content (base_url q)) (w_urls w) (w_env w) =
      Inr (e, w_urls w, w_env w)"
    using to_endpoint_ok [OF steadyD(8) [OF st]] steadyD(1) [OF st] by (simp add: e_def)
  then have run: "find_endpoint c r w = Inr (if e = 0 then - 1 else 0, w')"
    using upd_req_ok [OF steadyD(3) [OF st] q] e0
    by (simp add: find_endpoint_def hget_ok [OF steadyD(3) [OF st] q] w'_def)
  have st': "steady c w'" using steadyD(3) [OF st] q by (intro steady_same [OF st]) (simp_all add: w'_def)
  have p': "req_pool {r} w'" unfolding w'_def by (rule req_pool_frame [OF p]) auto
  have live: "routes (urls (w_urls w)) ?k = Some e1 \<Longrightarrow> cells (ends w) e1 \<noteq> None \<and> e1 \<noteq> 0" for e1
    using steadyD(9) [OF st] heap_ok_nonnull [OF steadyD(4) [OF st]] by blast
  then have e: "e = 0 \<longleftrightarrow> routes (urls (w_urls w)) ?k = None" by (auto simp: e_def split: option.splits)
  have sp': "store_pool (\<lambda>_. {}) w'" using sp by (simp add: store_pool_def w'_def)
  have q': "cells (reqs w') r = Some ?q'" by (simp add: w'_def)
  have l1: "(if e = 0 then - 1 else 0) \<noteq> (0 :: int) \<longrightarrow> busy c r ?q' w'"
    using st' p' sp' q' lk by (cases "e = 0") (simp_all add: busy_def held_def w'_def)
  have l2: "(if e = 0 then - 1 else 0) = (0 :: int) \<longrightarrow> routed c r ?q' w'"
  proof
    assume "(if e = 0 then - 1 else 0) = (0 :: int)"
    with e obtain e1 where "routes (urls (w_urls w)) ?k = Some e1" by (auto split: if_splits)
    then have "cells (ends w) e \<noteq> None" using live by (simp add: e_def)
    then show "routed c r ?q' w'" using st' p' sp' q' lk by (simp add: routed_def w'_def)
  qed
  have l3: "(if e = 0 then - 1 else 0) = (0 :: int) \<longrightarrow> routes (urls (w_urls w)) ?k = Some (endpoint ?q')"
    using e by (auto simp: e_def split: option.splits)
  show ?thesis
    by (rule that [OF run _ _ _ _ l1 l2 _ l3]) (simp_all add: w'_def fcgx_log_def e)
qed

lemma store_stage:
  assumes b: "benign c" and "routed c r q w" and "\<forall>f \<in> set (req_fns w (endpoint q) FRA_END_STORE_CREATED). succeeds c f"
  obtains q' w' where "fra_p_end_store_set c r w = Inr (0, w')" and "busy c r q' w'" and "endpoint q' = endpoint q"
    and "frame w w'" and "accepts w' = accepts w" and "fcgx_log w' = fcgx_log w"
proof -
  from assms(2) have st: "steady c w" and lk: "\<not> empty_req_lock w" and p: "req_pool {r} w"
    and q: "cells (reqs w) r = Some q" and sp: "store_pool (\<lambda>_. {}) w"
    by (simp_all add: routed_def)
  from assms(2) obtain n where n: "cells (ends w) (endpoint q) = Some n" by (auto simp: routed_def)
  from end_store_set_ok [OF st sp q refl n assms(3)] obtain s w' where
    run: "fra_p_end_store_set c r w = Inr (0, w')" and f: "store_frame r w w'" and st': "steady c w'"
    and sp': "store_pool ((\<lambda>_. {})(endpoint q := {s})) w'" and s: "s \<noteq> 0"
    and q': "cells (reqs w') r = Some (q\<lparr>endpoint_store := s\<rparr>)"
    and ev: "events w' = events w @ (if store_empty n = 0
      then map (\<lambda>f. Called f r) (req_fns w (endpoint q) FRA_END_STORE_CREATED) else [])"
    by auto
  have fr: "frame w w'" using f by (simp add: store_frame_def)
  have "req_pool {r} w'"
    using f q' by (intro req_pool_frame [OF p]) (auto simp: store_frame_def)
  moreover have "held (q\<lparr>endpoint_store := s\<rparr>) w'"
    using sp' s frame_none [OF fr] n heap_ok_nonnull [OF steadyD(4) [OF st] n]
    by (auto simp: held_def)
  ultimately have "busy c r (q\<lparr>endpoint_store := s\<rparr>) w'"
    using st' q' f lk by (simp add: busy_def store_frame_def)
  moreover have "fcgx_log w' = fcgx_log w"
    using ev by (cases "store_empty n = 0") (simp_all add: fcgx_log_def filter_empty_conv)
  ultimately show ?thesis using that [OF run _ _ fr] f by (simp add: store_frame_def)
qed

lemma handler_stage:
  assumes b: "benign c" and busy: "busy c r q w" and "endpoint q \<noteq> 0"
  obtains rc w' where "call_handler c r w = Inr (rc, w')" and "busy c r q w'"
    and "frame w w'" and "accepts w' = accepts w" and "fcgx_log w' = fcgx_log w"
proof -
  from busy have q: "cells (reqs w) r = Some q" and st: "steady c w" by (simp_all add: busy_def)
  from busy assms(3) obtain n where n: "cells (ends w) (endpoint q) = Some n" by (auto simp: busy_def held_def)
  note g = hget_ok [OF steadyD(3) [OF st] q] hget_ok [OF steadyD(4) [OF st] n]
  show ?thesis
  proof (cases "callback n = 0")
    case True
    then have "call_handler c r w = Inr (0, w)" by (simp add: call_handler_def g)
    from that [OF this busy] show ?thesis by simp
  next
    case False
    let ?w1 = "say (Called (callback n) r) w"
    obtain rc u where "call c (callback n) r ?w1 = Inr (rc, ?w1\<lparr>user := u\<rparr>)"
      using b unfolding benign_def by blast
    then have run: "call_handler c r w = Inr (rc, ?w1\<lparr>user := u\<rparr>)"
      using False by (simp add: call_handler_def g)
    have "same_lib w (?w1\<lparr>user := u\<rparr>)" by (rule same_lib_trans [OF same_lib_say same_lib_user])
    from that [OF run busy_same_lib [OF busy this] same_lib_frame [OF this]] show ?thesis
      by (simp add: fcgx_log_def say_def)
  qed
qed


lemma idle_say: "idle c w \<Longrightarrow> idle c (say ev (w\<lparr>accepts := a\<rparr>))"
proof -
  assume i: "idle c w"
  then have st: "steady c w" by (simp add: idle_def)
  have "steady c (say ev (w\<lparr>accepts := a\<rparr>))"
    by (rule steady_same [OF st]) (use steadyD(3) [OF st] in \<open>simp_all add: frame_def say_def\<close>)
  with i show ?thesis by (simp add: idle_def req_pool_def store_pool_def say_def)
qed

lemma final_cleanup_ok:
  assumes "idle c w" and "accepts w = (arc, env) # rest"
  obtains w' where "final_cleanup True w = Inr (- 1, w')" and "idle c w'" and "frame w w'" and "accepts w' = rest"
    and "fcgx_log w' = fcgx_log w @ [FCGX_InitRequest None, FCGX_Accept_r None arc,
      FCGX_FPrintF None error_page, FCGX_Finish_r None]"
proof -
  let ?w0 = "say (FCGX_InitRequest None) w"
  let ?w1 = "say (FCGX_Accept_r None arc) (?w0\<lparr>accepts := rest\<rparr>)"
  let ?w2 = "say (FCGX_Finish_r None) (say (FCGX_FPrintF None error_page) ?w1)"
  have say: "idle c v \<Longrightarrow> idle c (say ev v)" for ev v
    using idle_say [of c v ev "accepts v"] by simp
  have "idle c ?w2" by (intro say idle_say assms(1))
  moreover have "final_cleanup True w = Inr (- 1, ?w2)"
    using assms(2) by (simp add: final_cleanup_def exit_request_def accept_r_def say_def)
  ultimately show ?thesis using that by (simp add: frame_def say_def fcgx_log_def)
qed

section \<open>One request, one answer\<close>

definition hooks_create :: "'u ctx \<Rightarrow> 'u world \<Rightarrow> bool" where
  "hooks_create c w \<longleftrightarrow> (\<forall>f \<in> set (req_fns w 0 FRA_REQ_CREATED). succeeds c f) \<and>
     (\<forall>e. \<forall>f \<in> set (req_fns w e FRA_END_STORE_CREATED). succeeds c f)"

lemma handle_accepted:
  assumes b: "benign c" and hk: "\<And>e. \<forall>f \<in> set (req_fns w e FRA_END_STORE_CREATED). succeeds c f"
    and busy: "busy c r q w" and q0: "endpoint q = 0"
  shows "answered c r w
    (or_fcgx_cleanup c r (set_verb c r w) (\<lambda>w.
     or_fcgx_cleanup c r (set_urls c r w) (\<lambda>w.
     or_fcgx_cleanup c r (fra_p_req_hook_execute c r FRA_REQ_BEFORE_ENDPOINT w) (\<lambda>w.
     or_fcgx_cleanup c r (find_endpoint c r w) (\<lambda>w.
     or_fcgx_cleanup c r (fra_p_end_store_set c r w) (\<lambda>w.
     or_fcgx_cleanup c r (fra_p_req_hook_execute c r FRA_REQ_NEW w) (\<lambda>w.
     bindo (call_handler c r w) (\<lambda>(rc, w). finish_req c r w))))))))"
proof -
  obtain rc1 q1 w1 where 1: "set_verb c r w = Inr (rc1, w1)" "busy c r q1 w1" "endpoint q1 = endpoint q"
    "frame w w1" "accepts w1 = accepts w" "ends w1 = ends w" "fcgx_log w1 = fcgx_log w"
    by (rule set_verb_stage [OF busy])
  obtain rc2 q2 w2 where 2: "set_urls c r w1 = Inr (rc2, w2)" "busy c r q2 w2" "set_req_url c q1 = (rc2, q2)"
    "frame w1 w2" "accepts w2 = accepts w1" "ends w2 = ends w1" "fcgx_log w2 = fcgx_log w1"
    by (rule set_urls_stage [OF 1(2)])
  obtain rc3 w3 where 3: "fra_p_req_hook_execute c r FRA_REQ_BEFORE_ENDPOINT w2 = Inr (rc3, w3)" "busy c r q2 w3"
    "frame w2 w3" "accepts w3 = accepts w2" "fcgx_log w3 = fcgx_log w2" "ends w3 = ends w2"
    by (rule hooks_stage [OF b 2(2), of FRA_REQ_BEFORE_ENDPOINT])
      (simp_all add: FRA_REQ_BEFORE_ENDPOINT_def FRA_HOOK_COUNT_def)
  have q2: "endpoint q2 = 0" using set_req_url_keeps [OF 2(3)] 1(3) q0 by simp
  let ?route = "routes (urls (w_urls w3)) (bstr_content (base_url q2), bstr_content (req_verb q2))"
  obtain rc4 q4 w4 where 4: "find_endpoint c r w3 = Inr (rc4, w4)" "frame w3 w4" "accepts w4 = accepts w3"
    "fcgx_log w4 = fcgx_log w3" "ends w4 = ends w3" "rc4 \<noteq> 0 \<longrightarrow> busy c r q4 w4" "rc4 = 0 \<longrightarrow> routed c r q4 w4"
    "rc4 = (if ?route = None then - 1 else 0)" "rc4 = 0 \<longrightarrow> ?route = Some (endpoint q4)"
    by (rule find_endpoint_stage [OF 3(2) q2])
  have f4: "frame w w4" using 1(4) 2(4) 3(3) 4(2) frame_trans by blast
  show ?thesis
  proof (rule or_cleanup_answers [OF 1(1,4,5,7)])
    show "answered c r w1 (or_fcgx_cleanup c r (set_urls c r w1) (\<lambda>w.
       or_fcgx_cleanup c r (fra_p_req_hook_execute c r FRA_REQ_BEFORE_ENDPOINT w) (\<lambda>w.
       or_fcgx_cleanup c r (find_endpoint c r w) (\<lambda>w.
       or_fcgx_cleanup c r (fra_p_end_store_set c r w) (\<lambda>w.
       or_fcgx_cleanup c r (fra_p_req_hook_execute c r FRA_REQ_NEW w) (\<lambda>w.
       bindo (call_handler c r w) (\<lambda>(rc, w). finish_req c r w)))))))"
    proof (rule or_cleanup_answers [OF 2(1,4,5,7)])
      show "answered c r w2 (or_fcgx_cleanup c r (fra_p_req_hook_execute c r FRA_REQ_BEFORE_ENDPOINT w2) (\<lambda>w.
         or_fcgx_cleanup c r (find_endpoint c r w) (\<lambda>w.
         or_fcgx_cleanup c r (fra_p_end_store_set c r w) (\<lambda>w.
         or_fcgx_cleanup c r (fra_p_req_hook_execute c r FRA_REQ_NEW w) (\<lambda>w.
         bindo (call_handler c r w) (\<lambda>(rc, w). finish_req c r w))))))"
      proof (rule or_cleanup_answers [OF 3(1,3,4,5)])
        show "answered c r w3 (or_fcgx_cleanup c r (find_endpoint c r w3) (\<lambda>w.
           or_fcgx_cleanup c r (fra_p_end_store_set c r w) (\<lambda>w.
           or_fcgx_cleanup c r (fra_p_req_hook_execute c r FRA_REQ_NEW w) (\<lambda>w.
           bindo (call_handler c r w) (\<lambda>(rc, w). finish_req c r w)))))"
        proof (rule or_cleanup_answers [OF 4(1-4)])
          assume "rc4 = 0"
          then have rt: "routed c r q4 w4" using 4(7) by simp
          have hk4: "\<forall>f \<in> set (req_fns w4 (endpoint q4) FRA_END_STORE_CREATED). succeeds c f"
            using hk by (simp add: frame_hooks [OF f4])
          obtain q5 w5 where 5: "fra_p_end_store_set c r w4 = Inr (0, w5)" "busy c r q5 w5"
            "endpoint q5 = endpoint q4" "frame w4 w5" "accepts w5 = accepts w4" "fcgx_log w5 = fcgx_log w4"
            by (rule store_stage [OF b rt hk4])
          obtain rc6 w6 where 6: "fra_p_req_hook_execute c r FRA_REQ_NEW w5 = Inr (rc6, w6)" "busy c r q5 w6"
            "frame w5 w6" "accepts w6 = accepts w5" "fcgx_log w6 = fcgx_log w5"
            by (rule hooks_stage [OF b 5(2), of FRA_REQ_NEW]) (simp_all add: FRA_REQ_NEW_def FRA_HOOK_COUNT_def)
          have "endpoint q5 \<noteq> 0"
            using rt 5(3) heap_ok_nonnull [OF steadyD(4)] by (auto simp: routed_def)
          then obtain rc7 w7 where 7: "call_handler c r w6 = Inr (rc7, w7)" "busy c r q5 w7"
            "frame w6 w7" "accepts w7 = accepts w6" "fcgx_log w7 = fcgx_log w6"
            by (rule handler_stage [OF b 6(2)])
          have "answered c r w6 (finish_req c r w7)"
            by (rule answered_from [OF finish_answers [OF 7(2)] 7(3-5)])
          then have "answered c r w5 (or_fcgx_cleanup c r (fra_p_req_hook_execute c r FRA_REQ_NEW w5) (\<lambda>w.
             bindo (call_handler c r w) (\<lambda>(rc, w). finish_req c r w)))"
            using 6(2) by (intro or_cleanup_answers [OF 6(1,3-5)]) (auto simp: 7(1))
          then show "answered c r w4 (or_fcgx_cleanup c r (fra_p_end_store_set c r w4) (\<lambda>w.
             or_fcgx_cleanup c r (fra_p_req_hook_execute c r FRA_REQ_NEW w) (\<lambda>w.
             bindo (call_handler c r w) (\<lambda>(rc, w). finish_req c r w))))"
            by (intro or_cleanup_answers [OF 5(1,4-6)]) simp_all
        qed (use 4(6) in blast)
      qed (use 3(2) in blast)
    qed (use 2(2) in blast)
  qed (use 1(2) in blast)
qed

lemma reset_stage:
  assumes st: "steady c w" and lk: "\<not> empty_req_lock w" and p: "req_pool {r} w" and sp: "store_pool (\<lambda>_. {}) w"
    and q: "cells (reqs w) r = Some q"
  shows "reset_req r w = Inr (with_req r (q\<lparr>fcgx_defined := False, endpoint := 0\<rparr>) w)"
    and "busy c r (q\<lparr>fcgx_defined := False, endpoint := 0\<rparr>) (with_req r (q\<lparr>fcgx_defined := False, endpoint := 0\<rparr>) w)"
proof -
  let ?q' = "q\<lparr>fcgx_defined := False, endpoint := 0\<rparr>"
  let ?w' = "with_req r ?q' w"
  show "reset_req r w = Inr ?w'"
    using upd_req_ok [OF steadyD(3) [OF st] q] by (simp add: reset_req_def)
  have "steady c ?w'" using steadyD(3) [OF st] q by (intro steady_same [OF st]) simp_all
  moreover have "req_pool {r} ?w'" by (rule req_pool_frame [OF p]) auto
  ultimately show "busy c r ?q' ?w'" using lk sp by (simp add: busy_def held_def store_pool_def)
qed

lemma idle_same_lib:
  assumes "idle c w" and "same_lib w w'"
  shows "idle c w'"
proof -
  note same = same_lib_fields [OF assms(2)]
  from assms(1) have st: "steady c w" by (simp add: idle_def)
  have "steady c w'"
    by (rule steady_same [OF st same_lib_frame [OF assms(2)]]) (use steadyD(3) [OF st] same in simp_all)
  with assms(1) same show ?thesis by (simp add: idle_def req_pool_def store_pool_def)
qed

lemma glob_stage:
  assumes b: "benign c" and "idle c w"
  obtains rc w' where "fra_p_glob_hook_execute c FRA_REQ_INCOMING w = Inr (rc, w')" and "same_lib w w'"
    and "fcgx_log w' = fcgx_log w"
proof -
  have "hooks_ok c w" using assms(2) by (simp add: idle_def steady_def)
  note run = glob_hook_execute_runs [OF benign_tame [OF b] this]
  obtain rc w' gs where "run_hooks c False (glob_fns w FRA_REQ_INCOMING) 0 w = Inr (rc, w')" "same_lib w w'"
    "events w' = events w @ map Called_glob gs"
    using run_hooks_benign [OF b, of False "glob_fns w FRA_REQ_INCOMING" 0 w] by auto
  then show ?thesis using that [of rc w'] run by (simp add: fcgx_log_def filter_empty_conv)
qed

text \<open>How a call that takes the accept result \<open>arc\<close> and leaves \<open>rest\<close> ends.\<close>

definition one_answer ::
  "'u ctx \<Rightarrow> int \<Rightarrow> (int \<times> string list) list \<Rightarrow> 'u world \<Rightarrow> (int \<times> 'u world) outcome \<Rightarrow> bool" where
  "one_answer c arc rest w res \<longleftrightarrow> (\<exists>rc w' f. res = Inr (rc, w') \<and> idle c w' \<and> frame w w' \<and>
     accepts w' = rest \<and> (rc = 0 \<and> 0 \<le> arc \<or> rc = - 1) \<and>
     fcgx_log w' = fcgx_log w @ [FCGX_InitRequest f, FCGX_Accept_r f arc] @
       (if rc = 0 then [] else [FCGX_FPrintF f error_page]) @ [FCGX_Finish_r f])"

lemma one_answer_from:
  "one_answer c arc rest w1 res \<Longrightarrow> frame w w1 \<Longrightarrow> fcgx_log w1 = fcgx_log w \<Longrightarrow> one_answer c arc rest w res"
  unfolding one_answer_def by (elim exE conjE) (simp add: frame_trans)

lemma one_answer_final:
  assumes "idle c w" and "accepts w = (arc, env) # rest"
  shows "one_answer c arc rest w (final_cleanup True w)"
proof -
  obtain w' where "final_cleanup True w = Inr (- 1, w')" "idle c w'" "frame w w'" "accepts w' = rest"
    "fcgx_log w' = fcgx_log w @ [FCGX_InitRequest None, FCGX_Accept_r None arc,
      FCGX_FPrintF None error_page, FCGX_Finish_r None]"
    by (rule final_cleanup_ok [OF assms])
  then show ?thesis unfolding one_answer_def by (intro exI [of _ "- 1"] exI [of _ w'] exI [of _ None]) simp
qed

lemma one_answer_answered:
  assumes "answered c r w1 res" and "frame w w1" and "accepts w1 = rest" and "0 \<le> arc"
    and "fcgx_log w1 = fcgx_log w @ [FCGX_InitRequest (Some r), FCGX_Accept_r (Some r) arc]"
  shows "one_answer c arc rest w res"
proof -
  from assms(1) obtain rc w' where "res = Inr (rc, w')" "frame w1 w'" "idle c w'" "accepts w' = accepts w1"
    "rc = 0 \<and> fcgx_log w' = fcgx_log w1 @ [FCGX_Finish_r (Some r)] \<or>
     rc = - 1 \<and> fcgx_log w' = fcgx_log w1 @ [FCGX_FPrintF (Some r) error_page, FCGX_Finish_r (Some r)]"
    by (auto simp: answered_def)
  then show ?thesis using assms(2-5) frame_trans [OF assms(2)] unfolding one_answer_def
    by (intro exI [of _ rc] exI [of _ w'] exI [of _ "Some r"]) auto
qed

lemma or_fcgx_cleanup_ok: "or_fcgx_cleanup c r (Inr (0, w)) k = k w"
  by (simp add: or_fcgx_cleanup_def)

lemma one_answer_accept:
  assumes b: "benign c" and hk: "\<And>e. \<forall>f \<in> set (req_fns w e FRA_END_STORE_CREATED). succeeds c f"
    and busy: "busy c r q w" and q0: "endpoint q = 0" and acc: "accepts w = (arc, env) # rest"
  shows "one_answer c arc rest w (or_fcgx_cleanup c r (accept_req c r w) (\<lambda>w.
     or_fcgx_cleanup c r (set_verb c r w) (\<lambda>w.
     or_fcgx_cleanup c r (set_urls c r w) (\<lambda>w.
     or_fcgx_cleanup c r (fra_p_req_hook_execute c r FRA_REQ_BEFORE_ENDPOINT w) (\<lambda>w.
     or_fcgx_cleanup c r (find_endpoint c r w) (\<lambda>w.
     or_fcgx_cleanup c r (fra_p_end_store_set c r w) (\<lambda>w.
     or_fcgx_cleanup c r (fra_p_req_hook_execute c r FRA_REQ_NEW w) (\<lambda>w.
     bindo (call_handler c r w) (\<lambda>(rc, w). finish_req c r w)))))))))"
proof -
  obtain rc q' w' where a: "accept_req c r w = Inr (rc, w')" "busy c r q' w'" "endpoint q' = 0"
    "frame w w'" "accepts w' = rest" "ends w' = ends w"
    "fcgx_log w' = fcgx_log w @ [FCGX_InitRequest (Some r), FCGX_Accept_r (Some r) arc]"
    and rc: "rc = (if arc < 0 then - 1 else 0)"
    using accept_stage [OF busy q0 acc] by metis
  have hk': "\<forall>f \<in> set (req_fns w' e FRA_END_STORE_CREATED). succeeds c f" for e
    using hk by (simp add: frame_hooks [OF a(4)])
  show ?thesis
  proof (cases "arc < 0")
    case True
    obtain w2 where w2: "fcgx_cleanup c r w' = Inr (- 1, w2)" "frame w' w2" "idle c w2" "accepts w2 = accepts w'"
      "fcgx_log w2 = fcgx_log w' @ [FCGX_FPrintF (Some r) error_page, FCGX_Finish_r (Some r)]"
      by (rule fcgx_cleanup_runs [OF a(2)])
    then show ?thesis using True rc a frame_trans [OF a(4) w2(2)]
      unfolding one_answer_def or_fcgx_cleanup_def
      by (intro exI [of _ "- 1"] exI [of _ w2] exI [of _ "Some r"]) simp
  next
    case False
    with rc a(1) have run: "accept_req c r w = Inr (0, w')" by simp
    show ?thesis unfolding run or_fcgx_cleanup_ok
      by (rule one_answer_answered [OF handle_accepted [OF b hk' a(2,3)] a(4,5) _ a(7)]) (use False in simp)
  qed
qed

lemma handle_new_answers:
  assumes b: "benign c" and idle: "idle c w" and hk: "hooks_create c w"
    and jk: "\<forall>a. endpoint (junk c a) = 0" and acc: "accepts w = (arc, env) # rest"
  shows "one_answer c arc rest w (fra_p_req_handle_new c revs w)"
proof (cases "revs AND POLLIN = 0")
  case True
  then show ?thesis using one_answer_final [OF idle acc] by (simp add: fra_p_req_handle_new_def)
next
  case False
  obtain rc1 w1 where 1: "fra_p_glob_hook_execute c FRA_REQ_INCOMING w = Inr (rc1, w1)" "same_lib w w1"
    "fcgx_log w1 = fcgx_log w"
    by (rule glob_stage [OF b idle])
  note f1 = same_lib_frame [OF 1(2)] and i1 = idle_same_lib [OF idle 1(2)]
  have acc1: "accepts w1 = (arc, env) # rest" using same_lib_fields [OF 1(2)] acc by simp
  show ?thesis
  proof (cases "rc1 = 0")
    case False
    with one_answer_from [OF one_answer_final [OF i1 acc1] f1 1(3)] \<open>revs AND POLLIN \<noteq> 0\<close> 1(1) show ?thesis
      by (simp add: fra_p_req_handle_new_def)
  next
    case True
    have hk1: "\<forall>f \<in> set (req_fns w1 0 FRA_REQ_CREATED). succeeds c f"
      using hk by (simp add: hooks_create_def frame_hooks [OF f1])
    from i1 have i1': "steady c w1" "\<not> empty_req_lock w1" "req_pool {} w1" "store_pool (\<lambda>_. {}) w1"
      by (simp_all add: idle_def)
    obtain r w2 where 2: "get_req c w1 = Inr (r, w2)" "r \<noteq> 0" "frame w1 w2" "steady c w2" "\<not> empty_req_lock w2"
      "req_pool {r} w2" "cells (reqs w2) r \<noteq> None" "ends w2 = ends w1" "stores w2 = stores w1" "accepts w2 = accepts w1"
      and ev2: "events w2 = events w1 @
        (if empty_req w1 = 0 then map (\<lambda>f. Called f r) (req_fns w1 0 FRA_REQ_CREATED) else [])"
      using get_req_ok [OF i1'(1-3) hk1 jk] by blast
    have log2: "fcgx_log w2 = fcgx_log w1"
      using ev2 by (cases "empty_req w1 = 0") (simp_all add: fcgx_log_def filter_empty_conv)
    have sp2: "store_pool (\<lambda>_. {}) w2" using i1'(4) 2(8,9) by (simp add: store_pool_def)
    obtain q where q: "cells (reqs w2) r = Some q" using 2(7) by auto
    let ?q3 = "q\<lparr>fcgx_defined := False, endpoint := 0\<rparr>"
    define w3 where "w3 = with_req r ?q3 w2"
    note 3 = reset_stage [OF 2(4-6) sp2 q, folded w3_def]
    have "frame w2 w3" by (simp add: w3_def)
    with f1 2(3) have f3: "frame w w3" by (blast intro: frame_trans)
    obtain rc4 w4 where 4: "fra_p_req_hook_execute c r FRA_REQ_BEFORE_FCGX w3 = Inr (rc4, w4)" "busy c r ?q3 w4"
      "frame w3 w4" "accepts w4 = accepts w3" "fcgx_log w4 = fcgx_log w3" "ends w4 = ends w3"
      by (rule hooks_stage [OF b 3(2), of FRA_REQ_BEFORE_FCGX]) (simp_all add: FRA_REQ_BEFORE_FCGX_def FRA_HOOK_COUNT_def)
    have f4: "frame w w4" using f3 4(3) by (rule frame_trans)
    have acc4: "accepts w4 = (arc, env) # rest" using 4(4) 2(10) acc1 by (simp add: w3_def)
    have log4: "fcgx_log w4 = fcgx_log w" using 4(5) log2 1(3) by (simp add: w3_def fcgx_log_def)
    show ?thesis
    proof (cases "rc4 = 0")
      case True
      have hk4: "\<forall>f \<in> set (req_fns w4 e FRA_END_STORE_CREATED). succeeds c f" for e
        using hk by (simp add: hooks_create_def frame_hooks [OF f4])
      show ?thesis
        using one_answer_from [OF one_answer_accept [OF b hk4 4(2) _ acc4] f4 log4] True \<open>rc1 = 0\<close>
          \<open>revs AND POLLIN \<noteq> 0\<close> 1(1) 2(1,2) 3(1) 4(1)
        by (simp add: fra_p_req_handle_new_def w3_def)
    next
      case False
      from req_maybe_free_ok [OF 4(2)] obtain w5 where 5: "req_maybe_free c r w4 = Inr (0, w5)" "frame w4 w5"
        "idle c w5" "accepts w5 = accepts w4" "events w5 = events w4" by blast
      have "one_answer c arc rest w (final_cleanup True w5)"
        using one_answer_from [OF one_answer_final [OF 5(3)]] 5 acc4 log4 frame_trans [OF f4 5(2)]
        by (simp add: fcgx_log_def)
      then show ?thesis
        using False \<open>rc1 = 0\<close> \<open>revs AND POLLIN \<noteq> 0\<close> 1(1) 2(1,2) 3(1) 4(1) 5(1)
        by (simp add: fra_p_req_handle_new_def w3_def req_cleanup_def)
    qed
  qed
qed

section \<open>Properties\<close>


lemma demo_answer_hyps:
  assumes "routes_ready plain_bstr g" and "routes (urls g) = [(''/a'', ''GET'') \<mapsto> 1]"
  shows "hooks_create demo_ctx (demo_world g)" and "\<forall>a. endpoint (junk demo_ctx a) = 0"
    and "accepts (demo_world g) = [(0, demo_env)]"
  by (auto simp: hooks_create_def req_fns_def array_fns_def demo_world_def demo_hooks_def demo_end_def demo_ctx_def
      FRA_REQ_CREATED_def FRA_END_STORE_CREATED_def numeral_eq_Suc split: option.splits if_splits)


end
