(* ===== verification/Routing.thy ===== *)
theory Routing
  imports Serve
begin

text \<open>
  The way of a request that is not stopped by a hook: how \<open>set_url\<close> splits the url, which
  handler is called, in which state and after which hooks (\<open>src/req.c\<close>).
\<close>

section \<open>Splitting the url\<close>

lemma url_loop_end: "bl \<noteq> - 1 \<Longrightarrow> i + length cs \<le> FRA_CORE_MAX_URL_LENGTH \<Longrightarrow>
  url_loop cs i bl q = (Some (i + length cs), bl, q)"
  by (induction cs arbitrary: i) auto

lemma url_loop_splits: "i + length cs \<le> FRA_CORE_MAX_URL_LENGTH \<Longrightarrow>
  url_loop cs i (- 1) [] = (Some (i + length cs),
    if CHR ''?'' \<in> set cs then int (i + length (takeWhile (\<lambda>ch. ch \<noteq> CHR ''?'') cs)) else - 1,
    dropWhile (\<lambda>ch. ch \<noteq> CHR ''?'') cs)"
proof (induction cs arbitrary: i)
  case (Cons ch cs)
  then show ?case by (auto simp: url_loop_end)
qed simp

lemma url_loop_too_long: "FRA_CORE_MAX_URL_LENGTH < i + length cs \<Longrightarrow> i \<le> FRA_CORE_MAX_URL_LENGTH \<Longrightarrow>
  fst (url_loop cs i bl q) = None"
proof (induction cs arbitrary: i bl q)
  case (Cons ch cs)
  then show ?case by (cases "i = FRA_CORE_MAX_URL_LENGTH") auto
qed simp

definition tag :: "string \<Rightarrow> string \<Rightarrow> tagbstring" where
  "tag s t = \<lparr>mlen = - 1, slen = int (length s), data = t\<rparr>"

abbreviation path_of :: "string \<Rightarrow> string" where
  "path_of uri \<equiv> takeWhile (\<lambda>ch. ch \<noteq> CHR ''?'') uri"

abbreviation query_of :: "string \<Rightarrow> string" where
  "query_of uri \<equiv> dropWhile (\<lambda>ch. ch \<noteq> CHR ''?'') uri"

lemma content_tag [simp]: "bstr_content (tag s s) = s" "bstr_content (tag (path_of uri) uri) = path_of uri"
  by (simp_all add: bstr_content_def tag_def takeWhile_eq_take [symmetric])

definition with_url :: "string \<Rightarrow> fra_req \<Rightarrow> fra_req" where
  "with_url uri q = q\<lparr>req_url := tag uri uri, base_url := tag (path_of uri) uri, query_url := tag (query_of uri) (query_of uri)\<rparr>"

lemma set_req_url_ok:
  assumes "get_param c ''REQUEST_URI'' (envp q) = Some uri" and "length uri \<le> FRA_CORE_MAX_URL_LENGTH"
  shows "set_req_url c q = (0, with_url uri q)"
proof -
  let ?p = "path_of uri" and ?q = "query_of uri"
  have "length uri = length ?p + length ?q" by (metis length_append takeWhile_dropWhile_id)
  then have len: "int (length uri) - int (length ?p) = int (length ?q)" by simp
  have loop: "url_loop uri 0 (- 1) [] =
      (Some (length uri), if CHR ''?'' \<in> set uri then int (length ?p) else - 1, ?q)"
    using url_loop_splits [of 0 uri] assms(2) by simp
  show ?thesis
  proof (cases "CHR ''?'' \<in> set uri")
    case True
    then show ?thesis by (simp add: set_req_url_def assms(1) loop with_url_def tag_def len)
  next
    case False
    then have p: "?p = uri" and q: "?q = []" by (auto simp: takeWhile_eq_all_conv)
    have "set_req_url c q = (0, q\<lparr>req_url := tag uri uri, base_url := tag uri uri, query_url := tag [] []\<rparr>)"
      using False by (simp add: set_req_url_def assms(1) loop q tag_def Let_def)
    then show ?thesis unfolding with_url_def p q .
  qed
qed

section \<open>Properties\<close>

text \<open>C25: \<open>set_url\<close> splits the url. A url of up to 512 bytes is split at the first question
  mark: \<open>base_url\<close> is what stands before it and \<open>query_url\<close> the rest with the mark, so that
  one behind the other they are the url again; nothing else of the request changes. A missing
  or longer url is an error.\<close>

theorem set_url_splits:
  "case get_param c ''REQUEST_URI'' (envp q) of
     None \<Rightarrow> set_req_url c q = (- 1, q)
   | Some uri \<Rightarrow>
       if 512 < length uri then fst (set_req_url c q) = - 1
       else \<exists>q'. set_req_url c q = (0, q') \<and> bstr_content (req_url q') = uri \<and>
         bstr_content (base_url q') = path_of uri \<and> bstr_content (query_url q') = query_of uri \<and>
         bstr_content (base_url q') @ bstr_content (query_url q') = bstr_content (req_url q') \<and>
         q'\<lparr>req_url := req_url q, base_url := base_url q, query_url := query_url q\<rparr> = q"
proof (cases "get_param c ''REQUEST_URI'' (envp q)")
  case (Some uri)
  show ?thesis
  proof (cases "512 < length uri")
    case True
    then have "fst (url_loop uri 0 (- 1) '''') = None"
      by (intro url_loop_too_long) (simp_all add: FRA_CORE_MAX_URL_LENGTH_def)
    then show ?thesis using True Some by (auto simp: set_req_url_def split: prod.splits)
  next
    case False
    then have "set_req_url c q = (0, with_url uri q)"
      using set_req_url_ok [OF Some] by (simp add: FRA_CORE_MAX_URL_LENGTH_def)
    then show ?thesis using Some False by (simp add: with_url_def)
  qed
qed (simp add: set_req_url_def)

section \<open>The stages of a request that is not stopped\<close>

definition succeeds_glob :: "'u ctx \<Rightarrow> fnptr \<Rightarrow> bool" where
  "succeeds_glob c f \<longleftrightarrow> (\<forall>w. \<exists>u. call_glob c f w = Inr (0, w\<lparr>user := u\<rparr>))"

lemma run_glob_hooks_succeed:
  "\<forall>f \<in> set fs. succeeds_glob c f \<Longrightarrow>
   \<exists>w'. run_hooks c False fs r w = Inr (0, w') \<and> same_lib w w' \<and> events w' = events w @ map Called_glob fs \<and>
     ((\<forall>f \<in> set fs. \<forall>w. call_glob c f w = Inr (0, w)) \<longrightarrow> user w' = user w)"
proof (induction fs arbitrary: w)
  case (Cons f fs)
  have "\<exists>u. call_glob c f (say (Called_glob f) w) = Inr (0, (say (Called_glob f) w)\<lparr>user := u\<rparr>)"
    using Cons.prems by (simp add: succeeds_glob_def)
  then obtain u where "call_glob c f (say (Called_glob f) w) = Inr (0, (say (Called_glob f) w)\<lparr>user := u\<rparr>)" ..
  moreover define w1 where "w1 = (say (Called_glob f) w)\<lparr>user := u\<rparr>"
  ultimately have 1: "call_hook c False f r w = Inr (0, w1)" by (simp add: call_hook_def)
  have keep: "user w1 = user w" if "\<forall>w. call_glob c f w = Inr (0, w)"
    using 1 that by (auto simp: call_hook_def say_def)
  have s1: "same_lib w w1" "events w1 = events w @ [Called_glob f]"
    using same_lib_trans [OF same_lib_say same_lib_user] by (auto simp: w1_def say_def)
  obtain w' where "run_hooks c False fs r w1 = Inr (0, w')" "same_lib w1 w'"
    "events w' = events w1 @ map Called_glob fs" "(\<forall>f \<in> set fs. \<forall>w. call_glob c f w = Inr (0, w)) \<longrightarrow> user w' = user w1"
    using Cons.IH [of w1] Cons.prems by auto
  then show ?case using 1 s1 keep same_lib_trans [OF s1(1)] by (intro exI [of _ w']) auto
qed simp

text \<open>All hooks that a request for the endpoint \<open>e\<close> meets before those of type FRA_REQ_NEW return 0.\<close>

definition hooks_pass :: "'u ctx \<Rightarrow> addr \<Rightarrow> 'u world \<Rightarrow> bool" where
  "hooks_pass c e w \<longleftrightarrow> (\<forall>f \<in> set (glob_fns w FRA_REQ_INCOMING). succeeds_glob c f) \<and>
     (\<forall>type \<in> {0..<FRA_REQ_NEW}. \<forall>f \<in> set (req_fns w e type). succeeds c f)"

lemma hooks_pass_frame: "hooks_pass c e w \<Longrightarrow> frame w w' \<Longrightarrow> hooks_pass c e w'"
proof -
  assume "hooks_pass c e w" and f: "frame w w'"
  moreover have "w_hooks w' = w_hooks w" using f by (simp add: frame_def)
  ultimately show ?thesis by (simp add: hooks_pass_def frame_hooks [OF f] glob_fns_def)
qed

text \<open>Hooks are run for the endpoint or, before there is one, for the address 0.\<close>

lemma hooks_passD:
  assumes "hooks_pass c e w" and "0 \<le> type" and "type < FRA_REQ_NEW" and "steady c w" and "e' = e \<or> e' = 0"
  shows "\<forall>f \<in> set (req_fns w e' type). succeeds c f"
proof -
  have "cells (ends w) 0 = None"
    using steadyD(4) [OF assms(4)] heap_ok_nonnull [of "ends w" 0] by (cases "cells (ends w) 0") auto
  then have "set (req_fns w 0 type) \<subseteq> set (req_fns w e type)"
    by (auto simp: req_fns_def split: option.splits)
  with assms show ?thesis by (auto simp: hooks_pass_def)
qed

abbreviation calls :: "addr \<Rightarrow> fnptr list \<Rightarrow> event list" where
  "calls r fs \<equiv> map (\<lambda>f. Called f r) fs"

text \<open>\<open>stage\<close>: the call \<open>m\<close> returns 0 and the request \<open>r\<close> is still being handled; \<open>ev\<close> is what
  was seen outside.\<close>

definition stage :: "'u ctx \<Rightarrow> addr \<Rightarrow> 'u world \<Rightarrow> (int \<times> 'u world) outcome \<Rightarrow> fra_req \<Rightarrow> 'u world \<Rightarrow> event list \<Rightarrow> bool" where
  "stage c r w m q w' ev \<longleftrightarrow> m = Inr (0, w') \<and> busy c r q w' \<and> evolves w w' \<and> accepts w' = accepts w \<and>
     events w' = events w @ ev \<and> (ev = [] \<longrightarrow> user w' = user w)"

lemma pass_stage:
  assumes busy: "busy c r q w" and ty: "0 \<le> type" "type < FRA_HOOK_COUNT"
    and hk: "pass_at c (req_fns w (endpoint q) type) r w"
  obtains w' where "stage c r w (fra_p_req_hook_execute c r type w) q w' (calls r (req_fns w (endpoint q) type))"
    and "ends w' = ends w"
proof -
  from busy have st: "steady c w" and q: "cells (reqs w) r = Some q"
    and le: "endpoint q \<noteq> 0 \<longrightarrow> cells (ends w) (endpoint q) \<noteq> None"
    by (auto simp: busy_def held_def)
  from req_hooks_pass [OF steadyD(2,4,3) [OF st] q le ty hk] obtain w' where
    "fra_p_req_hook_execute c r type w = Inr (0, w')" "same_lib w w'"
    "events w' = events w @ calls r (req_fns w (endpoint q) type)" "req_fns w (endpoint q) type = [] \<longrightarrow> user w' = user w" .
  then show ?thesis
    using that busy_same_lib [OF busy] evolves_same_lib same_lib_fields [of w w'] unfolding stage_def by (metis map_is_Nil_conv)
qed

text \<open>The hooks before those of type FRA_REQ_NEW.\<close>

lemma early_stage:
  assumes busy: "busy c r q w" and ty: "0 \<le> type" "type < FRA_REQ_NEW"
    and hk: "hooks_pass c e w" and e: "endpoint q = e \<or> endpoint q = 0"
  obtains w' where "stage c r w (fra_p_req_hook_execute c r type w) q w' (calls r (req_fns w (endpoint q) type))"
    and "ends w' = ends w"
proof (rule pass_stage [OF busy ty(1)])
  have st: "steady c w" using busy by (simp add: busy_def)
  show "pass_at c (req_fns w (endpoint q) type) r w" by (rule succeeds_pass_at [OF hooks_passD [OF hk ty st e]])
qed (use ty in \<open>simp_all add: FRA_REQ_NEW_def FRA_HOOK_COUNT_def that\<close>)

lemma set_verb_pass:
  assumes busy: "busy c r q w" and "get_param c ''REQUEST_METHOD'' (envp q) = Some verb" and "length verb < 50"
  obtains w' where "stage c r w (set_verb c r w) (q\<lparr>req_verb := tag verb verb\<rparr>) w' []" and "ends w' = ends w"
proof -
  from busy have q: "cells (reqs w) r = Some q" and st: "steady c w" by (simp_all add: busy_def)
  note g = hget_ok [OF steadyD(3) [OF st] q]
  let ?w' = "with_req r (q\<lparr>req_verb := tag verb verb\<rparr>) w"
  have "set_param c ''REQUEST_METHOD'' FRA_CORE_MAX_VERB_LENGTH (envp q) = Some (tag verb verb)"
    using assms(2,3) by (simp add: set_param_def FRA_CORE_MAX_VERB_LENGTH_def tag_def)
  then have "set_verb c r w = Inr (0, ?w')"
    using upd_req_ok [OF steadyD(3) [OF st] q] by (simp add: set_verb_def g)
  then show ?thesis using busy_with_req [OF busy] evolves_with_req [OF q] by (intro that [of ?w']) (simp_all add: stage_def)
qed

lemma set_urls_pass:
  assumes busy: "busy c r q w" and "get_param c ''REQUEST_URI'' (envp q) = Some uri" and "length uri \<le> FRA_CORE_MAX_URL_LENGTH"
  obtains w' where "stage c r w (set_urls c r w) (with_url uri q) w' []" and "ends w' = ends w"
proof -
  from busy have q: "cells (reqs w) r = Some q" and st: "steady c w" by (simp_all add: busy_def)
  let ?w' = "with_req r (with_url uri q) w"
  have "set_urls c r w = Inr (0, ?w')"
    using upd_req_ok [OF steadyD(3) [OF st] q] set_req_url_ok [OF assms(2,3)]
    by (simp add: set_urls_def hget_ok [OF steadyD(3) [OF st] q])
  moreover have "busy c r (with_url uri q) ?w'" by (rule busy_with_req [OF busy]) (simp_all add: with_url_def)
  moreover have "evolves w ?w'" by (rule evolves_with_req [OF q]) (simp add: with_url_def)
  ultimately show ?thesis by (intro that [of ?w']) (simp_all add: stage_def)
qed

lemma find_endpoint_pass:
  assumes busy: "busy c r q w" and "endpoint q = 0"
    and route: "routes (urls (w_urls w)) (bstr_content (base_url q), bstr_content (req_verb q)) = Some e"
  shows "find_endpoint c r w = Inr (0, with_req r (q\<lparr>endpoint := e\<rparr>) w)"
    and "routed c r (q\<lparr>endpoint := e\<rparr>) (with_req r (q\<lparr>endpoint := e\<rparr>) w)"
proof -
  from assms have q: "cells (reqs w) r = Some q" and st: "steady c w" and lk: "\<not> empty_req_lock w"
    and p: "req_pool {r} w" and sp: "store_pool (\<lambda>_. {}) w"
    by (simp_all add: busy_def held_def)
  let ?w' = "with_req r (q\<lparr>endpoint := e\<rparr>) w"
  have e: "cells (ends w) e \<noteq> None" "e \<noteq> 0"
    using steadyD(9) [OF st route] heap_ok_nonnull [OF steadyD(4) [OF st]] by blast+
  have "fra_p_url_to_endpoint (bs c) (bstr_content (req_verb q)) (bstr_content (base_url q)) (w_urls w) (w_env w) =
      Inr (e, w_urls w, w_env w)"
    using to_endpoint_ok [OF steadyD(8) [OF st]] steadyD(1) [OF st] by (simp add: route)
  then show "find_endpoint c r w = Inr (0, ?w')"
    using upd_req_ok [OF steadyD(3) [OF st] q] assms(2) e
    by (simp add: find_endpoint_def hget_ok [OF steadyD(3) [OF st] q])
  have "steady c ?w'" using steadyD(3) [OF st] q by (intro steady_same [OF st]) simp_all
  moreover have "req_pool {r} ?w'" by (rule req_pool_frame [OF p]) auto
  ultimately show "routed c r (q\<lparr>endpoint := e\<rparr>) ?w'"
    using lk sp e by (simp add: routed_def store_pool_def)
qed

lemma store_pass:
  assumes rt: "routed c r q w" and hk: "hooks_pass c (endpoint q) w"
    and n: "cells (ends w) (endpoint q) = Some n"
  obtains s w' where "stage c r w (fra_p_end_store_set c r w) (q\<lparr>endpoint_store := s\<rparr>) w'
    (if store_empty n = 0 then calls r (req_fns w (endpoint q) FRA_END_STORE_CREATED) else [])"
proof -
  from rt have st: "steady c w" and lk: "\<not> empty_req_lock w" and p: "req_pool {r} w"
    and q: "cells (reqs w) r = Some q" and sp: "store_pool (\<lambda>_. {}) w"
    by (simp_all add: routed_def)
  have "\<forall>f \<in> set (req_fns w (endpoint q) FRA_END_STORE_CREATED). succeeds c f"
    by (rule hooks_passD [OF hk _ _ st]) (simp_all add: FRA_END_STORE_CREATED_def FRA_REQ_NEW_def)
  from end_store_set_ok [OF st sp q refl n this] obtain s w' where
    run: "fra_p_end_store_set c r w = Inr (0, w')" and f: "store_frame r w w'" and st': "steady c w'"
    and sp': "store_pool ((\<lambda>_. {})(endpoint q := {s})) w'" and s: "s \<noteq> 0"
    and q': "cells (reqs w') r = Some (q\<lparr>endpoint_store := s\<rparr>)"
    and ev: "events w' = events w @ (if store_empty n = 0
      then calls r (req_fns w (endpoint q) FRA_END_STORE_CREATED) else [])"
    and us: "(if store_empty n = 0 then calls r (req_fns w (endpoint q) FRA_END_STORE_CREATED) else []) = [] \<longrightarrow> user w' = user w"
    by auto
  have fr: "frame w w'" using f by (simp add: store_frame_def)
  have "req_pool {r} w'"
    using f q' by (intro req_pool_frame [OF p]) (auto simp: store_frame_def)
  moreover have "held (q\<lparr>endpoint_store := s\<rparr>) w'"
    using sp' s frame_none [OF fr] n heap_ok_nonnull [OF steadyD(4) [OF st] n]
    by (auto simp: held_def)
  ultimately have "busy c r (q\<lparr>endpoint_store := s\<rparr>) w'"
    using st' q' f lk by (simp add: busy_def store_frame_def)
  then show ?thesis using that [of s w'] run store_frame_evolves [OF f q q'] ev us f by (simp add: stage_def store_frame_def)
qed

definition handler_fns :: "fra_end \<Rightarrow> fnptr list" where
  "handler_fns n = (if callback n = 0 then [] else [callback n])"

lemma handler_pass:
  assumes tm: "tame c True (handler_fns n) r w" and busy: "busy c r q w" and n: "cells (ends w) (endpoint q) = Some n"
  obtains rc w' where "call_handler c r w = Inr (rc, w')" and "busy c r q w'" and "evolves w w'"
    and "accepts w' = accepts w" and "events w' = events w @ calls r (handler_fns n)"
proof -
  from busy have q: "cells (reqs w) r = Some q" and st: "steady c w" by (simp_all add: busy_def)
  note g = hget_ok [OF steadyD(3) [OF st] q] hget_ok [OF steadyD(4) [OF st] n]
  show ?thesis
  proof (cases "callback n = 0")
    case True
    then have "call_handler c r w = Inr (0, w)" by (simp add: call_handler_def g)
    from that [OF this busy] True show ?thesis by (simp add: handler_fns_def)
  next
    case False
    then have "tame c True [callback n] r w" using tm by (simp add: handler_fns_def)
    then obtain rc w' where "call_hook c True (callback n) r w = Inr (rc, w')" and same: "same_lib w w'"
      and ev: "events w' = events w @ [Called (callback n) r]"
      using call_hook_tame by (metis (full_types))
    then have run: "call_handler c r w = Inr (rc, w')"
      using False by (simp add: call_handler_def call_hook_def g)
    from that [OF run busy_same_lib [OF busy same] evolves_same_lib [OF same]] False same_lib_fields(13) [OF same] ev show ?thesis
      by (simp add: handler_fns_def)
  qed
qed

lemma finish_pass:
  assumes "busy c r q w"
  obtains w' where "finish_req c r w = Inr (0, w')" and "idle c w'" and "evolves w w'" and "accepts w' = accepts w"
    and "events w' = events w @ [FCGX_Finish_r (Some r)]" and "user w' = user w"
proof -
  let ?w1 = "say (FCGX_Finish_r (Some r)) w"
  from req_maybe_free_ok [OF busy_say [OF assms]] obtain w' where run: "req_maybe_free c r ?w1 = Inr (0, w')"
    and w': "evolves ?w1 w'" "idle c w'" "accepts w' = accepts ?w1" "events w' = events ?w1" "user w' = user ?w1" by blast
  have "evolves w w'" by (rule evolves_trans [OF evolves_same w'(1)]) (simp_all add: frame_def say_def)
  moreover have "finish_req c r w = Inr (0, w')" by (simp add: finish_req_def run)
  ultimately show ?thesis using that w' by (simp add: say_def)
qed

lemma accept_pass:
  assumes busy: "busy c r q w" and acc: "accepts w = (arc, env) # rest" and "0 \<le> arc"
  obtains w' where "accept_req c r w = Inr (0, w')" and "busy c r (q\<lparr>envp := env, fcgx_defined := True\<rparr>) w'"
    and "evolves w w'" and "accepts w' = rest" and "ends w' = ends w"
    and "events w' = events w @ [FCGX_InitRequest (Some r), FCGX_Accept_r (Some r) arc]" and "user w' = user w"
proof -
  let ?w0 = "say (FCGX_InitRequest (Some r)) w"
  let ?w1 = "with_req r (q\<lparr>envp := []\<rparr>) ?w0"
  let ?w2 = "say (FCGX_Accept_r (Some r) arc) (?w1\<lparr>accepts := rest\<rparr>)"
  let ?w3 = "with_req r (q\<lparr>envp := env, fcgx_defined := True\<rparr>) ?w2"
  from busy have q: "cells (reqs w) r = Some q" and hr: "heap_ok (reqs w)" by (simp_all add: busy_def steady_def)
  have q0: "cells (reqs ?w0) r = Some q" "heap_ok (reqs ?w0)" using q hr by (simp_all add: say_def)
  have b1: "busy c r (q\<lparr>envp := []\<rparr>) ?w1" by (rule busy_with_req [OF busy_say [OF busy]]) simp_all
  have b2: "busy c r (q\<lparr>envp := []\<rparr>) ?w2" by (intro busy_say busy_accepts b1)
  then have q2: "cells (reqs ?w2) r = Some (q\<lparr>envp := []\<rparr>)" "heap_ok (reqs ?w2)" by (simp_all add: busy_def steady_def)
  have "accept_r (Some r) ?w1 = Inr (arc, env, ?w2)"
    using acc by (simp add: accept_r_def say_def with_req_def)
  then have run: "accept_req c r w = Inr (0, ?w3)"
    using upd_req_ok [OF q0(2,1)] upd_req_ok [OF q2(2,1)] assms(3) by (simp add: accept_req_def)
  have "busy c r (q\<lparr>envp := env, fcgx_defined := True\<rparr>) ?w3" by (rule busy_with_req [OF b2]) simp_all
  moreover have "evolves w ?w3"
    by (rule evolves_upd [OF _ q, where q = "q\<lparr>envp := env, fcgx_defined := True\<rparr>"]) (simp_all add: frame_def say_def with_req_def)
  ultimately show ?thesis using that [OF run] by (simp add: say_def with_req_def)
qed

lemma stageD:
  assumes "stage c r w m q w' ev"
  shows "or_fcgx_cleanup c r m k = k w'" "busy c r q w'" "evolves w w'" "accepts w' = accepts w" "events w' = events w @ ev"
    "ev = [] \<Longrightarrow> user w' = user w"
  using assms by (simp_all add: stage_def or_fcgx_cleanup_def)

text \<open>What the handler finds in the request.\<close>

definition filled :: "addr \<Rightarrow> string \<Rightarrow> string \<Rightarrow> string list \<Rightarrow> fra_req \<Rightarrow> bool" where
  "filled e verb uri env q \<longleftrightarrow> endpoint q = e \<and> fcgx_defined q \<and> envp q = env \<and> bstr_content (req_verb q) = verb \<and>
     bstr_content (req_url q) = uri \<and> bstr_content (base_url q) = path_of uri \<and> bstr_content (query_url q) = query_of uri"

text \<open>What is left to do after the accept, after the search for the endpoint, and after the store is set.\<close>

abbreviation after_store :: "'u ctx \<Rightarrow> addr \<Rightarrow> 'u op" where
  "after_store c r w \<equiv> or_fcgx_cleanup c r (fra_p_req_hook_execute c r FRA_REQ_NEW w) (\<lambda>w.
     bindo (call_handler c r w) (\<lambda>(rc, w). finish_req c r w))"

abbreviation after_split :: "'u ctx \<Rightarrow> addr \<Rightarrow> 'u op" where
  "after_split c r w \<equiv> or_fcgx_cleanup c r (find_endpoint c r w) (\<lambda>w.
     or_fcgx_cleanup c r (fra_p_end_store_set c r w) (after_store c r))"

abbreviation after_accept :: "'u ctx \<Rightarrow> addr \<Rightarrow> 'u op" where
  "after_accept c r w \<equiv> or_fcgx_cleanup c r (set_verb c r w) (\<lambda>w.
     or_fcgx_cleanup c r (set_urls c r w) (\<lambda>w.
     or_fcgx_cleanup c r (fra_p_req_hook_execute c r FRA_REQ_BEFORE_ENDPOINT w) (after_split c r)))"

text \<open>The calls up to the accept and those of a served request, in order.\<close>

abbreviation accept_events :: "'u world \<Rightarrow> addr \<Rightarrow> int \<Rightarrow> event list" where
  "accept_events w r arc \<equiv> map Called_glob (glob_fns w FRA_REQ_INCOMING) @
     (if empty_req w = 0 then calls r (req_fns w 0 FRA_REQ_CREATED) else []) @
     calls r (req_fns w 0 FRA_REQ_BEFORE_FCGX) @ [FCGX_InitRequest (Some r), FCGX_Accept_r (Some r) arc]"

definition served_events :: "'u world \<Rightarrow> addr \<Rightarrow> int \<Rightarrow> addr \<Rightarrow> fra_end \<Rightarrow> event list" where
  "served_events w r arc e n = accept_events w r arc @ calls r (req_fns w 0 FRA_REQ_BEFORE_ENDPOINT) @
     (if store_empty n = 0 then calls r (req_fns w e FRA_END_STORE_CREATED) else []) @
     calls r (req_fns w e FRA_REQ_NEW) @ calls r (handler_fns n) @ [FCGX_Finish_r (Some r)]"

lemma succeeds_glob_tame: "\<forall>f \<in> set fs. succeeds_glob c f \<Longrightarrow> tame c False fs r w"
  by (simp add: tame_def succeeds_glob_def) blast

lemma hooks_pass_0: "hooks_pass c e w \<Longrightarrow> steady c w \<Longrightarrow> hooks_pass c 0 w"
  using hooks_passD [of c e w _ 0] by (auto simp: hooks_pass_def)

text \<open>No callback of the program runs before the hooks of type FRA_REQ_NEW, save global ones that do nothing.\<close>

definition silent :: "'u ctx \<Rightarrow> addr \<Rightarrow> 'u world \<Rightarrow> bool" where
  "silent c e w \<longleftrightarrow> (\<forall>f \<in> set (glob_fns w FRA_REQ_INCOMING). \<forall>w. call_glob c f w = Inr (0, w)) \<and>
     (\<forall>type \<in> {0..<FRA_REQ_NEW}. req_fns w e type = [])"

lemma silentD:
  assumes "silent c e w"
  shows "\<forall>f \<in> set (glob_fns w FRA_REQ_INCOMING). \<forall>w. call_glob c f w = Inr (0, w)"
    "req_fns w e FRA_REQ_CREATED = []" "req_fns w e FRA_REQ_BEFORE_FCGX = []" "req_fns w e FRA_REQ_BEFORE_ENDPOINT = []"
    "req_fns w e FRA_END_STORE_CREATED = []"
  using assms by (simp_all add: silent_def FRA_REQ_CREATED_def FRA_REQ_BEFORE_FCGX_def FRA_REQ_BEFORE_ENDPOINT_def
      FRA_END_STORE_CREATED_def FRA_REQ_NEW_def)

lemma silent_0: "silent c e w \<Longrightarrow> steady c w \<Longrightarrow> silent c 0 w"
  by (auto simp: silent_def req_fns_def split: option.splits dest: heap_ok_nonnull [OF steadyD(4)])

lemma up_to_accept:
  assumes idle: "idle c w" and hk: "hooks_pass c 0 w" and jk: "\<forall>a. endpoint (junk c a) = 0"
    and acc: "accepts w = (arc, env) # rest" "0 \<le> arc" and revs: "revs AND POLLIN \<noteq> 0"
  obtains r q w' where "fra_p_req_handle_new c revs w = after_accept c r w'"
    and "busy c r q w'" and "endpoint q = 0" and "envp q = env" and "fcgx_defined q"
    and "evolves w w'" and "accepts w' = rest" and "ends w' = ends w" and "events w' = events w @ accept_events w r arc"
    and "silent c 0 w \<longrightarrow> user w' = user w"
proof -
  from idle have st: "steady c w" by (simp add: idle_def)
  have gl: "\<forall>f \<in> set (glob_fns w FRA_REQ_INCOMING). succeeds_glob c f" using hk by (simp add: hooks_pass_def)
  obtain w1 where run1: "run_hooks c False (glob_fns w FRA_REQ_INCOMING) 0 w = Inr (0, w1)" and same: "same_lib w w1"
    and ev1: "events w1 = events w @ map Called_glob (glob_fns w FRA_REQ_INCOMING)"
    and us1: "(\<forall>f \<in> set (glob_fns w FRA_REQ_INCOMING). \<forall>w. call_glob c f w = Inr (0, w)) \<longrightarrow> user w1 = user w"
    using run_glob_hooks_succeed [OF gl, of 0 w] by blast
  then have 1: "fra_p_glob_hook_execute c FRA_REQ_INCOMING w = Inr (0, w1)"
    using glob_hook_execute_runs [OF succeeds_glob_tame [OF gl] steadyD(2) [OF st]] by simp
  note f1 = same_lib_frame [OF same] and i1 = idle_same_lib [OF idle same]
  from i1 have st1: "steady c w1" "\<not> empty_req_lock w1" "req_pool {} w1" "store_pool (\<lambda>_. {}) w1"
    by (simp_all add: idle_def)
  have "\<forall>f \<in> set (req_fns w1 0 FRA_REQ_CREATED). succeeds c f"
    by (rule hooks_passD [OF hooks_pass_frame [OF hk f1] _ _ st1(1)]) (simp_all add: FRA_REQ_CREATED_def FRA_REQ_NEW_def)
  from get_req_ok [OF st1(1-3) this jk] obtain r w2 q where 2: "get_req c w1 = Inr (r, w2)" "r \<noteq> 0" "evolves w1 w2"
    "steady c w2" "\<not> empty_req_lock w2" "req_pool {r} w2" "ends w2 = ends w1"
    "stores w2 = stores w1" "accepts w2 = accepts w1" "req_fns w1 0 FRA_REQ_CREATED = [] \<longrightarrow> user w2 = user w1"
    "events w2 = events w1 @ (if empty_req w1 = 0 then calls r (req_fns w1 0 FRA_REQ_CREATED) else [])"
    and q: "cells (reqs w2) r = Some q"
    by blast
  have sp2: "store_pool (\<lambda>_. {}) w2" using st1(4) 2(7,8) by (simp add: store_pool_def)
  note 3 = reset_stage [OF 2(4-6) sp2 q]
  let ?q3 = "q\<lparr>fcgx_defined := False, endpoint := 0\<rparr>"
  have v3: "evolves w (with_req r ?q3 w2)"
    by (rule evolves_trans [OF evolves_same_lib [OF same] evolves_trans [OF 2(3) evolves_with_req [OF q]]]) simp
  note f3 = evolves_frame [OF v3]
  obtain w4 where 4: "stage c r (with_req r ?q3 w2) (fra_p_req_hook_execute c r FRA_REQ_BEFORE_FCGX (with_req r ?q3 w2)) ?q3 w4
      (calls r (req_fns (with_req r ?q3 w2) (endpoint ?q3) FRA_REQ_BEFORE_FCGX))" "ends w4 = ends (with_req r ?q3 w2)"
    by (rule early_stage [OF 3(2) _ _ hooks_pass_frame [OF hk f3], of FRA_REQ_BEFORE_FCGX])
      (simp_all add: FRA_REQ_BEFORE_FCGX_def FRA_REQ_NEW_def)
  have acc4: "accepts w4 = (arc, env) # rest"
    using stageD(4) [OF 4(1)] 2(9) same_lib_fields(13) [OF same] acc by simp
  obtain w5 where 5: "accept_req c r w4 = Inr (0, w5)" "busy c r (?q3\<lparr>envp := env, fcgx_defined := True\<rparr>) w5"
    "evolves w4 w5" "accepts w5 = rest" "ends w5 = ends w4"
    "events w5 = events w4 @ [FCGX_InitRequest (Some r), FCGX_Accept_r (Some r) arc]" "user w5 = user w4"
    by (rule accept_pass [OF stageD(2) [OF 4(1)] acc4 acc(2)])
  show ?thesis
  proof (rule that [OF _ 5(2)])
    show "evolves w w5" using v3 stageD(3) [OF 4(1)] 5(3) evolves_trans by blast
    show "silent c 0 w \<longrightarrow> user w5 = user w"
      using us1 2(10) stageD(6) [OF 4(1)] 5(7) silentD [of c 0 w] frame_hooks [OF f1] frame_hooks [OF f3] by auto
  qed (use revs 1 2(1,2) 3(1) 4 5 2(7,11) ev1 same_lib_fields [OF same] frame_hooks [OF f1] frame_hooks [OF f3]
      stageD(5) [OF 4(1)] in \<open>simp_all add: fra_p_req_handle_new_def or_fcgx_cleanup_ok stage_def\<close>)
qed

text \<open>Up to the search for the endpoint, which only hooks that are not bound to one can stop.\<close>

lemma up_to_routing:
  assumes idle: "idle c w" and hk: "hooks_pass c 0 w" and jk: "\<forall>a. endpoint (junk c a) = 0"
    and acc: "accepts w = (arc, env) # rest" "0 \<le> arc" and revs: "revs AND POLLIN \<noteq> 0"
    and verb: "get_param c ''REQUEST_METHOD'' env = Some verb" "length verb < 50"
    and uri: "get_param c ''REQUEST_URI'' env = Some uri" "length uri \<le> 512"
  obtains r q w' where "fra_p_req_handle_new c revs w = after_split c r w'"
    and "busy c r q w'" and "filled 0 verb uri env q"
    and "evolves w w'" and "accepts w' = rest" and "ends w' = ends w"
    and "events w' = events w @ accept_events w r arc @ calls r (req_fns w 0 FRA_REQ_BEFORE_ENDPOINT)"
    and "silent c 0 w \<longrightarrow> user w' = user w"
proof -
  obtain r q w1 where 1: "fra_p_req_handle_new c revs w = after_accept c r w1"
    and busy: "busy c r q w1" and q0: "endpoint q = 0" "envp q = env" "fcgx_defined q"
    and f1: "evolves w w1" "accepts w1 = rest" "ends w1 = ends w" and ev1: "events w1 = events w @ accept_events w r arc"
    and us1: "silent c 0 w \<longrightarrow> user w1 = user w"
    by (rule up_to_accept [OF idle hk jk acc revs])
  obtain w2 where 2: "stage c r w1 (set_verb c r w1) (q\<lparr>req_verb := tag verb verb\<rparr>) w2 []" "ends w2 = ends w1"
    using set_verb_pass [OF busy, of verb] verb q0 by blast
  let ?q3 = "with_url uri (q\<lparr>req_verb := tag verb verb\<rparr>)"
  obtain w3 where 3: "stage c r w2 (set_urls c r w2) ?q3 w3 []" "ends w3 = ends w2"
    using set_urls_pass [OF stageD(2) [OF 2(1)], of uri] uri q0 by (auto simp: FRA_CORE_MAX_URL_LENGTH_def)
  have q3: "endpoint ?q3 = 0" using q0 by (simp add: with_url_def)
  note v3 = evolves_trans [OF f1(1) evolves_trans [OF stageD(3) [OF 2(1)] stageD(3) [OF 3(1)]]]
  note f3 = evolves_frame [OF v3]
  obtain w4 where 4: "stage c r w3 (fra_p_req_hook_execute c r FRA_REQ_BEFORE_ENDPOINT w3) ?q3 w4
      (calls r (req_fns w3 (endpoint ?q3) FRA_REQ_BEFORE_ENDPOINT))" "ends w4 = ends w3"
    by (rule early_stage [OF stageD(2) [OF 3(1)] _ _ hooks_pass_frame [OF hk f3], of FRA_REQ_BEFORE_ENDPOINT])
      (use q3 in \<open>simp_all add: FRA_REQ_BEFORE_ENDPOINT_def FRA_REQ_NEW_def\<close>)
  show ?thesis
  proof (rule that [OF _ stageD(2) [OF 4(1)]])
    show "evolves w w4" by (rule evolves_trans [OF v3 stageD(3) [OF 4(1)]])
    show "filled 0 verb uri env ?q3" using q0 by (simp add: filled_def with_url_def)
    show "silent c 0 w \<longrightarrow> user w4 = user w"
      using us1 stageD(6) [OF 2(1)] stageD(6) [OF 3(1)] stageD(6) [OF 4(1)] silentD(4) [of c 0 w] q3 frame_hooks [OF f3] by auto
  qed (use stageD(1,4,5) [OF 2(1)] stageD(1,4,5) [OF 3(1)] stageD(1,4,5) [OF 4(1)] 1 2(2) 3(2) 4(2) f1 ev1 q3
      frame_hooks [OF f3] in simp_all)
qed

text \<open>A request as it is handed to the hooks of type FRA_REQ_NEW and to the handler.\<close>

definition handed :: "'u ctx \<Rightarrow> 'u world \<Rightarrow> addr \<Rightarrow> string \<Rightarrow> string \<Rightarrow> string list \<Rightarrow> addr \<Rightarrow> fra_req \<Rightarrow> 'u world \<Rightarrow> bool" where
  "handed c w e verb uri env r q w' \<longleftrightarrow> evolves w w' \<and> busy c r q w' \<and> filled e verb uri env q"

lemma up_to_new_hooks:
  assumes idle: "idle c w" and hk: "hooks_pass c e w" and jk: "\<forall>a. endpoint (junk c a) = 0"
    and acc: "accepts w = (arc, env) # rest" "0 \<le> arc" and revs: "revs AND POLLIN \<noteq> 0"
    and verb: "get_param c ''REQUEST_METHOD'' env = Some verb" "length verb < 50"
    and uri: "get_param c ''REQUEST_URI'' env = Some uri" "length uri \<le> 512"
    and route: "routes (urls (w_urls w)) (path_of uri, verb) = Some e" and n: "cells (ends w) e = Some n"
  obtains r q w' where "fra_p_req_handle_new c revs w = after_store c r w'"
    and "handed c w e verb uri env r q w'" and "accepts w' = rest"
    and "events w' = events w @ accept_events w r arc @ calls r (req_fns w 0 FRA_REQ_BEFORE_ENDPOINT) @
      (if store_empty n = 0 then calls r (req_fns w e FRA_END_STORE_CREATED) else [])"
    and "silent c e w \<longrightarrow> user w' = user w"
proof -
  have st: "steady c w" using idle by (simp add: idle_def)
  obtain r q w1 where 1: "fra_p_req_handle_new c revs w = after_split c r w1"
    and busy: "busy c r q w1" and q: "filled 0 verb uri env q"
    and f1: "evolves w w1" "accepts w1 = rest" "ends w1 = ends w"
    and ev1: "events w1 = events w @ accept_events w r arc @ calls r (req_fns w 0 FRA_REQ_BEFORE_ENDPOINT)"
    and us1: "silent c 0 w \<longrightarrow> user w1 = user w"
    by (rule up_to_routing [OF idle hooks_pass_0 [OF hk st] jk acc revs verb uri])
  have route1: "routes (urls (w_urls w1)) (bstr_content (base_url q), bstr_content (req_verb q)) = Some e"
    using route evolves_frame [OF f1(1)] q by (simp add: frame_def filled_def)
  have "endpoint q = 0" using q by (simp add: filled_def)
  note 2 = find_endpoint_pass [OF busy this route1]
  let ?q2 = "q\<lparr>endpoint := e\<rparr>" let ?w2 = "with_req r ?q2 w1"
  have "cells (reqs w1) r = Some q" using busy by (simp add: busy_def)
  then have v2: "evolves w ?w2" by (rule evolves_trans [OF f1(1) evolves_with_req]) simp
  note f2 = evolves_frame [OF v2]
  have n2: "cells (ends ?w2) (endpoint ?q2) = Some n" using n f1(3) by simp
  obtain s w3 where 3: "stage c r ?w2 (fra_p_end_store_set c r ?w2) (?q2\<lparr>endpoint_store := s\<rparr>) w3
      (if store_empty n = 0 then calls r (req_fns ?w2 (endpoint ?q2) FRA_END_STORE_CREATED) else [])"
    using store_pass [OF 2(2) _ n2] hooks_pass_frame [OF hk f2] by auto
  show ?thesis
  proof (rule that)
    show "handed c w e verb uri env r (?q2\<lparr>endpoint_store := s\<rparr>) w3"
      using stageD(2) [OF 3] evolves_trans [OF v2 stageD(3) [OF 3]] q by (simp add: handed_def filled_def)
    show "silent c e w \<longrightarrow> user w3 = user w"
      using us1 stageD(6) [OF 3] silent_0 [OF _ st] silentD(5) [of c e w] frame_hooks [OF f2] by auto
  qed (use 1 2(1) stageD(1,4,5) [OF 3] f1(2) ev1 frame_hooks [OF f2] in \<open>simp_all add: or_fcgx_cleanup_ok\<close>)
qed

section \<open>The served request\<close>

lemma served:
  assumes "idle c w" and "hooks_pass c e w" and "\<forall>a. endpoint (junk c a) = 0"
    and "accepts w = (arc, env) # rest" and "0 \<le> arc" and "revs AND POLLIN \<noteq> 0"
    and "get_param c ''REQUEST_METHOD'' env = Some verb" and "length verb < 50"
    and "get_param c ''REQUEST_URI'' env = Some uri" and "length uri \<le> 512"
    and "routes (urls (w_urls w)) (path_of uri, verb) = Some e" and n: "cells (ends w) e = Some n"
    and ok: "\<And>r q w1. handed c w e verb uri env r q w1 \<Longrightarrow>
      pass_at c (req_fns w e FRA_REQ_NEW) r w1 \<and> tame c True (handler_fns n) r w1"
  obtains r q w1 w2 rc w3 w' where "handed c w e verb uri env r q w1" and "silent c e w \<longrightarrow> user w1 = user w"
    and "run_hooks c True (req_fns w e FRA_REQ_NEW) r w1 = Inr (0, w2)" and "handed c w e verb uri env r q w2"
    and "call_handler c r w2 = Inr (rc, w3)" and "fra_p_req_handle_new c revs w = finish_req c r w3"
    and "user w' = user w3" and "fra_p_req_handle_new c revs w = Inr (0, w')" and "idle c w'" and "evolves w w'"
    and "accepts w' = rest" and "events w' = events w @ served_events w r arc e n"
proof -
  obtain r q w1 where 1: "fra_p_req_handle_new c revs w = after_store c r w1"
    and h1: "handed c w e verb uri env r q w1" and acc1: "accepts w1 = rest"
    and ev1: "events w1 = events w @ accept_events w r arc @ calls r (req_fns w 0 FRA_REQ_BEFORE_ENDPOINT) @
      (if store_empty n = 0 then calls r (req_fns w e FRA_END_STORE_CREATED) else [])"
    and us1: "silent c e w \<longrightarrow> user w1 = user w"
    by (rule up_to_new_hooks [OF assms(1-12)])
  from h1 have busy: "busy c r q w1" and e: "endpoint q = e" and v1: "evolves w w1" by (simp_all add: handed_def filled_def)
  note f1 = evolves_frame [OF v1]
  note hk = ok [OF h1]
  have st: "steady c w1" and q: "cells (reqs w1) r = Some q" and le: "endpoint q \<noteq> 0 \<longrightarrow> cells (ends w1) (endpoint q) \<noteq> None"
    using busy by (auto simp: busy_def held_def)
  have fns1: "req_fns w1 (endpoint q) FRA_REQ_NEW = req_fns w e FRA_REQ_NEW" using frame_hooks [OF f1] e by simp
  obtain w2 where 2: "run_hooks c True (req_fns w e FRA_REQ_NEW) r w1 = Inr (0, w2)" and s2: "same_lib w1 w2"
    and ev2: "events w2 = events w1 @ calls r (req_fns w e FRA_REQ_NEW)"
    using run_hooks_pass hk by blast
  have exec: "fra_p_req_hook_execute c r FRA_REQ_NEW w1 = Inr (0, w2)"
    using req_hook_execute_runs [OF pass_at_tame steadyD(2,4) [OF st] heap_ok_nonnull [OF steadyD(3) [OF st] q] q le, of FRA_REQ_NEW]
      hk 2 fns1 by (simp add: FRA_REQ_NEW_def FRA_HOOK_COUNT_def)
  have busy2: "busy c r q w2" by (rule busy_same_lib [OF busy s2])
  have v2: "evolves w w2" by (rule evolves_trans [OF v1 evolves_same_lib [OF s2]])
  note f2 = evolves_frame [OF v2]
  obtain n2 where n2: "cells (ends w2) (endpoint q) = Some n2" "end_core n2 = end_core n"
    using frame_live [OF f2 n] e by auto
  have fns: "handler_fns n2 = handler_fns n" using n2(2) by (simp add: handler_fns_def end_core_def)
  have "tame c True (handler_fns n2) r w2" using hk tame_same_lib [OF _ s2] fns by simp
  then obtain rc w3 where 3: "call_handler c r w2 = Inr (rc, w3)" "busy c r q w3" "evolves w2 w3" "accepts w3 = accepts w2"
    "events w3 = events w2 @ calls r (handler_fns n2)"
    using handler_pass [OF _ busy2 n2(1)] by blast
  obtain w' where 4: "finish_req c r w3 = Inr (0, w')" "idle c w'" "evolves w3 w'" "accepts w' = accepts w3"
    "events w' = events w3 @ [FCGX_Finish_r (Some r)]" "user w' = user w3"
    by (rule finish_pass [OF 3(2)])
  have run: "fra_p_req_handle_new c revs w = finish_req c r w3"
    by (simp add: 1 exec 3(1) or_fcgx_cleanup_ok)
  show ?thesis
  proof (rule that [OF h1 us1 2 _ 3(1) run])
    show "evolves w w'" using v2 3(3) 4(3) evolves_trans by blast
    show "handed c w e verb uri env r q w2" using h1 v2 busy2 by (simp add: handed_def)
  qed (use 4 3(4,5) ev2 ev1 fns run acc1 same_lib_fields(13) [OF s2] in \<open>simp_all add: served_events_def\<close>)
qed

text \<open>C1: a request that no hook stops reaches its handler. On the idle library, a request with a
  verb of less than 50 and a url of up to 512 bytes whose path is routed to the endpoint \<open>e\<close> for
  that verb returns 0 after exactly these calls, in this order: the global hooks, the hooks for a
  new request object if none is cached, those before FastCGI, the accept, the hooks before
  routing, those for a new store if the endpoint has none cached, the hooks of the endpoint and
  the global ones for the request, the handler of \<open>e\<close>, the end of the request. The handler finds
  the endpoint, verb, url, path and query of this request in it, and afterwards the library is
  idle. The hooks for the request and the handler only have to behave on the request as it is
  handed to them, in which they may use their variables.\<close>

theorem request_served:
  assumes "idle c w" and "hooks_pass c e w" and "\<forall>a. endpoint (junk c a) = 0"
    and "accepts w = (arc, env) # rest" and "0 \<le> arc" and "revs AND POLLIN \<noteq> 0"
    and "get_param c ''REQUEST_METHOD'' env = Some verb" and "length verb < 50"
    and "get_param c ''REQUEST_URI'' env = Some uri" and "length uri \<le> 512"
    and "routes (urls (w_urls w)) (path_of uri, verb) = Some e" and n: "cells (ends w) e = Some n"
    and calls: "\<forall>r q w1. handed c w e verb uri env r q w1 \<longrightarrow>
      pass_at c (req_fns w e FRA_REQ_NEW) r w1 \<and> tame c True (handler_fns n) r w1"
  shows "\<exists>r q w1 rc w2 w'. handed c w e verb uri env r q w1 \<and> call_handler c r w1 = Inr (rc, w2) \<and>
    fra_p_req_handle_new c revs w = finish_req c r w2 \<and> user w' = user w2 \<and>
    fra_p_req_handle_new c revs w = Inr (0, w') \<and> idle c w' \<and> evolves w w' \<and> accepts w' = rest \<and>
    events w' = events w @ served_events w r arc e n"
  using served [OF assms(1-12)] calls by metis

lemma demo_fns:
  "f \<in> set (req_fns (demo_world g) 1 type) \<Longrightarrow> 0 \<le> type \<Longrightarrow> type < FRA_HOOK_COUNT \<Longrightarrow> succeeds demo_ctx f"
proof (rule demo_succeeds)
  assume f: "f \<in> set (req_fns (demo_world g) 1 type)" and "0 \<le> type" and "type < FRA_HOOK_COUNT"
  then have "type \<in> {0, 1, 2, 3, 4, 5, 6}" by (auto simp: FRA_HOOK_COUNT_def)
  with f show "f \<noteq> 13"
    by (auto simp: req_fns_def array_fns_def demo_world_def demo_hooks_def demo_end_def numeral_eq_Suc split: if_splits)
qed

lemma demo_pass: "hooks_pass demo_ctx 1 (demo_world g)"
proof -
  have "glob_fns (demo_world g) FRA_REQ_INCOMING = []"
    by (simp add: glob_fns_def array_fns_def demo_world_def demo_hooks_def FRA_REQ_INCOMING_def numeral_eq_Suc)
  moreover have "succeeds demo_ctx f" if "f \<in> set (req_fns (demo_world g) 1 type)" and "type \<in> {0..<FRA_REQ_NEW}" for f type
    using that by (intro demo_fns) (auto simp: FRA_REQ_NEW_def FRA_HOOK_COUNT_def)
  ultimately show ?thesis by (simp add: hooks_pass_def)
qed

lemma demo_new: "pass_at demo_ctx (req_fns (demo_world g) 1 FRA_REQ_NEW) r w \<and> tame demo_ctx True fs r w"
proof (intro conjI succeeds_pass_at ballI benign_tame demo_benign)
  fix f assume "f \<in> set (req_fns (demo_world g) 1 FRA_REQ_NEW)"
  then show "succeeds demo_ctx f" by (rule demo_fns) (simp_all add: FRA_REQ_NEW_def FRA_HOOK_COUNT_def)
qed

theorem request_served_witness:
  "\<exists>g r w'. routes (urls g) = [(''/a'', ''GET'') \<mapsto> 1] \<and>
    fra_p_req_handle_new demo_ctx POLLIN (demo_world g) = Inr (0, w') \<and>
    events w' = [FCGX_InitRequest (Some r), FCGX_Accept_r (Some r) 0, Called 12 r, Called 11 r, FCGX_Finish_r (Some r)]"
proof -
  obtain g where g: "routes_ready plain_bstr g" "routes (urls g) = [(''/a'', ''GET'') \<mapsto> 1]"
    using demo_routes by blast
  have params: "get_param demo_ctx ''REQUEST_METHOD'' demo_env = Some ''GET''"
    "get_param demo_ctx ''REQUEST_URI'' demo_env = Some ''/a?x=1''"
    by (simp_all add: demo_ctx_def demo_env_def)
  have ev: "served_events (demo_world g) r 0 1 demo_end =
      [FCGX_InitRequest (Some r), FCGX_Accept_r (Some r) 0, Called 12 r, Called 11 r, FCGX_Finish_r (Some r)]" for r
    by (simp add: served_events_def glob_fns_def req_fns_def array_fns_def demo_world_def demo_hooks_def
        demo_end_def handler_fns_def FRA_REQ_INCOMING_def FRA_REQ_CREATED_def FRA_REQ_BEFORE_FCGX_def FRA_REQ_BEFORE_ENDPOINT_def
        FRA_END_STORE_CREATED_def FRA_REQ_NEW_def numeral_eq_Suc)
  have w: "urls (w_urls (demo_world g)) = urls g" "cells (ends (demo_world g)) 1 = Some demo_end" "events (demo_world g) = []"
    by (simp_all add: demo_world_def)
  have "\<forall>r q w1. handed demo_ctx (demo_world g) 1 ''GET'' ''/a?x=1'' demo_env r q w1 \<longrightarrow>
      pass_at demo_ctx (req_fns (demo_world g) 1 FRA_REQ_NEW) r w1 \<and> tame demo_ctx True (handler_fns demo_end) r w1"
    using demo_new by blast
  from request_served [OF demo_idle [OF g] demo_pass demo_answer_hyps(2,3) [OF g] _ _ params(1) _ params(2) _ _ w(2) this, of POLLIN]
  show ?thesis using g(2) by (auto simp: POLLIN_def w(1,3) ev intro!: exI [of _ g] simp del: One_nat_def)
qed

section \<open>The request without an endpoint\<close>

lemma find_endpoint_none:
  assumes busy: "busy c r q w" and "endpoint q = 0"
    and route: "routes (urls (w_urls w)) (bstr_content (base_url q), bstr_content (req_verb q)) = None"
  shows "find_endpoint c r w = Inr (- 1, with_req r (q\<lparr>endpoint := 0\<rparr>) w)" 
    and "busy c r (q\<lparr>endpoint := 0\<rparr>) (with_req r (q\<lparr>endpoint := 0\<rparr>) w)"
proof -
  from assms have q: "cells (reqs w) r = Some q" and st: "steady c w" by (simp_all add: busy_def held_def)
  have "fra_p_url_to_endpoint (bs c) (bstr_content (req_verb q)) (bstr_content (base_url q)) (w_urls w) (w_env w) =
      Inr (0, w_urls w, w_env w)"
    using to_endpoint_ok [OF steadyD(8) [OF st]] steadyD(1) [OF st] by (simp add: route)
  then show "find_endpoint c r w = Inr (- 1, with_req r (q\<lparr>endpoint := 0\<rparr>) w)"
    using upd_req_ok [OF steadyD(3) [OF st] q] assms(2)
    by (simp add: find_endpoint_def hget_ok [OF steadyD(3) [OF st] q])
  show "busy c r (q\<lparr>endpoint := 0\<rparr>) (with_req r (q\<lparr>endpoint := 0\<rparr>) w)"
    by (rule busy_with_req [OF busy]) (simp_all add: assms(2))
qed

text \<open>C9: a request for a path or verb without a route never reaches a handler. It gets the
  error page, -1 is returned and the library is idle again; the only callbacks called are the
  global hooks up to the ones before routing.\<close>

theorem request_unrouted:
  assumes "idle c w" and "hooks_pass c 0 w" and "\<forall>a. endpoint (junk c a) = 0"
    and "accepts w = (arc, env) # rest" and "0 \<le> arc" and "revs AND POLLIN \<noteq> 0"
    and verb: "get_param c ''REQUEST_METHOD'' env = Some verb" "length verb < 50"
    and uri: "get_param c ''REQUEST_URI'' env = Some uri" "length uri \<le> 512"
    and route: "routes (urls (w_urls w)) (path_of uri, verb) = None"
  shows "\<exists>r w'. fra_p_req_handle_new c revs w = Inr (- 1, w') \<and> idle c w' \<and> frame w w' \<and> accepts w' = rest \<and>
    events w' = events w @ accept_events w r arc @ calls r (req_fns w 0 FRA_REQ_BEFORE_ENDPOINT) @
      [FCGX_FPrintF (Some r) error_page, FCGX_Finish_r (Some r)]"
proof -
  obtain r q w1 where 1: "fra_p_req_handle_new c revs w = after_split c r w1"
    and busy: "busy c r q w1" and q: "filled 0 verb uri env q"
    and f1: "evolves w w1" "accepts w1 = rest" "ends w1 = ends w"
    and ev1: "events w1 = events w @ accept_events w r arc @ calls r (req_fns w 0 FRA_REQ_BEFORE_ENDPOINT)"
    by (rule up_to_routing [OF assms(1-10)])
  have "routes (urls (w_urls w1)) (bstr_content (base_url q), bstr_content (req_verb q)) = None" and "endpoint q = 0"
    using route evolves_frame [OF f1(1)] q by (simp_all add: filled_def frame_def)
  note 2 = find_endpoint_none [OF busy this(2,1)]
  obtain w' where 3: "fcgx_cleanup c r (with_req r (q\<lparr>endpoint := 0\<rparr>) w1) = Inr (- 1, w')"
    "frame (with_req r (q\<lparr>endpoint := 0\<rparr>) w1) w'" "idle c w'" "accepts w' = accepts w1"
    "events w' = events w1 @ [FCGX_FPrintF (Some r) error_page, FCGX_Finish_r (Some r)]"
    by (rule fcgx_cleanup_runs [OF 2(2)]) simp
  have "fra_p_req_handle_new c revs w = Inr (- 1, w')"
    using 2(1) 3(1) by (simp add: 1 or_fcgx_cleanup_def)
  moreover have "frame w w'" using evolves_frame [OF f1(1)] frame_with(1) 3(2) frame_trans by blast
  ultimately show ?thesis
    using 3(3-5) f1(2) ev1 by (intro exI [of _ r] exI [of _ w']) simp
qed

lemma idle_accepts: "idle c w \<Longrightarrow> idle c (w\<lparr>accepts := a\<rparr>)"
proof -
  assume i: "idle c w"
  then have st: "steady c w" by (simp add: idle_def)
  have "steady c (w\<lparr>accepts := a\<rparr>)"
    by (rule steady_same [OF st]) (use steadyD(3) [OF st] in \<open>simp_all add: frame_def\<close>)
  with i show ?thesis by (simp add: idle_def req_pool_def store_pool_def)
qed

theorem request_unrouted_witness:
  "\<exists>g r w'. routes (urls g) = [(''/a'', ''GET'') \<mapsto> 1] \<and>
    fra_p_req_handle_new demo_ctx POLLIN ((demo_world g)\<lparr>accepts := [(0, [''REQUEST_METHOD=PUT'', ''REQUEST_URI=/a''])]\<rparr>) =
      Inr (- 1, w') \<and>
    events w' = [FCGX_InitRequest (Some r), FCGX_Accept_r (Some r) 0, FCGX_FPrintF (Some r) error_page, FCGX_Finish_r (Some r)]"
proof -
  obtain g where g: "routes_ready plain_bstr g" "routes (urls g) = [(''/a'', ''GET'') \<mapsto> 1]"
    using demo_routes by blast
  let ?env = "[''REQUEST_METHOD=PUT'', ''REQUEST_URI=/a'']"
  let ?w = "(demo_world g)\<lparr>accepts := [(0, ?env)]\<rparr>"
  have params: "get_param demo_ctx ''REQUEST_METHOD'' ?env = Some ''PUT''" "get_param demo_ctx ''REQUEST_URI'' ?env = Some ''/a''"
    by (simp_all add: demo_ctx_def)
  have req: "req_fns ?w 0 type = array_fns (hookmem demo_hooks) (req_hooks demo_hooks) type" for type
    by (simp add: req_fns_def demo_world_def)
  have glob: "glob_fns ?w FRA_REQ_INCOMING = []"
    by (simp add: glob_fns_def array_fns_def demo_world_def demo_hooks_def FRA_REQ_INCOMING_def numeral_eq_Suc)
  have "set (req_fns ?w 0 type) \<subseteq> set (req_fns (demo_world g) 1 type)" for type
    unfolding req by (auto simp: req_fns_def demo_world_def split: option.splits)
  then have pass: "hooks_pass demo_ctx 0 ?w"
    using demo_pass [of g] glob unfolding hooks_pass_def by (simp add: subset_iff del: One_nat_def)
  have none: "req_fns ?w 0 FRA_REQ_CREATED = []" "req_fns ?w 0 FRA_REQ_BEFORE_FCGX = []" "req_fns ?w 0 FRA_REQ_BEFORE_ENDPOINT = []"
    unfolding req by (simp_all add: array_fns_def demo_hooks_def FRA_REQ_CREATED_def FRA_REQ_BEFORE_FCGX_def
        FRA_REQ_BEFORE_ENDPOINT_def numeral_eq_Suc)
  have w: "w_urls (demo_world g) = g" "accepts ?w = [(0, ?env)]" "events (demo_world g) = []" "empty_req (demo_world g) = 0"
    by (simp_all add: demo_world_def)
  obtain r w' where "fra_p_req_handle_new demo_ctx POLLIN ?w = Inr (- 1, w')"
    "events w' = [FCGX_InitRequest (Some r), FCGX_Accept_r (Some r) 0, FCGX_FPrintF (Some r) error_page, FCGX_Finish_r (Some r)]"
    using request_unrouted [OF idle_accepts [OF demo_idle [OF g]] pass demo_answer_hyps(2) [OF g] w(2) _ _ params(1) _ params(2), of POLLIN]
      g(2) by (auto simp: POLLIN_def w glob none)
  with g(2) show ?thesis by blast
qed

end
