(* ===== verification/Poll.thy ===== *)
theory Poll
  imports Routing
begin

text \<open>
  The main loop, \<open>src/poll.c\<close>: the two arrays of file descriptors and of their callbacks, which
  grow together, and the loop around \<open>poll\<close> that calls them. The lock \<open>main_poll_lock\<close> is taken
  whether or not \<open>fra_p_pthreads\<close> is set, except by \<open>fra_glob_poll_stop\<close>.
\<close>

section \<open>Arrays\<close>

definition sizeof_pollfd :: nat where "sizeof_pollfd = 8"
definition sizeof_callback :: nat where "sizeof_callback = 16"
definition sizeof_int :: nat where "sizeof_int = 4"

definition FRA_CORE_DYNAMIC_ARRAYS_INITIAL_SIZE :: int where "FRA_CORE_DYNAMIC_ARRAYS_INITIAL_SIZE = 10"

text \<open>Entry \<open>i\<close> of an array of entries of \<open>sz\<close> bytes.\<close>

definition in_block :: "nat \<Rightarrow> int \<Rightarrow> 'a block \<Rightarrow> bool" where
  "in_block sz i b \<longleftrightarrow> 0 \<le> i \<and> Suc (nat i) * sz \<le> bytes b"

definition blk_get :: "nat \<Rightarrow> int \<Rightarrow> 'a block ptr \<Rightarrow> 'a outcome" where
  "blk_get sz i p = bindo (deref p) (\<lambda>b.
     if \<not> in_block sz i b then Inl (Undef Out_of_bounds)
     else case entries b (nat i) of None \<Rightarrow> Inl (Undef Uninit_read) | Some x \<Rightarrow> Inr x)"

definition blk_put :: "nat \<Rightarrow> int \<Rightarrow> 'a \<Rightarrow> 'a block ptr \<Rightarrow> 'a block ptr outcome" where
  "blk_put sz i x p = bindo (deref p) (\<lambda>b.
     if \<not> in_block sz i b then Inl (Undef Out_of_bounds)
     else Inr (Live (b\<lparr>entries := (entries b)(nat i := Some x)\<rparr>)))"

definition blk_malloc :: "nat \<Rightarrow> env \<Rightarrow> 'a block ptr \<times> env" where
  "blk_malloc n v = (let (ok, v) = take_block v in (if ok then Live \<lparr>entries = (\<lambda>_. None), bytes = n\<rparr> else Null, v))"

text \<open>\<open>realloc\<close> of a live block to more bytes; \<open>Null\<close> when it fails, the old block stays.\<close>

definition blk_realloc :: "'a block ptr \<Rightarrow> nat \<Rightarrow> env \<Rightarrow> ('a block ptr \<times> env) outcome" where
  "blk_realloc p n v = bindo (deref p) (\<lambda>b.
     let (ok, v) = draw v in Inr (if ok then Live (b\<lparr>bytes := n\<rparr>) else Null, v))"

definition blk_free :: "'a block ptr \<Rightarrow> env \<Rightarrow> ('a block ptr \<times> env) outcome" where
  "blk_free p v = (case p of Null \<Rightarrow> Inr (Null, v) | Live b \<Rightarrow> Inr (Freed, drop_block v)
     | Freed \<Rightarrow> Inl (Undef Use_after_free))"

section \<open>Adding file descriptors\<close>

definition set_poll :: "(poll_globals \<Rightarrow> poll_globals) \<Rightarrow> 'u world \<Rightarrow> 'u world" where
  "set_poll f w = w\<lparr>w_poll := f (w_poll w)\<rparr>"

definition lock_poll :: "'u op" where
  "lock_poll w = bindo (pthread_mutex_lock (w_env w) (main_poll_lock (w_poll w))) (\<lambda>(rc, v, m).
     Inr (rc, set_poll (main_poll_lock_update (\<lambda>_. m)) (w\<lparr>w_env := v\<rparr>)))"

definition unlock_poll :: "'u op" where
  "unlock_poll w = bindo (pthread_mutex_unlock (w_env w) (main_poll_lock (w_poll w))) (\<lambda>(rc, v, m).
     Inr (rc, set_poll (main_poll_lock_update (\<lambda>_. m)) (w\<lparr>w_env := v\<rparr>)))"

definition fail_unlock_poll :: "'u op" where
  "fail_unlock_poll w = bindo (unlock_poll w) (\<lambda>(rc, w). Inr (- 1, w))"

definition main_poll_maybe_grow :: "poll_globals \<Rightarrow> env \<Rightarrow> (int \<times> poll_globals \<times> env) outcome" where
  "main_poll_maybe_grow p v =
     (if \<not> main_poll_len p < main_poll_max_len p then Inr (- 1, p, v)
      else if main_poll_len p = main_poll_max_len p - 1 then
        bindo (grow_len (main_poll_max_len p)) (\<lambda>new_max.
          if \<not> new_max > main_poll_max_len p then Inr (- 1, p, v)
          else
            bindo (blk_realloc (main_poll p) (nat new_max * sizeof_pollfd) v) (\<lambda>(tmp, v).
              if tmp = Null then Inr (- 1, p, v)
              else
                let p = p\<lparr>main_poll := tmp\<rparr> in
                bindo (blk_realloc (callbacks p) (nat new_max * sizeof_pollfd) v) (\<lambda>(tmp, v).
                  if tmp = Null then Inr (- 1, p, v)
                  else Inr (0, p\<lparr>callbacks := tmp, main_poll_max_len := new_max\<rparr>, v))))
      else Inr (0, p, v))"

text \<open>The two stores of \<open>fd_add\<close> and the new length.\<close>

definition poll_append :: "int \<Rightarrow> short \<Rightarrow> fnptr \<Rightarrow> fnptr \<Rightarrow> addr \<Rightarrow> poll_globals \<Rightarrow> poll_globals outcome" where
  "poll_append descr ev cb req_cb req p =
     bindo (blk_put sizeof_pollfd (main_poll_len p) \<lparr>fd = descr, fd_events = ev, revents = None\<rparr> (main_poll p)) (\<lambda>mp.
     bindo (blk_put sizeof_callback (main_poll_len p)
         \<lparr>cb_req = req, cb_fn = (if req \<noteq> 0 then req_cb else cb)\<rparr> (callbacks p)) (\<lambda>cbs.
       Inr (p\<lparr>main_poll := mp, callbacks := cbs, main_poll_len := main_poll_len p + 1\<rparr>)))"

definition fd_add :: "int \<Rightarrow> short \<Rightarrow> fnptr \<Rightarrow> fnptr \<Rightarrow> addr \<Rightarrow> 'u op" where
  "fd_add descr ev cb req_cb req w =
     bindo (lock_poll w) (\<lambda>(rc, w).
       if rc \<noteq> 0 then Inr (- 1, w)
       else if \<not> initialized (w_poll w) then fail_unlock_poll w
       else
         bindo (main_poll_maybe_grow (w_poll w) (w_env w)) (\<lambda>(rc, p, v).
           let w = w\<lparr>w_poll := p, w_env := v\<rparr> in
           if rc \<noteq> 0 then fail_unlock_poll w
           else
             bindo (poll_append descr ev cb req_cb req (w_poll w)) (\<lambda>p.
             bindo (unlock_poll (w\<lparr>w_poll := p\<rparr>)) (\<lambda>(rc, w). Inr (0, w)))))"

definition fra_req_fd_add :: "addr \<Rightarrow> int \<Rightarrow> short \<Rightarrow> fnptr \<Rightarrow> 'u op" where
  "fra_req_fd_add req descr ev cb w = fd_add descr ev 0 cb req w"

definition fra_glob_fd_add :: "int \<Rightarrow> short \<Rightarrow> fnptr \<Rightarrow> 'u op" where
  "fra_glob_fd_add descr ev cb w = fd_add descr ev cb 0 0 w"

section \<open>Init and deinit\<close>

definition free_poll_arrays :: "bool \<Rightarrow> 'u world \<Rightarrow> 'u world outcome" where
  "free_poll_arrays both w =
     bindo (if both then blk_free (callbacks (w_poll w)) (w_env w) else Inr (callbacks (w_poll w), w_env w)) (\<lambda>(cbs, v).
     bindo (blk_free (main_poll (w_poll w)) v) (\<lambda>(mp, v).
       Inr (set_poll (\<lambda>p. p\<lparr>callbacks := cbs, main_poll := mp\<rparr>) (w\<lparr>w_env := v\<rparr>))))"

text \<open>The callbacks are given the space of as many \<open>int\<close>s.\<close>

definition fra_p_poll_init :: "'u ctx \<Rightarrow> 'u op" where
  "fra_p_poll_init c w =
     bindo (lock_poll w) (\<lambda>(rc, w).
       if rc \<noteq> 0 then Inr (- 1, w)
       else if initialized (w_poll w) then fail_unlock_poll w
       else
         let n = nat FRA_CORE_DYNAMIC_ARRAYS_INITIAL_SIZE;
             (mp, v) = blk_malloc (n * sizeof_pollfd) (w_env w);
             w = set_poll (main_poll_update (\<lambda>_. mp)) (w\<lparr>w_env := v\<rparr>) in
         if mp = Null then fail_unlock_poll w
         else
           let (cbs, v) = blk_malloc (n * sizeof_int) (w_env w);
               w = set_poll (callbacks_update (\<lambda>_. cbs)) (w\<lparr>w_env := v\<rparr>) in
           if cbs = Null then bindo (free_poll_arrays False w) fail_unlock_poll
           else
             let w = set_poll (\<lambda>p. p\<lparr>main_poll_len := 0,
                   main_poll_max_len := FRA_CORE_DYNAMIC_ARRAYS_INITIAL_SIZE, initialized := True\<rparr>) w in
             bindo (unlock_poll w) (\<lambda>(rc, w).
               if rc \<noteq> 0 then Inr (- 1, w)
               else
                 bindo (fra_glob_fd_add 0 POLLIN (handle_new_fn c) w) (\<lambda>(rc, w).
                   if rc \<noteq> 0 then bindo (free_poll_arrays True w) fail_unlock_poll
                   else Inr (0, w))))"

text \<open>Nothing but the two arrays is reset.\<close>

definition fra_p_poll_deinit :: "'u world \<Rightarrow> 'u world outcome" where
  "fra_p_poll_deinit w =
     bindo (blk_free (main_poll (w_poll w)) (w_env w)) (\<lambda>(mp, v).
     bindo (blk_free (callbacks (w_poll w)) v) (\<lambda>(cbs, v).
       Inr (set_poll (\<lambda>p. p\<lparr>main_poll := mp, callbacks := cbs\<rparr>) (w\<lparr>w_env := v\<rparr>))))"

section \<open>The loop\<close>

text \<open>\<open>poll\<close> takes the next result; without one it waits for ever. On success it writes the
  \<open>revents\<close> of the \<open>main_poll_len\<close> first entries.\<close>

definition put_revents :: "int \<Rightarrow> (nat \<Rightarrow> short) \<Rightarrow> pollfd block \<Rightarrow> pollfd block" where
  "put_revents n revs b = b\<lparr>entries := (\<lambda>i. if int i < n
     then map_option (revents_update (\<lambda>_. Some (revs i))) (entries b i) else entries b i)\<rparr>"

definition poll :: "'u op" where
  "poll w = (case polls w of [] \<Rightarrow> Inl Blocked
     | (rc, revs) # rest \<Rightarrow>
         let w = w\<lparr>polls := rest\<rparr> in
         if rc \<le> 0 then Inr (rc, w)
         else bindo (deref (main_poll (w_poll w))) (\<lambda>b.
           Inr (rc, set_poll (main_poll_update (\<lambda>_. Live (put_revents (main_poll_len (w_poll w)) revs b))) w)))"

text \<open>Calling the callback of an entry; one of them is \<open>fra_p_req_handle_new\<close> itself.\<close>

definition fd_call :: "'u ctx \<Rightarrow> fd_callback \<Rightarrow> short \<Rightarrow> 'u op" where
  "fd_call c k revs w =
     (if cb_fn k = 0 then Inl (Undef Wild_call)
      else if cb_req k = 0 \<and> cb_fn k = handle_new_fn c then fra_p_req_handle_new c revs w
      else call_fd c (cb_fn k) (cb_req k) revs (say (Called_fd (cb_fn k) (cb_req k) revs) w))"

fun dispatch :: "'u ctx \<Rightarrow> nat \<Rightarrow> int \<Rightarrow> 'u world \<Rightarrow> 'u world outcome" where
  "dispatch c 0 i w = Inl Out_of_fuel"
| "dispatch c (Suc n) i w =
     (if \<not> i < main_poll_len (w_poll w) then Inr w
      else
        bindo (blk_get sizeof_pollfd i (main_poll (w_poll w))) (\<lambda>e.
          case revents e of None \<Rightarrow> Inl (Undef Uninit_read)
          | Some revs \<Rightarrow>
              if revs AND fd_events e = 0 then dispatch c n (i + 1) w
              else
                bindo (blk_get sizeof_callback i (callbacks (w_poll w))) (\<lambda>k.
                bindo (fd_call c k revs w) (\<lambda>(rc, w). dispatch c n (i + 1) w))))"

fun poll_loop :: "'u ctx \<Rightarrow> nat \<Rightarrow> 'u op" where
  "poll_loop c 0 w = Inl Out_of_fuel"
| "poll_loop c (Suc n) w =
     bindo (poll w) (\<lambda>(rc, w).
       if \<not> rc > 0 then fail_unlock_poll w
       else
         bindo (dispatch c (fuel c) 0 w) (\<lambda>w.
           if should_stop (w_poll w) then Inr (0, w)
           else
             bindo (unlock_poll w) (\<lambda>(rc, w).
               if rc \<noteq> 0 then Inr (- 1, w)
               else
                 bindo (lock_poll w) (\<lambda>(rc, w).
                   if rc \<noteq> 0 then Inr (- 1, w) else poll_loop c n w))))"

definition fra_glob_poll :: "'u ctx \<Rightarrow> 'u op" where
  "fra_glob_poll c w =
     bindo (lock_poll w) (\<lambda>(rc, w).
       if rc \<noteq> 0 then Inr (- 1, w)
       else if \<not> initialized (w_poll w) then fail_unlock_poll w
       else poll_loop c (fuel c) (set_poll (should_stop_update (\<lambda>_. False)) w))"

definition fra_glob_poll_stop :: "'u op" where
  "fra_glob_poll_stop w =
     bindo (fra_p_lock (w_env w) (main_poll_lock (w_poll w))) (\<lambda>(rc, v, m).
       let w = set_poll (main_poll_lock_update (\<lambda>_. m)) (w\<lparr>w_env := v\<rparr>) in
       if rc \<noteq> 0 then Inr (- 1, w)
       else
         let w = set_poll (should_stop_update (\<lambda>_. True)) w in
         bindo (fra_p_unlock (w_env w) (main_poll_lock (w_poll w))) (\<lambda>(rc, v, m).
           let w = set_poll (main_poll_lock_update (\<lambda>_. m)) (w\<lparr>w_env := v\<rparr>) in
           if rc \<noteq> 0 then Inr (- 1, w) else Inr (0, w)))"

section \<open>The array of descriptors stays in bounds\<close>

definition poll_inv :: "poll_globals \<Rightarrow> bool" where
  "poll_inv p \<longleftrightarrow> (\<exists>b. main_poll p = Live b \<and> 0 \<le> main_poll_len p \<and> main_poll_len p < main_poll_max_len p \<and>
     nat (main_poll_max_len p) * sizeof_pollfd \<le> bytes b \<and>
     (\<forall>i. int i < main_poll_len p \<longrightarrow> entries b i \<noteq> None))"

lemma blk_put_ok:
  "blk_put sz i x p = Inr p' \<longleftrightarrow>
   (\<exists>b. p = Live b \<and> in_block sz i b \<and> p' = Live (b\<lparr>entries := (entries b)(nat i := Some x)\<rparr>))"
  by (cases p) (auto simp: blk_put_def)

lemma blk_realloc_ok:
  "blk_realloc p n v = Inr (p', v') \<Longrightarrow> \<exists>b. p = Live b \<and> (p' = Null \<or> p' = Live (b\<lparr>bytes := n\<rparr>))"
  by (cases p) (auto simp: blk_realloc_def split: prod.splits if_splits)

lemma maybe_grow_inv:
  assumes "poll_inv p" and "main_poll_maybe_grow p v = Inr (rc, p', v')"
  shows "poll_inv p'" and "main_poll_len p' = main_poll_len p" and "should_stop p' = should_stop p"
    and "initialized p' = initialized p" and "rc = 0 \<Longrightarrow> main_poll_len p' + 1 < main_poll_max_len p'"
  using assms
  by (auto simp: main_poll_maybe_grow_def bindo_eq_Inr poll_inv_def Let_def sizeof_pollfd_def nat_le_iff
      split: if_splits prod.splits dest!: blk_realloc_ok)

lemma poll_append_inv:
  assumes "poll_inv p" and "main_poll_len p + 1 < main_poll_max_len p" and "poll_append d ev cb rcb r p = Inr p'"
  shows "poll_inv p'" and "main_poll_len p' = main_poll_len p + 1"
proof -
  from assms(3) show "main_poll_len p' = main_poll_len p + 1" by (auto simp: poll_append_def bindo_eq_Inr)
  from assms show "poll_inv p'"
    by (auto simp: poll_append_def bindo_eq_Inr poll_inv_def blk_put_ok)
qed

lemma lock_poll_calm:
  "calm (w_env w) \<Longrightarrow> \<not> main_poll_lock (w_poll w) \<Longrightarrow> lock_poll w = Inr (0, set_poll (main_poll_lock_update (\<lambda>_. True)) w)"
  by (simp add: lock_poll_def pthread_mutex_lock_def draw_calm set_poll_def)

lemma unlock_poll_calm:
  "calm (w_env w) \<Longrightarrow> main_poll_lock (w_poll w) \<Longrightarrow> unlock_poll w = Inr (0, set_poll (main_poll_lock_update (\<lambda>_. False)) w)"
  by (simp add: unlock_poll_def pthread_mutex_unlock_def draw_calm set_poll_def)

lemma lock_poll_inv: "lock_poll w = Inr (rc, w') \<Longrightarrow> \<exists>m v. w' = w\<lparr>w_env := v, w_poll := (w_poll w)\<lparr>main_poll_lock := m\<rparr>\<rparr>"
  by (auto simp: lock_poll_def bindo_eq_Inr set_poll_def)

lemma unlock_poll_inv: "unlock_poll w = Inr (rc, w') \<Longrightarrow> \<exists>m v. w' = w\<lparr>w_env := v, w_poll := (w_poll w)\<lparr>main_poll_lock := m\<rparr>\<rparr>"
  by (auto simp: unlock_poll_def bindo_eq_Inr set_poll_def)

lemma fail_unlock_poll_inv:
  "fail_unlock_poll w = Inr (rc, w') \<Longrightarrow> rc = - 1 \<and> (\<exists>m v. w' = w\<lparr>w_env := v, w_poll := (w_poll w)\<lparr>main_poll_lock := m\<rparr>\<rparr>)"
  by (auto simp: fail_unlock_poll_def bindo_eq_Inr dest: unlock_poll_inv)

lemma poll_inv_lock [simp]: "poll_inv (p\<lparr>main_poll_lock := m\<rparr>) = poll_inv p"
  by (simp add: poll_inv_def)

lemma fd_add_inv:
  assumes "poll_inv (w_poll w)" and "fd_add d ev cb rcb r w = Inr (rc, w')"
  shows "poll_inv (w_poll w') \<and> (rc = 0 \<and> main_poll_len (w_poll w') = main_poll_len (w_poll w) + 1 \<or>
    rc = - 1 \<and> main_poll_len (w_poll w') = main_poll_len (w_poll w))"
proof -
  from assms(2) obtain rc1 w1 where 1: "lock_poll w = Inr (rc1, w1)"
    and run: "(if rc1 \<noteq> 0 then Inr (- 1, w1)
       else if \<not> initialized (w_poll w1) then fail_unlock_poll w1
       else bindo (main_poll_maybe_grow (w_poll w1) (w_env w1)) (\<lambda>(rc, p, v).
           let w = w1\<lparr>w_poll := p, w_env := v\<rparr> in
           if rc \<noteq> 0 then fail_unlock_poll w
           else bindo (poll_append d ev cb rcb r (w_poll w)) (\<lambda>p.
             bindo (unlock_poll (w\<lparr>w_poll := p\<rparr>)) (\<lambda>(rc, w). Inr (0, w))))) = Inr (rc, w')"
    by (auto simp: fd_add_def bindo_eq_Inr)
  from lock_poll_inv [OF 1] have i1: "poll_inv (w_poll w1)" "main_poll_len (w_poll w1) = main_poll_len (w_poll w)"
    using assms(1) by auto
  show ?thesis
  proof (cases "rc1 = 0 \<and> initialized (w_poll w1)")
    case False
    then show ?thesis using run i1 by (auto split: if_splits dest!: fail_unlock_poll_inv)
  next
    case True
    define w2 where "w2 = (\<lambda>p v. w1\<lparr>w_poll := p, w_env := v\<rparr>)"
    from True run obtain rc2 p v where g: "main_poll_maybe_grow (w_poll w1) (w_env w1) = Inr (rc2, p, v)"
      and run2: "(if rc2 \<noteq> 0 then fail_unlock_poll (w2 p v)
           else bindo (poll_append d ev cb rcb r (w_poll (w2 p v))) (\<lambda>q.
             bindo (unlock_poll ((w2 p v)\<lparr>w_poll := q\<rparr>)) (\<lambda>(rc, w). Inr (0, w)))) = Inr (rc, w')"
      unfolding w2_def by (auto simp: bindo_eq_Inr Let_def)
    have p2: "w_poll (w2 p v) = p" by (simp add: w2_def)
    note i2 = maybe_grow_inv [OF i1(1) g]
    show ?thesis
    proof (cases "rc2 = 0")
      case False
      then show ?thesis using run2 i1 i2 p2 by (auto dest!: fail_unlock_poll_inv)
    next
      case True
      then show ?thesis using run2 i1(2) i2(1,2) p2 poll_append_inv [OF i2(1) i2(5)]
        by (auto simp: bindo_eq_Inr dest!: unlock_poll_inv)
    qed
  qed
qed

section \<open>The state after init\<close>

definition start_poll :: "'u ctx \<Rightarrow> poll_globals \<Rightarrow> poll_globals" where
  "start_poll c p = p\<lparr>initialized := True,
     main_poll := Live \<lparr>entries = [0 \<mapsto> \<lparr>fd = 0, fd_events = POLLIN, revents = None\<rparr>], bytes = 80\<rparr>,
     main_poll_len := 1, main_poll_max_len := 10,
     callbacks := Live \<lparr>entries = [0 \<mapsto> \<lparr>cb_req = 0, cb_fn = handle_new_fn c\<rparr>], bytes = 40\<rparr>,
     main_poll_lock := False\<rparr>"

lemma fd_add_calm:
  assumes "calm (w_env w)" and "\<not> main_poll_lock (w_poll w)" and "initialized (w_poll w)"
    and "main_poll_len (w_poll w) < main_poll_max_len (w_poll w) - 1"
  shows "fd_add d ev cb rcb r w =
    bindo (poll_append d ev cb rcb r ((w_poll w)\<lparr>main_poll_lock := True\<rparr>)) (\<lambda>p. Inr (0, w\<lparr>w_poll := p\<lparr>main_poll_lock := False\<rparr>\<rparr>))"
proof -
  have grow: "main_poll_maybe_grow (p\<lparr>main_poll_lock := m\<rparr>) v = Inr (0, p\<lparr>main_poll_lock := m\<rparr>, v)"
    if "main_poll_len p < main_poll_max_len p - 1" for p m v
    using that by (simp add: main_poll_maybe_grow_def)
  have lk: "main_poll_lock p = True" if "poll_append d ev cb rcb r ((w_poll w)\<lparr>main_poll_lock := True\<rparr>) = Inr p" for p
    using that by (auto simp: poll_append_def bindo_eq_Inr)
  show ?thesis
    using assms lk
    by (cases "poll_append d ev cb rcb r ((w_poll w)\<lparr>main_poll_lock := True\<rparr>)")
      (simp_all add: fd_add_def lock_poll_calm set_poll_def grow unlock_poll_calm)
qed

lemma poll_init_ok:
  assumes "calm (w_env w)" and "\<not> main_poll_lock (w_poll w)" and "\<not> initialized (w_poll w)"
  shows "fra_p_poll_init c w =
    Inr (0, w\<lparr>w_poll := start_poll c (w_poll w), w_env := (w_env w)\<lparr>live := live (w_env w) + 2\<rparr>\<rparr>)"
  using assms
  by (simp add: fra_p_poll_init_def lock_poll_calm unlock_poll_calm set_poll_def blk_malloc_def take_block_calm
      FRA_CORE_DYNAMIC_ARRAYS_INITIAL_SIZE_def fra_glob_fd_add_def fd_add_calm poll_append_def blk_put_def
      in_block_def sizeof_pollfd_def sizeof_callback_def sizeof_int_def start_poll_def)

text \<open>C36: the third descriptor is written out of bounds. After \<open>fra_p_poll_init\<close>, whose array of
  callbacks has the size of ten \<open>int\<close>s, the library's own descriptor and one more fit; adding
  another one writes beyond the array, although the capacity says ten.\<close>

theorem third_descriptor_overflows:
  assumes "calm (w_env w)" and "\<not> main_poll_lock (w_poll w)" and "\<not> initialized (w_poll w)"
  shows "\<exists>w1 w2. fra_p_poll_init c w = Inr (0, w1) \<and> main_poll_max_len (w_poll w1) = 10 \<and>
    fra_glob_fd_add d2 ev2 cb2 w1 = Inr (0, w2) \<and> main_poll_len (w_poll w2) = 2 \<and>
    fra_glob_fd_add d3 ev3 cb3 w2 = Inl (Undef Out_of_bounds)"
  using assms
  by (simp add: poll_init_ok) (simp add: fra_glob_fd_add_def fd_add_calm poll_append_def blk_put_def
      in_block_def sizeof_pollfd_def sizeof_callback_def start_poll_def)

theorem third_descriptor_overflows_witness:
  "\<exists>w1 w2. fra_p_poll_init demo_ctx (demo_world no_urls) = Inr (0, w1) \<and> main_poll_max_len (w_poll w1) = 10 \<and>
    fra_glob_fd_add 5 POLLIN 21 w1 = Inr (0, w2) \<and> main_poll_len (w_poll w2) = 2 \<and>
    fra_glob_fd_add 6 POLLIN 22 w2 = Inl (Undef Out_of_bounds)"
  by (rule third_descriptor_overflows) (simp_all add: demo_world_def)

section \<open>The server loop\<close>

text \<open>One descriptor is registered, with the callback \<open>cb\<close>; after init it is the one of the web
  server.\<close>

definition one_poll :: "fnptr \<Rightarrow> poll_globals \<Rightarrow> bool" where
  "one_poll cb p \<longleftrightarrow> initialized p \<and> main_poll_len p = 1 \<and> cb \<noteq> 0 \<and>
     (\<exists>b e. main_poll p = Live b \<and> sizeof_pollfd \<le> bytes b \<and> entries b 0 = Some e \<and> fd_events e = POLLIN) \<and>
     (\<exists>b. callbacks p = Live b \<and> sizeof_callback \<le> bytes b \<and> entries b 0 = Some \<lparr>cb_req = 0, cb_fn = cb\<rparr>)"

abbreviation server_poll :: "'u ctx \<Rightarrow> poll_globals \<Rightarrow> bool" where
  "server_poll c \<equiv> one_poll (handle_new_fn c)"

lemma server_poll_start: "handle_new_fn c \<noteq> 0 \<Longrightarrow> server_poll c (start_poll c p)"
  by (simp add: one_poll_def start_poll_def sizeof_pollfd_def sizeof_callback_def)

lemma one_poll_lock [simp]: "one_poll f (p\<lparr>main_poll_lock := m\<rparr>) = one_poll f p"
  "one_poll f (p\<lparr>should_stop := s\<rparr>) = one_poll f p"
  by (simp_all add: one_poll_def)

lemma idle_poll [simp]: "idle c (w\<lparr>w_poll := p\<rparr>) = idle c w" "idle c (w\<lparr>polls := ps\<rparr>) = idle c w"
  by (simp_all add: idle_def steady_def hooks_ok_def hook_lock_ready_def req_pool_def store_pool_def)

lemma hooks_create_poll [simp]: "hooks_create c (w\<lparr>w_poll := p\<rparr>) = hooks_create c w" "hooks_create c (w\<lparr>polls := ps\<rparr>) = hooks_create c w"
  by (simp_all add: hooks_create_def req_fns_def)

lemma hooks_create_frame: "frame w w' \<Longrightarrow> hooks_create c w' = hooks_create c w"
  by (simp add: hooks_create_def frame_hooks)

text \<open>A request in the dialogue with the web server: taken, answered with the error page or by
  its handler, finished.\<close>

definition is_answer :: "int \<Rightarrow> event list \<Rightarrow> bool" where
  "is_answer arc ev \<longleftrightarrow> (\<exists>f. ev = [FCGX_InitRequest f, FCGX_Accept_r f arc, FCGX_Finish_r f] \<and> 0 \<le> arc \<or>
     ev = [FCGX_InitRequest f, FCGX_Accept_r f arc, FCGX_FPrintF f error_page, FCGX_Finish_r f])"

text \<open>\<open>handles c P obs A\<close>: in the states with \<open>P\<close> the handler of the web server's descriptor takes the
  next request, lets what \<open>obs\<close> sees grow by an answer as \<open>A\<close> demands it, and keeps \<open>P\<close>.\<close>

definition handles :: "'u ctx \<Rightarrow> ('u world \<Rightarrow> bool) \<Rightarrow> ('u world \<Rightarrow> 'e list) \<Rightarrow> (int \<times> string list \<Rightarrow> 'e list \<Rightarrow> bool) \<Rightarrow> bool" where
  "handles c P obs A \<longleftrightarrow>
     (\<forall>w p ps. P (w\<lparr>w_poll := p\<rparr>) = P w \<and> P (w\<lparr>polls := ps\<rparr>) = P w \<and> obs (w\<lparr>w_poll := p\<rparr>) = obs w \<and> obs (w\<lparr>polls := ps\<rparr>) = obs w) \<and>
     (\<forall>w. P w \<longrightarrow> calm (w_env w)) \<and>
     (\<forall>w arc env rest revs. P w \<longrightarrow> accepts w = (arc, env) # rest \<longrightarrow> revs AND POLLIN \<noteq> 0 \<longrightarrow>
        (\<exists>rc w' a. fra_p_req_handle_new c revs w = Inr (rc, w') \<and> P w' \<and> accepts w' = rest \<and> polls w' = polls w \<and>
           w_poll w' = w_poll w \<and> A (arc, env) a \<and> obs w' = obs w @ a))"

lemma handlesD:
  assumes "handles c P obs A"
  shows "P (w\<lparr>w_poll := p\<rparr>) = P w" "P (w\<lparr>polls := ps\<rparr>) = P w" "obs (w\<lparr>w_poll := p\<rparr>) = obs w" "obs (w\<lparr>polls := ps\<rparr>) = obs w"
    "P w \<Longrightarrow> calm (w_env w)"
    "P w \<Longrightarrow> accepts w = (arc, env) # rest \<Longrightarrow> revs AND POLLIN \<noteq> 0 \<Longrightarrow>
      \<exists>rc w' a. fra_p_req_handle_new c revs w = Inr (rc, w') \<and> P w' \<and> accepts w' = rest \<and> polls w' = polls w \<and>
        w_poll w' = w_poll w \<and> A (arc, env) a \<and> obs w' = obs w @ a"
  using assms by (simp_all add: handles_def)

definition serving :: "'u ctx \<Rightarrow> ('u world \<Rightarrow> bool) \<Rightarrow> 'u world \<Rightarrow> bool" where
  "serving c P w \<longleftrightarrow> P w \<and> server_poll c (w_poll w) \<and> \<not> should_stop (w_poll w)"

lemma fcgx_log_poll [simp]: "fcgx_log (w\<lparr>w_poll := p\<rparr>) = fcgx_log w" "fcgx_log (w\<lparr>polls := ps\<rparr>) = fcgx_log w"
  by (simp_all add: fcgx_log_def)

lemma handle_new_handles:
  assumes "benign c" and "\<forall>a. endpoint (junk c a) = 0"
  shows "handles c (\<lambda>w. idle c w \<and> hooks_create c w) fcgx_log (\<lambda>(arc, env). is_answer arc)"
  unfolding handles_def
proof (intro conjI allI impI)
  fix w arc env rest and revs :: short
  assume P: "idle c w \<and> hooks_create c w" and acc: "accepts w = (arc, env) # rest"
  from handle_new_answers [OF assms(1) conjunct1 [OF P] conjunct2 [OF P] assms(2) acc, of revs] obtain rc w' f where
    run: "fra_p_req_handle_new c revs w = Inr (rc, w')" "idle c w'" "frame w w'" "accepts w' = rest"
    and rc: "rc = 0 \<and> 0 \<le> arc \<or> rc = - 1"
    and log: "fcgx_log w' = fcgx_log w @ [FCGX_InitRequest f, FCGX_Accept_r f arc] @
       (if rc = 0 then [] else [FCGX_FPrintF f error_page]) @ [FCGX_Finish_r f]"
    unfolding one_answer_def by blast
  have "w_poll w' = w_poll w" "polls w' = polls w" using run(3) by (simp_all add: frame_def)
  moreover have "hooks_create c w'" using P hooks_create_frame [OF run(3)] by simp
  moreover have "is_answer arc ([FCGX_InitRequest f, FCGX_Accept_r f arc] @
       (if rc = 0 then [] else [FCGX_FPrintF f error_page]) @ [FCGX_Finish_r f])"
    using rc by (auto simp: is_answer_def)
  ultimately show "\<exists>rc w' a. fra_p_req_handle_new c revs w = Inr (rc, w') \<and> (idle c w' \<and> hooks_create c w') \<and> accepts w' = rest \<and>
      polls w' = polls w \<and> w_poll w' = w_poll w \<and> (case (arc, env) of (arc, env) \<Rightarrow> is_answer arc) a \<and> fcgx_log w' = fcgx_log w @ a"
    using run(1,2,4) log unfolding prod.case by blast
next
  fix w assume "idle c w \<and> hooks_create c w"
  then show "calm (w_env w)" by (simp add: idle_def steady_def)
qed simp_all

lemma poll_writes:
  assumes "one_poll f p" 
  obtains b e where "main_poll p = Live b" and "one_poll f (p\<lparr>main_poll := Live (put_revents (main_poll_len p) revs b)\<rparr>)"
    and "entries (put_revents (main_poll_len p) revs b) 0 = Some (e\<lparr>revents := Some (revs 0)\<rparr>)" and "fd_events e = POLLIN"
    and "sizeof_pollfd \<le> bytes (put_revents (main_poll_len p) revs b)"
  using assms that by (auto simp: one_poll_def put_revents_def)

lemma poll_round:
  assumes h: "handles c P obs A" and w: "serving c P w" and lk: "main_poll_lock (w_poll w)"
    and acc: "accepts w = x # as" and ps: "polls w = (prc, revs) # rest" and prc: "0 < prc"
    and revs: "revs 0 AND POLLIN \<noteq> 0" and fuel: "1 < fuel c"
  obtains w' a where "poll_loop c (Suc n) w = poll_loop c n w'" and "serving c P w'" and "main_poll_lock (w_poll w')"
    and "accepts w' = as" and "polls w' = rest" and "A x a" and "obs w' = obs w @ a"
proof -
  note H = handlesD [OF h]
  let ?p = "w_poll w"
  have sp: "server_poll c ?p" using w by (simp add: serving_def)
  obtain b e where p1: "main_poll ?p = Live b" "server_poll c (?p\<lparr>main_poll := Live (put_revents (main_poll_len ?p) revs b)\<rparr>)"
    and e: "entries (put_revents (main_poll_len ?p) revs b) 0 = Some (e\<lparr>revents := Some (revs 0)\<rparr>)" "fd_events e = POLLIN"
      "sizeof_pollfd \<le> bytes (put_revents (main_poll_len ?p) revs b)"
    by (rule poll_writes [OF sp])
  define w1 where "w1 = w\<lparr>polls := rest, w_poll := ?p\<lparr>main_poll := Live (put_revents (main_poll_len ?p) revs b)\<rparr>\<rparr>"
  have poll: "poll w = Inr (prc, w1)" using ps prc p1(1) by (simp add: poll_def set_poll_def w1_def)
  have s1: "serving c P w1" using w p1(2) H(1,2) by (simp add: serving_def w1_def)
  have obs1: "obs w1 = obs w" using H(3,4) by (simp add: w1_def)
  obtain arc env where x: "x = (arc, env)" by (cases x)
  have P1: "P w1" and acc1: "accepts w1 = (arc, env) # as" using s1 acc by (simp_all add: serving_def w1_def x)
  obtain rc w2 a where h2: "fra_p_req_handle_new c (revs 0) w1 = Inr (rc, w2)" "P w2" "accepts w2 = as"
    "polls w2 = polls w1" "w_poll w2 = w_poll w1" "A (arc, env) a" "obs w2 = obs w1 @ a"
    using H(6) [OF P1 acc1 revs] by blast
  have s2: "serving c P w2" using s1 h2(2,5) by (simp add: serving_def)
  have "\<exists>k. fuel c = Suc (Suc k)" using fuel by (intro exI [of _ "fuel c - 2"]) simp
  then obtain k where k: "fuel c = Suc (Suc k)" ..
  have len: "main_poll_len (w_poll w1) = 1" using s1 by (simp add: serving_def one_poll_def)
  have g1: "blk_get sizeof_pollfd 0 (main_poll (w_poll w1)) = Inr (e\<lparr>revents := Some (revs 0)\<rparr>)"
    using e by (simp add: w1_def blk_get_def in_block_def)
  have g2: "blk_get sizeof_callback 0 (callbacks (w_poll w1)) = Inr \<lparr>cb_req = 0, cb_fn = handle_new_fn c\<rparr>"
    and fn: "handle_new_fn c \<noteq> 0"
    using s1 by (auto simp: serving_def one_poll_def blk_get_def in_block_def)
  have disp: "dispatch c (fuel c) 0 w1 = Inr w2"
    using revs h2(1,5) e(2) fn unfolding k by (simp add: len g1 g2 fd_call_def)
  have calm2: "calm (w_env w2)" and ns: "\<not> should_stop (w_poll w2)" using H(5) [OF h2(2)] s2 by (simp_all add: serving_def)
  have lk2: "main_poll_lock (w_poll w2)" using lk h2(5) by (simp add: w1_def)
  have sw: "serving c P (w2\<lparr>w_poll := (w_poll w2)\<lparr>main_poll_lock := m\<rparr>\<rparr>)" for m
    using s2 H(1) by (simp add: serving_def)
  show ?thesis
  proof (rule that [OF _ sw, of True])
    show "poll_loop c (Suc n) w = poll_loop c n (w2\<lparr>w_poll := (w_poll w2)\<lparr>main_poll_lock := True\<rparr>\<rparr>)"
      using prc ns calm2 lk2 by (simp add: poll disp unlock_poll_calm lock_poll_calm set_poll_def)
    show "A x a" using h2(6) x by simp
  qed (use h2 obs1 H(3) in \<open>simp_all add: w1_def\<close>)
qed

lemma poll_rounds:
  assumes h: "handles c P obs A" and fuel: "1 < fuel c"
  shows "serving c P w \<Longrightarrow> main_poll_lock (w_poll w) \<Longrightarrow> length rs = length (accepts w) \<Longrightarrow>
    \<forall>(rc, revs) \<in> set rs. 0 < rc \<and> revs 0 AND POLLIN \<noteq> 0 \<Longrightarrow> polls w = rs @ rest \<Longrightarrow> length rs \<le> n \<Longrightarrow>
    \<exists>w' ans. poll_loop c n w = poll_loop c (n - length rs) w' \<and> serving c P w' \<and> main_poll_lock (w_poll w') \<and> accepts w' = [] \<and>
      polls w' = rest \<and> list_all2 A (accepts w) ans \<and> obs w' = obs w @ concat ans"
proof (induction rs arbitrary: w n)
  case Nil
  then show ?case by (intro exI [of _ w] exI [of _ "[]"]) simp
next
  case (Cons r rs)
  obtain rc revs where r: "r = (rc, revs)" by (cases r)
  obtain x as where acc: "accepts w = x # as"
    using Cons.prems(3) by (cases "accepts w") simp_all
  obtain m where n: "n = Suc m" using Cons.prems(6) by (cases n) simp_all
  have ps: "polls w = (rc, revs) # rs @ rest" and rc: "0 < rc" "revs 0 AND POLLIN \<noteq> 0" using Cons.prems(4,5) r by simp_all
  obtain w1 a where 1: "poll_loop c (Suc m) w = poll_loop c m w1" "serving c P w1" "main_poll_lock (w_poll w1)"
    "accepts w1 = as" "polls w1 = rs @ rest" "A x a" "obs w1 = obs w @ a"
    by (rule poll_round [OF h Cons.prems(1,2) acc ps rc fuel])
  have len: "length rs = length (accepts w1)" "length rs \<le> m" using Cons.prems(3,6) acc n 1(4) by simp_all
  have all: "\<forall>(rc, revs) \<in> set rs. 0 < rc \<and> revs 0 AND POLLIN \<noteq> 0" using Cons.prems(4) by simp
  from Cons.IH [OF 1(2,3) len(1) all 1(5) len(2)] obtain w' ans where
    "poll_loop c m w1 = poll_loop c (m - length rs) w'" "serving c P w'" "main_poll_lock (w_poll w')" "accepts w' = []"
    "polls w' = rest" "list_all2 A (accepts w1) ans" "obs w' = obs w1 @ concat ans"
    by blast
  then show ?case using 1 n acc by (intro exI [of _ w'] exI [of _ "a # ans"]) simp
qed

lemma loop_handles:
  assumes h: "handles c P obs A" and w: "P w" and sp: "server_poll c (w_poll w)" and lk: "\<not> main_poll_lock (w_poll w)"
    and fuel: "Suc (length rs) < fuel c" and ps: "polls w = rs @ (erc, erevs) # rest" and erc: "erc \<le> 0"
    and len: "length rs = length (accepts w)" and rs: "\<forall>(rc, revs) \<in> set rs. 0 < rc \<and> revs 0 AND POLLIN \<noteq> 0"
  shows "\<exists>w' ans. fra_glob_poll c w = Inr (- 1, w') \<and> P w' \<and> \<not> main_poll_lock (w_poll w') \<and> accepts w' = [] \<and>
    list_all2 A (accepts w) ans \<and> obs w' = obs w @ concat ans"
proof -
  note H = handlesD [OF h]
  define w1 where "w1 = w\<lparr>w_poll := (w_poll w)\<lparr>main_poll_lock := True, should_stop := False\<rparr>\<rparr>"
  have s1: "serving c P w1" using w sp H(1) by (simp add: serving_def w1_def)
  have poll: "fra_glob_poll c w = poll_loop c (fuel c) w1"
    using sp lk H(5) [OF w] by (simp add: fra_glob_poll_def lock_poll_calm set_poll_def one_poll_def w1_def)
  have f: "1 < fuel c" "length rs \<le> fuel c" using fuel by simp_all
  have w1: "main_poll_lock (w_poll w1)" "length rs = length (accepts w1)" "polls w1 = rs @ (erc, erevs) # rest" "obs w1 = obs w"
    using ps len H(3) by (simp_all add: w1_def)
  obtain w2 ans where 2: "poll_loop c (fuel c) w1 = poll_loop c (fuel c - length rs) w2" "serving c P w2"
    "main_poll_lock (w_poll w2)" "accepts w2 = []" "polls w2 = (erc, erevs) # rest"
    "list_all2 A (accepts w1) ans" "obs w2 = obs w1 @ concat ans"
    using poll_rounds [OF h f(1) s1 w1(1,2) rs w1(3) f(2)] by blast
  obtain k where k: "fuel c - length rs = Suc k" using fuel by (cases "fuel c - length rs") simp_all
  have P2: "P w2" using 2(2) by (simp add: serving_def)
  let ?w' = "w2\<lparr>polls := rest, w_poll := (w_poll w2)\<lparr>main_poll_lock := False\<rparr>\<rparr>"
  have "poll_loop c (Suc k) w2 = Inr (- 1, ?w')"
    using 2(3,5) erc H(5) [OF P2] by (simp add: poll_def fail_unlock_poll_def unlock_poll_calm set_poll_def)
  then have "fra_glob_poll c w = Inr (- 1, ?w')" by (simp add: poll 2(1) k)
  moreover have "P ?w'" "obs ?w' = obs w2" using P2 H(1-4) by simp_all
  ultimately show ?thesis using 2(4,6,7) w1(4) by (intro exI [of _ ?w'] exI [of _ ans]) (simp add: w1_def)
qed





text \<open>C35: the array of descriptors stays in bounds. Whatever fails, an \<open>fd_add\<close> that returns
  keeps the array of \<open>pollfd\<close>s live, initialised up to its length and longer than it by at least
  one entry, grows it when it is about to fill up, and adds one entry exactly if it returns 0.\<close>

theorem descriptors_stay_in_bounds:
  assumes "poll_inv (w_poll w)" and "fd_add d ev cb rcb r w = Inr (rc, w')"
  shows "poll_inv (w_poll w') \<and> (rc = 0 \<and> main_poll_len (w_poll w') = main_poll_len (w_poll w) + 1 \<or>
    rc = - 1 \<and> main_poll_len (w_poll w') = main_poll_len (w_poll w))"
  by (rule fd_add_inv [OF assms])

theorem descriptors_stay_in_bounds_witness:
  "\<exists>w'. fd_add 5 POLLIN 21 0 0 ((demo_world no_urls)\<lparr>w_poll := start_poll demo_ctx (w_poll (demo_world no_urls))\<rparr>) = Inr (0, w') \<and>
     poll_inv (w_poll w') \<and> main_poll_len (w_poll w') = 2"
proof -
  let ?w = "(demo_world no_urls)\<lparr>w_poll := start_poll demo_ctx (w_poll (demo_world no_urls))\<rparr>"
  have inv: "poll_inv (w_poll ?w)" by (simp add: poll_inv_def start_poll_def sizeof_pollfd_def)
  have "calm (w_env ?w)" by (simp add: demo_world_def)
  then obtain w' where "fd_add 5 POLLIN 21 0 0 ?w = Inr (0, w')" "main_poll_len (w_poll w') = 2"
    by (auto simp: fd_add_calm start_poll_def poll_append_def blk_put_def in_block_def sizeof_pollfd_def sizeof_callback_def)
  with descriptors_stay_in_bounds [OF inv this(1)] show ?thesis by auto
qed

end
