(* ===== verification/Glob.thy ===== *)
theory Glob
  imports Poll
begin

text \<open>
  Starting and ending the library, \<open>src/glob.c\<close>: the modules one after the other, stopping at
  the first failure without undoing what was done.
\<close>

section \<open>Operations\<close>

definition init_hooks :: "'u op" where
  "init_hooks w = (let (rc, h, v) = fra_p_hook_init (w_hooks w) (w_env w) in Inr (rc, w\<lparr>w_hooks := h, w_env := v\<rparr>))"

definition init_vars :: "'u op" where
  "init_vars w = (let (rc, g, v) = fra_p_var_init 400 (w_vars w) (w_env w) in Inr (rc, w\<lparr>w_vars := g, w_env := v\<rparr>))"

definition init_urls :: "'u op" where
  "init_urls w = (let (rc, g, v) = fra_p_url_init (w_urls w) (w_env w) in Inr (rc, w\<lparr>w_urls := g, w_env := v\<rparr>))"

text \<open>\<open>rc = f(); check( rc == 0, final_cleanup );\<close>\<close>

definition or_fail :: "(int \<times> 'u world) outcome \<Rightarrow> 'u op \<Rightarrow> (int \<times> 'u world) outcome" where
  "or_fail m k = bindo m (\<lambda>(rc, w). if rc \<noteq> 0 then Inr (- 1, w) else k w)"

definition fra_glob_init :: "'u ctx \<Rightarrow> 'u op" where
  "fra_glob_init c w =
     or_fail (fra_p_poll_init c w) (\<lambda>w.
     or_fail (init_hooks w) (\<lambda>w.
     or_fail (init_vars w) (\<lambda>w.
     or_fail (fra_p_req_init w) (\<lambda>w.
     or_fail (init_urls w) (\<lambda>w. Inr (0, w))))))"

definition fra_glob_deinit :: "'u ctx \<Rightarrow> 'u world \<Rightarrow> 'u world outcome" where
  "fra_glob_deinit c w =
     bindo (fra_p_url_deinit (w_urls w) (w_env w)) (\<lambda>(g, v).
     bindo (fra_p_req_deinit c (w\<lparr>w_urls := g, w_env := v\<rparr>)) (\<lambda>w.
     bindo (fra_p_var_deinit (w_vars w) (w_env w)) (\<lambda>(g, v).
     bindo (fra_p_hook_deinit (w_hooks w) v) (\<lambda>(h, v).
       fra_p_poll_deinit (w\<lparr>w_vars := g, w_hooks := h, w_env := v\<rparr>)))))"

lemma or_fail_0 [simp]: "or_fail (Inr (0, w)) k = k w"
  by (simp add: or_fail_def)

lemma or_fail_fail: "rc \<noteq> 0 \<Longrightarrow> or_fail (Inr (rc, w)) k = Inr (- 1, w)"
  by (simp add: or_fail_def)

section \<open>The cached requests are freed\<close>

lemma req_deinit_ok:
  assumes b: "benign c"
  shows "hooks_ok c w \<Longrightarrow> heap_ok (ends w) \<Longrightarrow> heap_ok (reqs w) \<Longrightarrow>
    chain req_next (cells (reqs w)) (empty_req w) xs \<Longrightarrow> length xs < n \<Longrightarrow>
    \<exists>w'. req_deinit_loop c n w = Inr w' \<and> empty_req w' = 0 \<and> heap_ok (reqs w') \<and>
      cells (reqs w') = (\<lambda>a. if a \<in> set xs then None else cells (reqs w) a) \<and> fcgx_log w' = fcgx_log w \<and>
      w_env w' = w_env w \<and> w_vars w' = w_vars w \<and> w_urls w' = w_urls w \<and> w_hooks w' = w_hooks w \<and> w_poll w' = w_poll w \<and>
      ends w' = ends w \<and> stores w' = stores w"
proof (induction xs arbitrary: w n)
  case Nil
  then show ?case by (cases n) auto
next
  case (Cons x xs)
  obtain m where n: "n = Suc m" using Cons.prems(5) by (cases n) simp_all
  obtain q where x: "empty_req w = x" "x \<noteq> 0" "cells (reqs w) x = Some q" and ch: "chain req_next (cells (reqs w)) (req_next q) xs"
    using Cons.prems(4) by (auto split: option.splits)
  have nx: "x \<notin> set xs" using chain_distinct [OF Cons.prems(4)] by simp
  let ?w1 = "with_req x (q\<lparr>endpoint := 0\<rparr>) (w\<lparr>empty_req := req_next q\<rparr>)"
  have h1: "hooks_ok c ?w1" using Cons.prems(1) by (simp add: hooks_ok_def hook_lock_ready_def)
  obtain rc w2 gs where 2: "run_hooks c True (req_fns ?w1 0 FRA_REQ_FREE) x ?w1 = Inr (rc, w2)" "same_lib ?w1 w2"
    "events w2 = events ?w1 @ map (\<lambda>f. Called f x) gs"
    using run_hooks_benign [OF b, of True "req_fns ?w1 0 FRA_REQ_FREE" x ?w1] by auto
  have run: "fra_p_req_hook_execute c x FRA_REQ_FREE ?w1 = Inr (rc, w2)"
    using req_hook_execute_runs [OF benign_tame [OF b] h1, of x "q\<lparr>endpoint := 0\<rparr>" FRA_REQ_FREE] x(2) Cons.prems(2) 2(1)
    by (simp add: FRA_REQ_FREE_def FRA_HOOK_COUNT_def)
  note s2 = same_lib_fields [OF 2(2)]
  let ?w3 = "w2\<lparr>reqs := (reqs w2)\<lparr>cells := (cells (reqs w2))(x := None)\<rparr>\<rparr>"
  have free: "free_req x w2 = Inr ?w3" using x(2) by (simp add: free_req_def hfree_def s2)
  have c3: "cells (reqs ?w3) = (cells (reqs w))(x := None)" by (simp add: s2)
  have "upd_req x (endpoint_update (\<lambda>_. 0)) (w\<lparr>empty_req := req_next q\<rparr>) = Inr ?w1"
    using upd_req_ok [of "w\<lparr>empty_req := req_next q\<rparr>" x q "endpoint_update (\<lambda>_. 0)"] x(3) Cons.prems(3) by simp
  then have step: "req_deinit_loop c n w = req_deinit_loop c m ?w3"
    using x hget_ok [OF Cons.prems(3) x(3)] by (simp add: n run free)
  have "chain req_next (cells (reqs ?w3)) (empty_req ?w3) xs"
    using ch nx by (subst chain_cong [of xs _ _ "cells (reqs w)"]) (auto simp: c3 s2)
  moreover have "heap_ok (reqs ?w3)" using Cons.prems(3) by (auto simp: heap_ok_def s2 split: if_splits)
  moreover have "hooks_ok c ?w3" using Cons.prems(1) by (simp add: hooks_ok_def hook_lock_ready_def s2)
  moreover have "heap_ok (ends ?w3)" using Cons.prems(2) by (simp add: s2)
  moreover have "length xs < m" using Cons.prems(5) n by simp
  ultimately obtain w' where "req_deinit_loop c m ?w3 = Inr w'" "empty_req w' = 0" "heap_ok (reqs w')"
    "cells (reqs w') = (\<lambda>a. if a \<in> set xs then None else cells (reqs ?w3) a)" "fcgx_log w' = fcgx_log ?w3"
    "w_env w' = w_env ?w3" "w_vars w' = w_vars ?w3" "w_urls w' = w_urls ?w3" "w_hooks w' = w_hooks ?w3" "w_poll w' = w_poll ?w3"
    "ends w' = ends ?w3" "stores w' = stores ?w3"
    using Cons.IH [of ?w3 m] by blast
  moreover have "fcgx_log ?w3 = fcgx_log w" using 2(3) by (simp add: fcgx_log_def filter_empty_conv)
  moreover have "w_poll ?w1 = w_poll w" by (simp add: with_req_def)
  ultimately show ?case
    by (intro exI [of _ w']) (auto simp: step c3 s2 fun_eq_iff)
qed

end
