(* ===== verification/Life.thy ===== *)
theory Life
  imports Glob
begin

text \<open>
  The whole life of the library: the state between init and deinit as one invariant, the calls
  the program may make in between as a step relation, and what they leave behind.
\<close>

section \<open>All hook tables in one heap\<close>

text \<open>The tables of hooks, named by their lock or their endpoint.\<close>

type_synonym hook_key = "lock_ref + addr"

fun hook_arr :: "hook_globals \<Rightarrow> (addr \<Rightarrow> fra_end option) \<Rightarrow> hook_key \<Rightarrow> hook_array option" where
  "hook_arr g E (Inl Glob_hooks_lock) = Some (glob_hooks g)"
| "hook_arr g E (Inl Req_hooks_lock) = Some (req_hooks g)"
| "hook_arr g E (Inr e) = map_option hooks (E e)"

fun hook_cnt :: "hook_key \<Rightarrow> int" where
  "hook_cnt (Inl Glob_hooks_lock) = FRA_GLOB_HOOK_COUNT"
| "hook_cnt (Inl Req_hooks_lock) = FRA_HOOK_COUNT"
| "hook_cnt (Inr e) = FRA_HOOK_COUNT"

definition hook_tab :: "hook heap \<Rightarrow> hook_array \<Rightarrow> int \<Rightarrow> addr list list \<Rightarrow> bool" where
  "hook_tab h arr n xss \<longleftrightarrow> (\<exists>a. arr = Live a \<and> int (length a) = n \<and> hook_table h a xss) \<and>
     (\<forall>x \<in> hook_addrs xss. fst (hook_val h x) \<noteq> 0)"

definition hook_tabs :: "hook heap \<Rightarrow> (hook_key \<Rightarrow> hook_array option) \<Rightarrow> (hook_key \<Rightarrow> addr list list) \<Rightarrow> bool" where
  "hook_tabs h A X \<longleftrightarrow> heap_ok h \<and> (\<forall>k arr. A k = Some arr \<longrightarrow> hook_tab h arr (hook_cnt k) (X k)) \<and>
     (\<forall>k k' arr arr'. k \<noteq> k' \<longrightarrow> A k = Some arr \<longrightarrow> A k' = Some arr' \<longrightarrow> hook_addrs (X k) \<inter> hook_addrs (X k') = {}) \<and>
     (\<forall>x. cells h x \<noteq> None \<longrightarrow> (\<exists>k. A k \<noteq> None \<and> x \<in> hook_addrs (X k)))"

lemma hook_tab_array:
  assumes "hook_tab h arr n xss" and "brk h \<le> m"
  shows "array_ok m h arr n"
proof -
  obtain a where a: "arr = Live a" "int (length a) = n" "hook_table h a xss" using assms(1) by (auto simp: hook_tab_def)
  have ok: "heap_ok h" using a(3) by (simp add: hook_table_def)
  have "\<exists>xs. chain h_next (cells h) (a ! t) xs \<and> length xs < m \<and> (\<forall>x \<in> set xs. fst (hook_val h x) \<noteq> 0)"
    if t: "t < length a" for t
  proof -
    have c: "chain h_next (cells h) (a ! t) (xss ! t)" by (rule hook_table_chain [OF a(3) t])
    have "\<forall>x \<in> set (xss ! t). fst (hook_val h x) \<noteq> 0"
      using assms(1) t a(3) unfolding hook_tab_def hook_table_def by (auto simp: in_hook_addrs)
    with c chain_length [OF ok c] assms(2) show ?thesis by (intro exI [of _ "xss ! t"]) simp
  qed
  with a ok show ?thesis by (simp add: array_ok_def)
qed

lemma hook_vals_nonnull:
  "(\<forall>x \<in> hook_addrs xss. fst (hook_val h x) \<noteq> 0) \<longleftrightarrow> (\<forall>vs \<in> set (hook_vals h xss). \<forall>v \<in> set vs. fst v \<noteq> 0)"
  by (simp add: hook_addrs_def hook_vals_def)

lemma insert_hook_nonnull:
  assumes "\<forall>vs \<in> set vss. \<forall>v \<in> set vs. fst v \<noteq> 0" and "cb \<noteq> 0" and "t < length vss"
  shows "\<forall>vs \<in> set (vss[t := insert_hook (cb, prio) (vss ! t)]). \<forall>v \<in> set vs. fst v \<noteq> 0"
proof
  fix vs assume "vs \<in> set (vss[t := insert_hook (cb, prio) (vss ! t)])"
  then have "vs \<in> set vss \<or> vs = insert_hook (cb, prio) (vss ! t)"
    using set_update_subset_insert by fastforce
  moreover have "vss ! t \<in> set vss" using assms(3) by simp
  ultimately show "\<forall>v \<in> set vs. fst v \<noteq> 0" using assms(1,2) by (metis fst_conv insert_hook_set insertE)
qed

text \<open>A registration in one table leaves the others alone.\<close>

lemma hook_tabs_reg:
  assumes tabs: "hook_tabs h A X" and k: "A k = Some arr" and ty: "0 \<le> type" and rdy: "lock_ready v lck"
  shows "\<exists>rc arr' xss' h' v'. hook_reg lck arr type cb prio (hook_cnt k) h v = Inr (rc, lck, arr', h', v') \<and>
    hook_tabs h' (A(k := Some arr')) (X(k := xss')) \<and> live v' = live v \<and> pthreads v' = pthreads v \<and> (calm v \<longrightarrow> calm v')"
proof -
  from tabs k have kt: "hook_tab h arr (hook_cnt k) (X k)" unfolding hook_tabs_def by blast
  then obtain a where a: "arr = Live a" "int (length a) = hook_cnt k" and tab: "hook_table h a (X k)"
    by (auto simp: hook_tab_def)
  obtain rc a' xss' h' v' where run: "hook_reg lck (Live a) type cb prio (hook_cnt k) h v = Inr (rc, lck, Live a', h', v')"
    and t': "hook_table h' a' xss'" "length a' = length a" and st: "hook_step h (X k) type cb prio (hook_cnt k) v rc h' xss' v'"
    using hook_reg_step [OF tab ty a(2) [symmetric] rdy, of cb prio] by blast
  have f: "hook_frame h (hook_addrs (X k)) h' (hook_addrs xss')" and v': "live v' = live v" "pthreads v' = pthreads v" "calm v \<longrightarrow> calm v'"
    and vals: "rc = 0 \<and> type < hook_cnt k \<and> cb \<noteq> 0 \<and>
           hook_vals h' xss' = (hook_vals h (X k)) [nat type := insert_hook (cb, prio) (hook_vals h (X k) ! nat type)] \<or>
         rc = - 1 \<and> hook_vals h' xss' = hook_vals h (X k)"
    using st by (auto simp: hook_step_def)
  have ok': "heap_ok h'" using t' by (simp add: hook_table_def)
  have len: "length (X k) = length a" using tab by (simp add: hook_table_def)
  have old: "\<forall>vs \<in> set (hook_vals h (X k)). \<forall>v \<in> set vs. fst v \<noteq> 0"
    using kt unfolding hook_tab_def hook_vals_nonnull by simp
  have "\<forall>vs \<in> set (hook_vals h' xss'). \<forall>v \<in> set vs. fst v \<noteq> 0"
    using vals
  proof (elim disjE conjE)
    assume "type < hook_cnt k" "cb \<noteq> 0"
      "hook_vals h' xss' = (hook_vals h (X k)) [nat type := insert_hook (cb, prio) (hook_vals h (X k) ! nat type)]"
    then show ?thesis using insert_hook_nonnull [OF old, of cb "nat type" prio] a(2) ty len by (simp add: nat_less_iff)
  qed (simp add: old)
  then have k': "hook_tab h' (Live a') (hook_cnt k) xss'"
    using t' a(2) unfolding hook_tab_def hook_vals_nonnull by auto
  have other: "hook_tab h' arr' (hook_cnt k') (X k') \<and> hook_addrs (X k') \<inter> hook_addrs xss' = {}"
    if "k' \<noteq> k" and A': "A k' = Some arr'" for k' arr'
  proof -
    from tabs A' have "hook_tab h arr' (hook_cnt k') (X k')" unfolding hook_tabs_def by blast
    then obtain b where b: "arr' = Live b" "int (length b) = hook_cnt k'" "hook_table h b (X k')"
      and nn: "\<forall>x \<in> hook_addrs (X k'). fst (hook_val h x) \<noteq> 0" by (auto simp: hook_tab_def)
    have disj: "hook_addrs (X k') \<inter> hook_addrs (X k) = {}"
      using tabs that(1) A' k unfolding hook_tabs_def by blast
    note same = hook_frame_table [OF f b(3) disj ok']
    have "hook_addrs (X k') \<inter> hook_addrs xss' = {}"
      using f disj hook_addrs_live [OF b(3)] by (fastforce simp: hook_frame_def)
    moreover have "\<forall>x \<in> hook_addrs (X k'). fst (hook_val h' x) \<noteq> 0"
      using nn same(2) unfolding hook_vals_nonnull by simp
    ultimately show ?thesis using b same(1) by (auto simp: hook_tab_def)
  qed
  have "hook_tabs h' (A(k := Some (Live a'))) (X(k := xss'))"
    unfolding hook_tabs_def
  proof (intro conjI allI impI)
    show "heap_ok h'" by (rule ok')
    show "hook_tab h' b (hook_cnt k') ((X(k := xss')) k')" if "(A(k := Some (Live a'))) k' = Some b" for k' b
      using that k' other by (cases "k' = k") auto
    show "hook_addrs ((X(k := xss')) i) \<inter> hook_addrs ((X(k := xss')) j) = {}"
      if "i \<noteq> j" and "(A(k := Some (Live a'))) i = Some b" and "(A(k := Some (Live a'))) j = Some b'" for i j b b'
      using that other tabs unfolding hook_tabs_def by (cases "i = k"; cases "j = k") (auto simp: Int_commute)
    show "\<exists>k'. (A(k := Some (Live a'))) k' \<noteq> None \<and> x \<in> hook_addrs ((X(k := xss')) k')" if "cells h' x \<noteq> None" for x
    proof (cases "x \<in> hook_addrs xss'")
      case False
      then have "cells h x \<noteq> None" using f that by (auto simp: hook_frame_def)
      then obtain k' where "A k' \<noteq> None" "x \<in> hook_addrs (X k')" using tabs unfolding hook_tabs_def by blast
      moreover from this f False have "k' \<noteq> k" by (auto simp: hook_frame_def)
      ultimately show ?thesis by (intro exI [of _ k']) simp
    qed (auto intro: exI [of _ k])
  qed
  with run v' a(1) show ?thesis by blast
qed

text \<open>An empty table at a key that was not in use.\<close>

lemma hook_tabs_new:
  assumes tabs: "hook_tabs h A X" and k: "A k = None" and t: "hook_tab h arr (hook_cnt k) (replicate m [])"
  shows "hook_tabs h (A(k := Some arr)) (X(k := replicate m []))"
proof -
  have none: "hook_addrs (replicate m []) = {}" by (simp add: hook_addrs_def)
  have "\<exists>k'. (A(k := Some arr)) k' \<noteq> None \<and> x \<in> hook_addrs ((X(k := replicate m [])) k')" if "cells h x \<noteq> None" for x
  proof -
    from tabs that obtain k' where "A k' \<noteq> None" "x \<in> hook_addrs (X k')" unfolding hook_tabs_def by blast
    moreover from this k have "k' \<noteq> k" by auto
    ultimately show ?thesis by (intro exI [of _ k']) simp
  qed
  then show ?thesis using tabs t none unfolding hook_tabs_def by auto
qed

section \<open>The invariant of the library\<close>

text \<open>The blocks of strings and tables that the endpoints own.\<close>

definition end_cost :: "fra_end \<Rightarrow> int" where
  "end_cost n = 1 + (case end_map n of Live m \<Rightarrow> map_blocks m | _ \<Rightarrow> 0)"

definition end_blocks :: "(addr \<Rightarrow> fra_end option) \<Rightarrow> int" where
  "end_blocks E = (\<Sum>e \<in> dom E. end_cost (the (E e)))"

text \<open>
  \<open>n\<close> is the number of blocks that were live before the library was initialised; 4 blocks are
  the arrays of \<open>poll.c\<close> and \<open>hook.c\<close>.
\<close>

definition tables_ok :: "int \<Rightarrow> 'u world \<Rightarrow> bool" where
  "tables_ok n w \<longleftrightarrow> (\<exists>vm ht mb cb. glob_store_map (w_vars w) = Live vm \<and> map_ok vm \<and>
     urls (w_urls w) = Live ht \<and> table_ok ht \<and>
     main_poll (w_poll w) = Live mb \<and> callbacks (w_poll w) = Live cb \<and>
     live (w_env w) = n + 4 + map_blocks vm + table_blocks ht + end_blocks (cells (ends w)))"

definition hooks_inv :: "'u world \<Rightarrow> bool" where
  "hooks_inv w \<longleftrightarrow> (\<exists>X. hook_tabs (hookmem (w_hooks w)) (hook_arr (w_hooks w) (cells (ends w))) X)"

definition lib :: "'u ctx \<Rightarrow> int \<Rightarrow> 'u world \<Rightarrow> bool" where
  "lib c n w \<longleftrightarrow> idle c w \<and> \<not> pthreads (w_env w) \<and> \<not> main_poll_lock (w_poll w) \<and> initialized (w_poll w) \<and>
     poll_inv (w_poll w) \<and> hooks_inv w \<and> brk (hookmem (w_hooks w)) \<le> fuel c \<and> tables_ok n w \<and>
     (\<forall>e k. cells (ends w) e = Some k \<longrightarrow> (\<exists>m. end_map k = Live m \<and> map_ok m))"

lemma libD:
  assumes "lib c n w"
  shows "idle c w" "steady c w" "calm (w_env w)" "\<not> pthreads (w_env w)" "heap_ok (ends w)" "hooks_inv w" "tables_ok n w"
    "routes_ready (bs c) (w_urls w)" "bstr_ok (bs c)" "brk (hookmem (w_hooks w)) \<le> fuel c"
  using assms by (auto simp: lib_def idle_def steady_def routes_ready_def table_inv_def)

lemma finite_dom_heap: "heap_ok h \<Longrightarrow> finite (dom (cells h))"
  by (rule finite_subset [of _ "{..<brk h}"]) (auto simp: heap_ok_def)

lemma end_blocks_cong:
  assumes "\<And>e. map_option end_core (E' e) = map_option end_core (E e)"
  shows "end_blocks E' = end_blocks E" and "hook_arr g E' = hook_arr g E"
proof -
  have dom: "dom E' = dom E"
    using assms by (auto simp: dom_def) (metis map_option_is_None option.distinct(1) option.exhaust)+
  have same: "end_cost (the (E' e)) = end_cost (the (E e)) \<and> hooks (the (E' e)) = hooks (the (E e))" if "e \<in> dom E" for e
    using assms [of e] that dom by (auto simp: end_cost_def end_core_def)
  show "end_blocks E' = end_blocks E"
    unfolding end_blocks_def dom by (rule sum.cong) (use same in auto)
  show "hook_arr g E' = hook_arr g E"
  proof
    fix k :: hook_key
    show "hook_arr g E' k = hook_arr g E k"
    proof (cases k)
      case (Inl l)
      then show ?thesis by (cases l) simp_all
    next
      case (Inr e)
      then show ?thesis using assms [of e] by (cases "E e"; cases "E' e") (simp_all add: end_core_def)
    qed
  qed
qed

text \<open>
  The library while no request is handled any more: the invariant without the routes, which may
  lead to endpoints that were freed.
\<close>

definition closing :: "'u ctx \<Rightarrow> int \<Rightarrow> 'u world \<Rightarrow> bool" where
  "closing c n w \<longleftrightarrow> calm (w_env w) \<and> \<not> pthreads (w_env w) \<and> heap_ok (reqs w) \<and> heap_ok (ends w) \<and> heap_ok (stores w) \<and>
     req_pool {} w \<and> store_pool (\<lambda>_. {}) w \<and> \<not> main_poll_lock (w_poll w) \<and> initialized (w_poll w) \<and>
     hooks_inv w \<and> brk (hookmem (w_hooks w)) \<le> fuel c \<and> tables_ok n w \<and>
     (\<forall>e k. cells (ends w) e = Some k \<longrightarrow> \<not> end_lock k \<and> (\<exists>m. end_map k = Live m \<and> map_ok m))"

lemma closingD:
  assumes "closing c n w"
  shows "calm (w_env w)" "\<not> pthreads (w_env w)" "heap_ok (reqs w)" "heap_ok (ends w)" "heap_ok (stores w)" "req_pool {} w"
    "store_pool (\<lambda>_. {}) w" "hooks_inv w" "brk (hookmem (w_hooks w)) \<le> fuel c" "tables_ok n w"
    "\<And>e k. cells (ends w) e = Some k \<Longrightarrow> \<not> end_lock k \<and> (\<exists>m. end_map k = Live m \<and> map_ok m)"
    "initialized (w_poll w)" "\<not> main_poll_lock (w_poll w)"
  using assms unfolding closing_def by blast+

lemma lib_closing: "lib c n w \<Longrightarrow> closing c n w"
  by (auto simp: lib_def idle_def steady_def closing_def)

text \<open>Requests do not touch it.\<close>

lemma lib_frame:
  assumes lib: "lib c n w" and f: "frame w w'" and idle: "idle c w'"
  shows "lib c n w'"
proof -
  have same: "map_option end_core (cells (ends w') e) = map_option end_core (cells (ends w) e)" for e
    using f by (simp add: frame_def)
  note cong = end_blocks_cong [OF same]
  have "\<exists>m. end_map k = Live m \<and> map_ok m" if k: "cells (ends w') e = Some k" for e k
  proof -
    obtain k0 where "cells (ends w) e = Some k0" "end_map k = end_map k0"
      using frame_live [OF frame_sym [OF f] k] by (auto simp: end_core_def)
    with lib show ?thesis by (auto simp: lib_def)
  qed
  moreover have "w_env w' = w_env w" "w_vars w' = w_vars w" "w_urls w' = w_urls w" "w_hooks w' = w_hooks w" "w_poll w' = w_poll w"
    using f by (simp_all add: frame_def)
  ultimately show ?thesis using lib idle cong by (simp add: lib_def hooks_inv_def tables_ok_def)
qed

lemma lib_handle:
  assumes "lib c n w" and "benign c" and "hooks_create c w" and "\<forall>a. endpoint (junk c a) = 0" and "accepts w \<noteq> []"
  shows "\<exists>rc w'. fra_p_req_handle_new c revs w = Inr (rc, w') \<and> lib c n w'"
proof -
  obtain arc env rest where acc: "accepts w = (arc, env) # rest" using assms(5) by (cases "accepts w") auto
  from handle_new_answers [OF assms(2) libD(1) [OF assms(1)] assms(3,4) acc] obtain rc w' where
    "fra_p_req_handle_new c revs w = Inr (rc, w')" "idle c w'" "frame w w'" unfolding one_answer_def by blast
  then show ?thesis using lib_frame [OF assms(1)] by blast
qed

section \<open>The calls of the program\<close>

text \<open>Changes of everything but requests, stores and endpoints.\<close>

lemma idle_globals:
  assumes "idle c w" and "reqs w' = reqs w" and "ends w' = ends w" and "stores w' = stores w"
    and "empty_req w' = empty_req w" and "empty_count w' = empty_count w" and "all_count w' = all_count w"
    and "empty_req_lock w' = empty_req_lock w" and "calm (w_env w')" and "hooks_ok c w'"
    and "routes_ready (bs c) (w_urls w')" and "\<forall>k e. routes (urls (w_urls w')) k = Some e \<longrightarrow> cells (ends w) e \<noteq> None"
    and "\<not> glob_store_map_lock (w_vars w')"
    and "unat (sizeof_req c) \<le> unat (sizeof_req c + glob_store_size (w_vars w'))"
  shows "idle c w'"
  using assms unfolding idle_def steady_def req_pool_def store_pool_def by simp

lemma hooks_ok_same:
  "hooks_ok c w \<Longrightarrow> w_hooks w' = w_hooks w \<Longrightarrow> ends w' = ends w \<Longrightarrow> \<not> pthreads (w_env w') \<Longrightarrow> hooks_ok c w'"
  by (simp add: hooks_ok_def hook_lock_ready_def)

lemma lib_url_add:
  assumes lib: "lib c n w" and e: "cells (ends w) e \<noteq> None"
  shows "\<exists>rc g v. fra_end_url_add (bs c) e verb url (w_urls w) (w_env w) = Inr (rc, g, v) \<and>
    lib c n (w\<lparr>w_urls := g, w_env := v\<rparr>) \<and>
    (length url < FRA_CORE_MAX_ENDPOINT_LENGTH \<longrightarrow> rc = 0 \<and> routes (urls g) = first_wins (routes (urls (w_urls w))) (url, verb) e)"
proof -
  note d = libD [OF lib]
  obtain ht vm mb cb where t: "urls (w_urls w) = Live ht" "table_ok ht" "glob_store_map (w_vars w) = Live vm" "map_ok vm"
    "main_poll (w_poll w) = Live mb" "callbacks (w_poll w) = Live cb"
    and bl: "live (w_env w) = n + 4 + map_blocks vm + table_blocks ht + end_blocks (cells (ends w))"
    using d(7) by (auto simp: tables_ok_def)
  obtain rc ht' v' where r: "add_route (bs c) (Live ht) e verb url (w_env w) = Inr (rc, Live ht', v')"
    and p: "route_post ht e verb url (w_env w) rc ht' v'"
    and ok: "calm (w_env w) \<and> length url < FRA_CORE_MAX_ENDPOINT_LENGTH \<longrightarrow> rc = 0 \<and> calm v'"
    using add_route_step [OF d(9) t(2), of e verb url "w_env w"] by blast
  have calm: "calm v'"
    using ok r p d(3,9) by (cases "length url < FRA_CORE_MAX_ENDPOINT_LENGTH")
      (auto simp: route_post_def add_route_def bfromcstr_calm)
  have np: "\<not> pthreads v'" using p d(4) by (simp add: route_post_def)
  let ?g = "(w_urls w)\<lparr>urls := Live ht'\<rparr>" let ?w' = "w\<lparr>w_urls := ?g, w_env := v'\<rparr>"
  have lk: "urls_lock (w_urls w) = False" using d(8) by (simp add: routes_ready_def)
  have run: "fra_end_url_add (bs c) e verb url (w_urls w) (w_env w) = Inr (if rc \<noteq> 0 then - 1 else 0, ?g, v')"
    using r p np d(4) t(1) lk by (auto simp: fra_end_url_add_def route_post_def)
  have rts: "\<forall>k e'. routes (urls ?g) k = Some e' \<longrightarrow> cells (ends w) e' \<noteq> None"
  proof (intro allI impI)
    fix k e' assume "routes (urls ?g) k = Some e'"
    then have "routes (urls (w_urls w)) k = Some e' \<or> e' = e"
      using p t(1) by (auto simp: route_post_def first_wins_def split: option.splits if_splits)
    then show "cells (ends w) e' \<noteq> None" using steadyD(9) [OF d(2)] e by blast
  qed
  have ready: "routes_ready (bs c) ?g" using p d(8,9) by (auto simp: routes_ready_def table_inv_def route_post_def)
  have "idle c ?w'"
    by (rule idle_globals [OF d(1)]) (use calm np ready rts steadyD [OF d(2)] hooks_ok_same [OF steadyD(2) [OF d(2)], of ?w'] in simp_all)
  moreover have "tables_ok n ?w'" using t bl p by (simp add: tables_ok_def route_post_def)
  ultimately have "lib c n ?w'" using lib np by (simp add: lib_def hooks_inv_def)
  moreover have "length url < FRA_CORE_MAX_ENDPOINT_LENGTH \<longrightarrow>
      rc = 0 \<and> routes (urls ?g) = first_wins (routes (urls (w_urls w))) (url, verb) e"
    using ok d(3) p t(1) by (auto simp: route_post_def)
  ultimately show ?thesis using run by (intro exI [of _ "if rc \<noteq> 0 then - 1 else 0"] exI [of _ ?g] exI [of _ v']) simp
qed

lemma hooks_inv_ok:
  assumes "hooks_inv w" and "brk (hookmem (w_hooks w)) \<le> fuel c" and "\<not> pthreads (w_env w)"
  shows "hooks_ok c w"
proof -
  obtain X where X: "hook_tabs (hookmem (w_hooks w)) (hook_arr (w_hooks w) (cells (ends w))) X"
    using assms(1) by (auto simp: hooks_inv_def)
  have tab: "array_ok (fuel c) (hookmem (w_hooks w)) arr (hook_cnt k)"
    if "hook_arr (w_hooks w) (cells (ends w)) k = Some arr" for k arr
    using X that unfolding hook_tabs_def by (intro hook_tab_array [OF _ assms(2)]) blast
  have "array_ok (fuel c) (hookmem (w_hooks w)) (hooks n) FRA_HOOK_COUNT" if "cells (ends w) e = Some n" for e n
    using tab [of "Inr e"] that by simp
  then show ?thesis
    using tab [of "Inl Glob_hooks_lock"] tab [of "Inl Req_hooks_lock"] assms(3) by (simp add: hooks_ok_def hook_lock_ready_def)
qed

lemma lib_hooks:
  assumes lib: "lib c n w" and inv: "hooks_inv (w\<lparr>w_hooks := g, w_env := v\<rparr>)"
    and v: "live v = live (w_env w)" "pthreads v = pthreads (w_env w)" "calm v" and "brk (hookmem g) \<le> fuel c"
  shows "lib c n (w\<lparr>w_hooks := g, w_env := v\<rparr>)"
proof -
  note d = libD [OF lib]
  let ?w' = "w\<lparr>w_hooks := g, w_env := v\<rparr>"
  have "hooks_ok c ?w'" using hooks_inv_ok [OF inv] assms(6) v d(4) by simp
  then have "idle c ?w'" by (intro idle_globals [OF d(1)]) (use v steadyD [OF d(2)] in simp_all)
  with inv lib v d(4) assms(6) show ?thesis by (simp add: lib_def tables_ok_def)
qed

lemma lib_glob_hook:
  assumes lib: "lib c n w" and "0 \<le> type"
  shows "\<exists>rc g v. fra_glob_hook_reg type cb prio (w_hooks w) (w_env w) = Inr (rc, g, v) \<and>
    (brk (hookmem g) \<le> fuel c \<longrightarrow> lib c n (w\<lparr>w_hooks := g, w_env := v\<rparr>))"
proof -
  note d = libD [OF lib]
  let ?g = "w_hooks w" and ?E = "cells (ends w)" and ?k = "Inl Glob_hooks_lock :: hook_key"
  obtain X where X: "hook_tabs (hookmem ?g) (hook_arr ?g ?E) X" using d(6) by (auto simp: hooks_inv_def)
  have rdy: "lock_ready (w_env w) (Some (glob_hooks_lock ?g))" using d(4) by (simp add: lock_ready_def)
  obtain rc arr' xss' h' v' where
    run: "hook_reg (Some (glob_hooks_lock ?g)) (glob_hooks ?g) type cb prio FRA_GLOB_HOOK_COUNT (hookmem ?g) (w_env w) =
      Inr (rc, Some (glob_hooks_lock ?g), arr', h', v')"
    and X': "hook_tabs h' ((hook_arr ?g ?E)(?k := Some arr')) (X(?k := xss'))"
    and v': "live v' = live (w_env w)" "pthreads v' = pthreads (w_env w)" "calm v'"
    using hook_tabs_reg [OF X _ assms(2) rdy, of ?k "glob_hooks ?g" cb prio] d(3) by auto
  let ?g' = "?g\<lparr>hookmem := h', glob_hooks := arr'\<rparr>" let ?w' = "w\<lparr>w_hooks := ?g', w_env := v'\<rparr>"
  have arr: "hook_arr ?g' ?E = (hook_arr ?g ?E)(?k := Some arr')"
  proof
    fix k show "hook_arr ?g' ?E k = ((hook_arr ?g ?E)(?k := Some arr')) k"
      by (cases "(?g, ?E, k)" rule: hook_arr.cases) auto
  qed
  have inv: "hooks_inv ?w'" using X' unfolding hooks_inv_def by (auto simp: arr)
  have "fra_glob_hook_reg type cb prio ?g (w_env w) = Inr (rc, ?g', v')" by (simp add: fra_glob_hook_reg_def run)
  then show ?thesis using lib_hooks [OF lib inv v'] by simp
qed

lemma lib_req_hook:
  assumes lib: "lib c n w" and "0 \<le> type"
  shows "\<exists>rc g v. fra_req_hook_reg type cb prio (w_hooks w) (w_env w) = Inr (rc, g, v) \<and>
    (brk (hookmem g) \<le> fuel c \<longrightarrow> lib c n (w\<lparr>w_hooks := g, w_env := v\<rparr>))"
proof -
  note d = libD [OF lib]
  let ?g = "w_hooks w" and ?E = "cells (ends w)" and ?k = "Inl Req_hooks_lock :: hook_key"
  obtain X where X: "hook_tabs (hookmem ?g) (hook_arr ?g ?E) X" using d(6) by (auto simp: hooks_inv_def)
  have rdy: "lock_ready (w_env w) (Some (req_hooks_lock ?g))" using d(4) by (simp add: lock_ready_def)
  obtain rc arr' xss' h' v' where
    run: "hook_reg (Some (req_hooks_lock ?g)) (req_hooks ?g) type cb prio FRA_HOOK_COUNT (hookmem ?g) (w_env w) =
      Inr (rc, Some (req_hooks_lock ?g), arr', h', v')"
    and X': "hook_tabs h' ((hook_arr ?g ?E)(?k := Some arr')) (X(?k := xss'))"
    and v': "live v' = live (w_env w)" "pthreads v' = pthreads (w_env w)" "calm v'"
    using hook_tabs_reg [OF X _ assms(2) rdy, of ?k "req_hooks ?g" cb prio] d(3) by auto
  let ?g' = "?g\<lparr>hookmem := h', req_hooks := arr'\<rparr>" let ?w' = "w\<lparr>w_hooks := ?g', w_env := v'\<rparr>"
  have arr: "hook_arr ?g' ?E = (hook_arr ?g ?E)(?k := Some arr')"
  proof
    fix k show "hook_arr ?g' ?E k = ((hook_arr ?g ?E)(?k := Some arr')) k"
      by (cases "(?g, ?E, k)" rule: hook_arr.cases) auto
  qed
  have inv: "hooks_inv ?w'" using X' unfolding hooks_inv_def by (auto simp: arr)
  have "fra_req_hook_reg type cb prio ?g (w_env w) = Inr (rc, ?g', v')" by (simp add: fra_req_hook_reg_def run)
  then show ?thesis using lib_hooks [OF lib inv v'] by simp
qed

text \<open>Changing the endpoints: a new endpoint, or another one at an address in use.\<close>

lemma store_lists_core:
  assumes d: "store_lists Y B E S"
    and k: "\<And>e k. E' e = Some k \<Longrightarrow> (case E e of Some k0 \<Rightarrow> store_empty k = store_empty k0 \<and>
      store_empty_count k = store_empty_count k0 \<and> store_all_count k = store_all_count k0
    | None \<Rightarrow> store_empty k = 0 \<and> store_empty_count k = 0 \<and> store_all_count k = 0)"
    and n: "\<And>e. E' e = None \<Longrightarrow> E e = None"
  shows "store_lists Y B E' S"
proof -
  note d = store_listsD [OF d]
  show ?thesis
  proof (rule store_listsI)
    fix e k assume e: "E' e = Some k"
    note ke = k [OF e]
    show "chain s_next S (store_empty k) (Y e)" using ke d(1) [of e] d(7) [of e] by (cases "E e") auto
    show "finite (B e)" using d(2) [of e] d(7) [of e] by (cases "E e") auto
    show "store_all_count k = store_empty_count k + int (card (B e))"
      using ke d(3) [of e] d(7) [of e] by (cases "E e") auto
    show "store_empty_count k = int (length (Y e))" using ke d(4) [of e] d(7) [of e] by (cases "E e") auto
  next
    show "E' e = None \<Longrightarrow> Y e = [] \<and> B e = {}" for e using d(7) n by blast
  qed (fact d(5,6,8))+
qed

lemma lib_ends:
  assumes lib: "lib c n w" and w': "w' = w\<lparr>ends := eh, w_env := v, w_hooks := g\<rparr>"
    and eh: "heap_ok eh" and v: "calm v" "\<not> pthreads v"
    and k: "\<And>e k. cells eh e = Some k \<Longrightarrow> (case cells (ends w) e of Some k0 \<Rightarrow> store_empty k = store_empty k0 \<and>
      store_empty_count k = store_empty_count k0 \<and> store_all_count k = store_all_count k0
    | None \<Rightarrow> store_empty k = 0 \<and> store_empty_count k = 0 \<and> store_all_count k = 0) \<and> \<not> end_lock k \<and>
      unat sizeof_end_store \<le> unat (sizeof_end_store + store_size k) \<and> (\<exists>m. end_map k = Live m \<and> map_ok m)"
    and none: "\<And>e. cells eh e = None \<Longrightarrow> cells (ends w) e = None"
    and inv: "hooks_inv w'" and brk: "brk (hookmem g) \<le> fuel c"
    and bl: "live v = live (w_env w) + end_blocks (cells eh) - end_blocks (cells (ends w))"
  shows "lib c n w'"
proof -
  note d = libD [OF lib]
  have hk: "hooks_ok c w'" by (rule hooks_inv_ok [OF inv]) (simp_all add: w' brk v(2))
  have live: "cells eh e \<noteq> None" if "routes (urls (w_urls w)) k = Some e" for k e
  proof
    assume "cells eh e = None"
    then have "cells (ends w) e = None" by (rule none)
    with steadyD(9) [OF d(2) that] show False by contradiction
  qed
  have lk: "\<not> end_lock k" "unat sizeof_end_store \<le> unat (sizeof_end_store + store_size k)" "\<exists>m. end_map k = Live m \<and> map_ok m"
    if "cells eh e = Some k" for e k
    using k [OF that] by blast+
  have st: "steady c w'"
    unfolding steady_def
  proof (intro conjI)
    show "\<forall>k e. routes (urls (w_urls w')) k = Some e \<longrightarrow> cells (ends w') e \<noteq> None"
      unfolding w' using live by simp
    show "\<forall>e n. cells (ends w') e = Some n \<longrightarrow> \<not> end_lock n \<and> unat sizeof_end_store \<le> unat (sizeof_end_store + store_size n)"
      unfolding w' using lk by simp
  qed (use hk eh v steadyD(3,5,8,10,11) [OF d(2)] in \<open>simp_all add: w'\<close>)
  obtain Y where Y: "store_lists Y (\<lambda>_. {}) (cells (ends w)) (cells (stores w))"
    using d(1) by (auto simp: idle_def store_pool_def)
  have "store_lists Y (\<lambda>_. {}) (cells eh) (cells (stores w))"
    by (rule store_lists_core [OF Y]) (use k none in blast)+
  then have "store_pool (\<lambda>_. {}) w'" by (auto simp: store_pool_def w')
  with st d(1) have "idle c w'" by (simp add: idle_def req_pool_def w')
  moreover have "\<exists>m. end_map k' = Live m \<and> map_ok m" if "cells (ends w') e = Some k'" for e k'
    using k [of e k'] that by (simp add: w')
  ultimately show ?thesis using lib inv v bl brk by (auto simp: lib_def tables_ok_def w')
qed

lemma lock_end_single:
  assumes "\<not> pthreads (w_env w)" and "heap_ok (ends w)" and "cells (ends w) e = Some n"
  shows "lock_end e w = Inr (0, w)" and "unlock_end e w = Inr (0, w)"
proof -
  have u: "upd_end e (end_lock_update (\<lambda>_. end_lock n)) w = Inr w"
    using upd_end_ok [OF assms(2,3), of "end_lock_update (\<lambda>_. end_lock n)"] assms(3)
    by (simp add: with_end_def fun_upd_idem)
  show "lock_end e w = Inr (0, w)" "unlock_end e w = Inr (0, w)"
    using assms by (simp_all add: lock_end_def unlock_end_def hget_ok u)
qed

lemma end_blocks_upd:
  assumes "finite (dom E)" and "E e = Some k"
  shows "end_blocks (E(e \<mapsto> k')) = end_blocks E - end_cost k + end_cost k'"
proof -
  have d: "dom E = insert e (dom E - {e})" using assms(2) by auto
  have "end_blocks E = end_cost k + (\<Sum>x \<in> dom E - {e}. end_cost (the (E x)))"
    unfolding end_blocks_def by (subst d) (use assms in \<open>simp add: sum.insert_remove\<close>)
  moreover have "end_blocks (E(e \<mapsto> k')) = end_cost k' + (\<Sum>x \<in> dom E - {e}. end_cost (the (E x)))"
    unfolding end_blocks_def by (simp add: assms(1) sum.insert_remove insert_absorb)
  ultimately show ?thesis by simp
qed

lemma end_blocks_new:
  assumes "finite (dom E)" and "E e = None"
  shows "end_blocks (E(e \<mapsto> k)) = end_blocks E + end_cost k"
proof -
  have "e \<notin> dom E" using assms(2) by auto
  then have "(\<Sum>x \<in> dom E. end_cost (the ((E(e \<mapsto> k)) x))) = end_blocks E"
    unfolding end_blocks_def by (intro sum.cong) auto
  with \<open>e \<notin> dom E\<close> assms(1) show ?thesis unfolding end_blocks_def by simp
qed

lemma hook_arr_end [simp]:
  "hook_arr g (E(e \<mapsto> k)) = (hook_arr g E)(Inr e := Some (hooks k))"
proof
  fix i show "hook_arr g (E(e \<mapsto> k)) i = ((hook_arr g E)(Inr e := Some (hooks k))) i"
    by (cases "(g, E, i)" rule: hook_arr.cases) auto
qed

lemma with_end_world: "with_end e k (w\<lparr>w_env := v, w_hooks := g\<rparr>) =
  w\<lparr>ends := (ends w)\<lparr>cells := (cells (ends w))(e \<mapsto> k)\<rparr>, w_env := v, w_hooks := g\<rparr>"
  by (simp add: with_end_def)

text \<open>Writing to one endpoint.\<close>

lemma lib_with_end:
  assumes lib: "lib c n w" and e: "cells (ends w) e = Some k" and v: "calm v" "\<not> pthreads v"
    and k': "store_empty k' = store_empty k" "store_empty_count k' = store_empty_count k" "store_all_count k' = store_all_count k"
      "end_lock k' = end_lock k" "unat sizeof_end_store \<le> unat (sizeof_end_store + store_size k')" "end_map k' = Live m" "map_ok m"
    and inv: "hooks_inv (with_end e k' (w\<lparr>w_env := v, w_hooks := g\<rparr>))" and brk: "brk (hookmem g) \<le> fuel c"
    and bl: "live v = live (w_env w) + end_cost k' - end_cost k"
  shows "lib c n (with_end e k' (w\<lparr>w_env := v, w_hooks := g\<rparr>))"
proof (rule lib_ends [OF lib with_end_world _ v])
  note d = libD [OF lib]
  have old: "\<not> end_lock i" "unat sizeof_end_store \<le> unat (sizeof_end_store + store_size i)" "\<exists>m. end_map i = Live m \<and> map_ok m"
    if "cells (ends w) a = Some i" for a i
    using steadyD(6,7) [OF d(2) that] lib that by (auto simp: lib_def)
  show "(case cells (ends w) a of Some k0 \<Rightarrow> store_empty i = store_empty k0 \<and>
      store_empty_count i = store_empty_count k0 \<and> store_all_count i = store_all_count k0
    | None \<Rightarrow> store_empty i = 0 \<and> store_empty_count i = 0 \<and> store_all_count i = 0) \<and> \<not> end_lock i \<and>
      unat sizeof_end_store \<le> unat (sizeof_end_store + store_size i) \<and> (\<exists>m. end_map i = Live m \<and> map_ok m)"
    if a: "cells ((ends w)\<lparr>cells := (cells (ends w))(e \<mapsto> k')\<rparr>) a = Some i" for a i
  proof (cases "a = e")
    case True
    then have "i = k'" using a by simp
    then show ?thesis using True e k' old(1) [OF e] by simp
  next
    case False
    then have "cells (ends w) a = Some i" using a by simp
    with old [OF this] show ?thesis by simp
  qed
  show "heap_ok ((ends w)\<lparr>cells := (cells (ends w))(e \<mapsto> k')\<rparr>)" using d(5) e by (intro heap_ok_upd) simp_all
  show "cells (ends w) a = None" if "cells ((ends w)\<lparr>cells := (cells (ends w))(e \<mapsto> k')\<rparr>) a = None" for a
    using that by (simp split: if_splits)
  show "live v = live (w_env w) + end_blocks (cells ((ends w)\<lparr>cells := (cells (ends w))(e \<mapsto> k')\<rparr>)) - end_blocks (cells (ends w))"
    using end_blocks_upd [OF finite_dom_heap [OF d(5)] e, of k'] bl by simp
qed (use inv brk in simp_all)

lemma lib_callback_set:
  assumes lib: "lib c n w" and e: "cells (ends w) e = Some k"
  shows "\<exists>w'. fra_end_callback_set e cb w = Inr (0, w') \<and> lib c n w' \<and> w' = with_end e (k\<lparr>callback := cb\<rparr>) w"
proof -
  note d = libD [OF lib]
  let ?w' = "with_end e (k\<lparr>callback := cb\<rparr>) w"
  have e': "cells (ends ?w') e = Some (k\<lparr>callback := cb\<rparr>)" "heap_ok (ends ?w')" using d(5) e by simp_all
  have "fra_end_callback_set e cb w = Inr (0, ?w')"
    using lock_end_single [OF d(4,5) e] upd_end_ok [OF d(5) e] lock_end_single(2) [OF _ e'(2,1)] d(4)
    by (simp add: fra_end_callback_set_def)
  moreover have "lib c n (with_end e (k\<lparr>callback := cb\<rparr>) (w\<lparr>w_env := w_env w, w_hooks := w_hooks w\<rparr>))"
  proof -
    obtain m where m: "end_map k = Live m" "map_ok m" using lib e by (auto simp: lib_def)
    obtain X where "hook_tabs (hookmem (w_hooks w)) (hook_arr (w_hooks w) (cells (ends w))) X"
      using d(6) by (auto simp: hooks_inv_def)
    moreover have "(hook_arr (w_hooks w) (cells (ends w)))(Inr e := Some (hooks k)) = hook_arr (w_hooks w) (cells (ends w))"
      using e by (simp add: fun_upd_idem_iff)
    ultimately have "hooks_inv (with_end e (k\<lparr>callback := cb\<rparr>) (w\<lparr>w_env := w_env w, w_hooks := w_hooks w\<rparr>))"
      by (auto simp: hooks_inv_def)
    then show ?thesis
      by (intro lib_with_end [OF lib e d(3,4)]) (use m steadyD(7) [OF d(2) e] d(10) in \<open>simp_all add: end_cost_def\<close>)
  qed
  ultimately show ?thesis by auto
qed

lemma lib_end_hook:
  assumes lib: "lib c n w" and e: "cells (ends w) e = Some k" and "0 \<le> type"
  shows "\<exists>rc w'. fra_end_hook_reg e type cb prio w = Inr (rc, w') \<and> (brk (hookmem (w_hooks w')) \<le> fuel c \<longrightarrow> lib c n w')"
proof -
  note d = libD [OF lib]
  let ?g = "w_hooks w" and ?E = "cells (ends w)"
  obtain X where X: "hook_tabs (hookmem ?g) (hook_arr ?g ?E) X" using d(6) by (auto simp: hooks_inv_def)
  have rdy: "lock_ready (w_env w) None" by (simp add: lock_ready_def)
  obtain rc arr' xss' h' v' where
    run: "hook_reg None (hooks k) type cb prio FRA_HOOK_COUNT (hookmem ?g) (w_env w) = Inr (rc, None, arr', h', v')"
    and X': "hook_tabs h' ((hook_arr ?g ?E)(Inr e := Some arr')) (X(Inr e := xss'))"
    and v': "live v' = live (w_env w)" "pthreads v' = pthreads (w_env w)" "calm v'"
    using hook_tabs_reg [OF X _ assms(3) rdy, of "Inr e" "hooks k" cb prio] e d(3) by auto
  let ?g' = "?g\<lparr>hookmem := h'\<rparr>" and ?k' = "k\<lparr>hooks := arr'\<rparr>"
  let ?w' = "with_end e ?k' (w\<lparr>w_env := v', w_hooks := ?g'\<rparr>)"
  have run': "fra_end_hook_reg e type cb prio w = Inr (rc, ?w')"
    using upd_end_ok [of "w\<lparr>w_env := v', w_hooks := ?g'\<rparr>" e k] d(5) e
    by (simp add: fra_end_hook_reg_def hget_ok run)
  have arr: "hook_arr ?g' E = hook_arr ?g E" for E
  proof
    fix i show "hook_arr ?g' E i = hook_arr ?g E i" by (cases "(?g, E, i)" rule: hook_arr.cases) auto
  qed
  have inv: "hooks_inv ?w'" using X' unfolding hooks_inv_def by (auto simp: arr)
  obtain m where m: "end_map k = Live m" "map_ok m" using lib e by (auto simp: lib_def)
  have "lib c n ?w'" if "brk (hookmem ?g') \<le> fuel c"
    by (rule lib_with_end [OF lib e _ _ _ _ _ _ _ _ m(2) inv that])
      (use v' d(4) m steadyD(7) [OF d(2) e] in \<open>simp_all add: end_cost_def\<close>)
  with run' show ?thesis by auto
qed

lemma lib_end_var:
  assumes lib: "lib c n w" and e: "cells (ends w) e = Some k"
  shows "\<exists>rc w' k'. fra_end_var_reg (bs c) e name type sz w = Inr (rc, w') \<and> cells (ends w') e = Some k' \<and>
    (unat sizeof_end_store \<le> unat (sizeof_end_store + store_size k') \<longrightarrow> lib c n w')"
proof -
  note d = libD [OF lib]
  obtain m where m: "end_map k = Live m" "map_ok m" using lib e by (auto simp: lib_def)
  obtain rc m' s' v' where r: "reg (bs c) (Live m) (store_size k) name type sz (w_env w) = Inr (rc, Live m', s', v')"
    and p: "reg_post m (store_size k) name type sz (w_env w) rc m' s' v'"
    using reg_step [OF d(9) m(2)] by blast
  have calm: "calm v'"
  proof (cases "store_size k < SIZE_MAX - sz")
    case True
    with reg_calm [OF d(9) m(2) d(3) True, of name type] r show ?thesis by auto
  next
    case False
    with r d(3) show ?thesis by (simp add: reg_def)
  qed
  let ?k' = "k\<lparr>end_map := Live m', store_size := s'\<rparr>" let ?w' = "with_end e ?k' (w\<lparr>w_env := v', w_hooks := w_hooks w\<rparr>)"
  have run: "fra_end_var_reg (bs c) e name type sz w = Inr (rc, ?w')"
    using upd_end_ok [of "w\<lparr>w_env := v'\<rparr>" e k] d(5) e by (simp add: fra_end_var_reg_def hget_ok m r)
  obtain X where "hook_tabs (hookmem (w_hooks w)) (hook_arr (w_hooks w) (cells (ends w))) X"
    using d(6) by (auto simp: hooks_inv_def)
  moreover have "(hook_arr (w_hooks w) (cells (ends w)))(Inr e := Some (hooks k)) = hook_arr (w_hooks w) (cells (ends w))"
    using e by (simp add: fun_upd_idem_iff)
  ultimately have inv: "hooks_inv ?w'" by (auto simp: hooks_inv_def)
  have "lib c n ?w'" if "unat sizeof_end_store \<le> unat (sizeof_end_store + s')"
    by (rule lib_with_end [OF lib e calm _ _ _ _ _ _ _ _ inv d(10), where m = m'])
      (use that d(4) m p in \<open>simp_all add: end_cost_def reg_post_def\<close>)
  with run show ?thesis by auto
qed

lemma empty_hook_tab:
  "heap_ok h \<Longrightarrow> 0 < n \<Longrightarrow> hook_tab h (Live (replicate (nat n) 0)) n (replicate (nat n) [])"
  by (auto simp: hook_tab_def hook_table_def hook_addrs_def)

lemma var_ht_get_calm:
  "calm v \<Longrightarrow> 0 < cnt \<Longrightarrow> \<exists>m v'. fra_p_var_ht_get cnt v = (Live m, v') \<and> calm v' \<and> pthreads v' = pthreads v"
  by (simp add: fra_p_var_ht_get_def fra_p_ht_new_def take_block_calm)

lemma lib_end_new:
  assumes lib: "lib c n w" and cnt: "0 < cnt" "cnt < 2 ^ 31"
  shows "\<exists>e w' k. fra_end_new cnt w = (e, w') \<and> e \<noteq> 0 \<and> cells (ends w) e = None \<and> cells (ends w') e = Some k \<and>
    callback k = 0 \<and> hooks k = Live (replicate (nat FRA_HOOK_COUNT) 0) \<and> ends w' = (ends w)\<lparr>cells := (cells (ends w))(e \<mapsto> k), brk := Suc e\<rparr> \<and>
    w_hooks w' = w_hooks w \<and> accepts w' = accepts w \<and> empty_count w' = empty_count w \<and> w_urls w' = w_urls w \<and> lib c n w' \<and>
    (\<exists>h v. w' = w\<lparr>ends := h, w_env := v\<rparr>)"
proof -
  note d = libD [OF lib]
  obtain m v1 where get: "fra_p_var_ht_get cnt (w_env w) = (Live m, v1)" and v1: "calm v1" "pthreads v1 = pthreads (w_env w)"
    using var_ht_get_calm [OF d(3) cnt(1)] by blast
  note m = var_ht_new [OF get cnt]
  let ?v = "v1\<lparr>live := live v1 + 1\<rparr>" and ?arr = "Live (replicate (nat FRA_HOOK_COUNT) 0)"
  have arr: "calloc_hooks FRA_HOOK_COUNT v1 = (?arr, ?v)"
    using v1(1) by (simp add: calloc_hooks_def take_block_calm)
  define e where "e = brk (ends w)"
  define k where "k = \<lparr>store_size = 0, end_map = Live m, store_empty = 0, store_empty_count = 0, store_all_count = 0,
      hooks = ?arr, end_lock = False, callback = 0\<rparr>"
  define eh where "eh = (ends w)\<lparr>cells := (cells (ends w))(e \<mapsto> k), brk := Suc e\<rparr>"
  have new: "hnew k (ends w) = (e, eh)" by (simp add: hnew_def e_def eh_def)
  have fresh: "cells (ends w) e = None" "e \<noteq> 0" using hnew_fresh [OF d(5) new] by simp_all
  have heh: "heap_ok eh" by (rule heap_ok_hnew [OF d(5) new])
  let ?w' = "w\<lparr>ends := eh, w_env := ?v, w_hooks := w_hooks w\<rparr>"
  have run: "fra_end_new cnt w = (e, ?w')"
    using d(3) get arr new by (simp add: fra_end_new_def draw_calm k_def)
  obtain X where X: "hook_tabs (hookmem (w_hooks w)) (hook_arr (w_hooks w) (cells (ends w))) X"
    using d(6) by (auto simp: hooks_inv_def)
  have hk: "hook_tab (hookmem (w_hooks w)) ?arr FRA_HOOK_COUNT (replicate (nat FRA_HOOK_COUNT) [])"
    using X by (intro empty_hook_tab) (simp_all add: hook_tabs_def FRA_HOOK_COUNT_def)
  have "hook_tabs (hookmem (w_hooks w)) ((hook_arr (w_hooks w) (cells (ends w)))(Inr e := Some ?arr))
      (X(Inr e := replicate (nat FRA_HOOK_COUNT) []))"
    by (rule hook_tabs_new [OF X]) (use fresh(1) hk in simp_all)
  then have inv: "hooks_inv ?w'" by (auto simp: hooks_inv_def eh_def k_def)
  have old: "\<not> end_lock i" "unat sizeof_end_store \<le> unat (sizeof_end_store + store_size i)" "\<exists>m. end_map i = Live m \<and> map_ok m"
    if "cells (ends w) a = Some i" for a i
    using steadyD(6,7) [OF d(2) that] lib that by (auto simp: lib_def)
  have "lib c n ?w'"
  proof (rule lib_ends [OF lib refl heh _ _ _ _ inv d(10)])
    show "calm ?v" "\<not> pthreads ?v" using v1 d(4) by simp_all
    show "(case cells (ends w) a of Some k0 \<Rightarrow> store_empty i = store_empty k0 \<and>
        store_empty_count i = store_empty_count k0 \<and> store_all_count i = store_all_count k0
      | None \<Rightarrow> store_empty i = 0 \<and> store_empty_count i = 0 \<and> store_all_count i = 0) \<and> \<not> end_lock i \<and>
        unat sizeof_end_store \<le> unat (sizeof_end_store + store_size i) \<and> (\<exists>m. end_map i = Live m \<and> map_ok m)"
      if a: "cells eh a = Some i" for a i
    proof (cases "a = e")
      case True
      then have "i = k" using a by (simp add: eh_def)
      then show ?thesis using True fresh m(1) by (simp add: k_def)
    next
      case False
      then have "cells (ends w) a = Some i" using a by (simp add: eh_def)
      with old [OF this] show ?thesis by simp
    qed
    show "cells (ends w) a = None" if "cells eh a = None" for a
      using that by (simp add: eh_def split: if_splits)
    show "live ?v = live (w_env w) + end_blocks (cells eh) - end_blocks (cells (ends w))"
      using end_blocks_new [OF finite_dom_heap [OF d(5)] fresh(1), of k] m(3) by (simp add: eh_def k_def end_cost_def)
  qed
  moreover have "cells (ends ?w') e = Some k" "callback k = 0" "hooks k = ?arr" "ends ?w' = (ends w)\<lparr>cells := (cells (ends w))(e \<mapsto> k), brk := Suc e\<rparr>"
    by (simp_all add: eh_def k_def)
  moreover have "\<exists>h v. ?w' = w\<lparr>ends := h, w_env := v\<rparr>" by (intro exI [of _ eh] exI [of _ ?v]) simp
  ultimately show ?thesis using run fresh by (intro exI [of _ e] exI [of _ ?w'] exI [of _ k]) simp
qed

lemma lib_req_var:
  assumes lib: "lib c n w"
  shows "\<exists>rc g v. fra_req_var_reg (bs c) name type sz (w_vars w) (w_env w) = Inr (rc, g, v) \<and>
    (unat (sizeof_req c) \<le> unat (sizeof_req c + glob_store_size g) \<longrightarrow> lib c n (w\<lparr>w_vars := g, w_env := v\<rparr>)) \<and>
    (glob_store_size (w_vars w) < SIZE_MAX - sz \<longrightarrow> rc = 0 \<and> glob_store_size g = glob_store_size (w_vars w) + sz \<and>
      (\<exists>m m'. glob_store_map (w_vars w) = Live m \<and> glob_store_map g = Live m' \<and> map_ok m' \<and>
         ht_map m' = first_wins (ht_map m) name \<lparr>var_type = type, position = glob_store_size (w_vars w)\<rparr>))"
proof -
  note d = libD [OF lib]
  obtain ht vm mb cb where t: "urls (w_urls w) = Live ht" "table_ok ht" "glob_store_map (w_vars w) = Live vm" "map_ok vm"
    "main_poll (w_poll w) = Live mb" "callbacks (w_poll w) = Live cb"
    and bl: "live (w_env w) = n + 4 + map_blocks vm + table_blocks ht + end_blocks (cells (ends w))"
    using d(7) by (auto simp: tables_ok_def)
  let ?s = "glob_store_size (w_vars w)"
  obtain rc m' s' v' where r: "reg (bs c) (Live vm) ?s name type sz (w_env w) = Inr (rc, Live m', s', v')"
    and p: "reg_post vm ?s name type sz (w_env w) rc m' s' v'"
    using reg_step [OF d(9) t(4)] by blast
  have calm: "calm v'"
  proof (cases "?s < SIZE_MAX - sz")
    case True
    with reg_calm [OF d(9) t(4) d(3) True, of name type] r show ?thesis by auto
  next
    case False
    with r d(3) show ?thesis by (simp add: reg_def)
  qed
  let ?g = "(w_vars w)\<lparr>glob_store_map := Live m', glob_store_size := s'\<rparr>" let ?w' = "w\<lparr>w_vars := ?g, w_env := v'\<rparr>"
  have lk: "glob_store_map_lock (w_vars w) = False" using steadyD(10) [OF d(2)] by simp
  have rc: "rc = 0 \<or> rc = - 1" using p by (auto simp: reg_post_def)
  have run: "fra_req_var_reg (bs c) name type sz (w_vars w) (w_env w) = Inr (rc, ?g, v')"
    using rc lk calm d(3) t(3) by (auto simp: fra_req_var_reg_def pthread_mutex_lock_def pthread_mutex_unlock_def draw_calm r)
  have "lib c n ?w'" if "unat (sizeof_req c) \<le> unat (sizeof_req c + s')"
  proof -
    have np: "\<not> pthreads v'" using p d(4) by (simp add: reg_post_def)
    have "idle c ?w'"
      by (rule idle_globals [OF d(1)])
        (use calm np that lk steadyD [OF d(2)] hooks_ok_same [OF steadyD(2) [OF d(2)], of ?w'] in simp_all)
    moreover have "tables_ok n ?w'" using t bl p by (simp add: tables_ok_def reg_post_def)
    ultimately show ?thesis using lib np by (simp add: lib_def hooks_inv_def)
  qed
  moreover have "rc = 0 \<and> s' = ?s + sz \<and> map_ok m' \<and> ht_map m' = first_wins (ht_map vm) name \<lparr>var_type = type, position = ?s\<rparr>"
    if room: "?s < SIZE_MAX - sz"
  proof -
    from reg_calm [OF d(9) t(4) d(3) room, of name type] r
    have "rc = 0" "reg_post vm ?s name type sz (w_env w) 0 m' s' v'" by auto
    then show ?thesis by (simp add: reg_post_def)
  qed
  ultimately show ?thesis using run t(3) by (intro exI [of _ rc] exI [of _ ?g] exI [of _ v']) simp
qed

lemma maybe_grow_calm:
  assumes "calm v" and "main_poll_maybe_grow p v = Inr (rc, p', v')"
  shows "v' = v" and "main_poll_lock p' = main_poll_lock p" and "callbacks p = Live b \<Longrightarrow> \<exists>b'. callbacks p' = Live b'"
  using assms
  by (auto simp: main_poll_maybe_grow_def bindo_eq_Inr Let_def blk_realloc_def draw_calm split: if_splits)

lemma poll_append_keeps:
  assumes "poll_append d ev cb rcb r p = Inr p'"
  shows "main_poll_lock p' = main_poll_lock p" and "initialized p' = initialized p" and "\<exists>b. callbacks p' = Live b"
  using assms by (auto simp: poll_append_def bindo_eq_Inr blk_put_ok)

lemma fd_add_world:
  assumes calm: "calm (w_env w)" and lk: "\<not> main_poll_lock (w_poll w)" and i: "initialized (w_poll w)"
    and cb: "callbacks (w_poll w) = Live b" and run: "fd_add d ev cb rcb r w = Inr (rc, w')"
  obtains p b' where "w' = w\<lparr>w_poll := p\<rparr>" and "\<not> main_poll_lock p" and "initialized p" and "callbacks p = Live b'"
proof -
  let ?p0 = "(w_poll w)\<lparr>main_poll_lock := True\<rparr>"
  have lock: "lock_poll w = Inr (0, w\<lparr>w_poll := ?p0\<rparr>)" using lock_poll_calm [OF calm lk] by (simp add: set_poll_def)
  have un: "unlock_poll (w\<lparr>w_poll := p\<rparr>) = Inr (0, w\<lparr>w_poll := p\<lparr>main_poll_lock := False\<rparr>\<rparr>)" if "main_poll_lock p" for p
    using unlock_poll_calm [of "w\<lparr>w_poll := p\<rparr>"] that calm by (simp add: set_poll_def)
  show ?thesis
  proof (cases "main_poll_maybe_grow ?p0 (w_env w)")
    case (Inl s)
    then show ?thesis using run lock i by (simp add: fd_add_def)
  next
    case (Inr x)
    obtain rc2 p2 v2 where g: "main_poll_maybe_grow ?p0 (w_env w) = Inr (rc2, p2, v2)" using Inr by (cases x) auto
    obtain b2 where g2: "v2 = w_env w" "main_poll_lock p2" "callbacks p2 = Live b2"
      using maybe_grow_calm [OF calm g] cb by auto
    have i2: "initialized p2" using g i by (auto simp: main_poll_maybe_grow_def bindo_eq_Inr Let_def split: if_splits)
    show ?thesis
    proof (cases "rc2 = 0")
      case False
      then have "w' = w\<lparr>w_poll := p2\<lparr>main_poll_lock := False\<rparr>\<rparr>"
        using run lock i g g2 un [of p2] by (simp add: fd_add_def fail_unlock_poll_def)
      then show ?thesis using that g2 i2 by simp
    next
      case True
      then obtain p3 where a: "poll_append d ev cb rcb r p2 = Inr p3"
        using run lock i g by (cases "poll_append d ev cb rcb r p2") (auto simp: fd_add_def)
      note k = poll_append_keeps [OF a]
      have "w' = w\<lparr>w_poll := p3\<lparr>main_poll_lock := False\<rparr>\<rparr>"
        using True run lock i g g2 un [of p3] a k by (simp add: fd_add_def)
      then show ?thesis using that k i2 by auto
    qed
  qed
qed

lemma lib_fd_add:
  assumes lib: "lib c n w" and run: "fd_add d ev cb rcb r w = Inr (rc, w')"
  shows "lib c n w'"
proof -
  note d = libD [OF lib]
  obtain b where cb: "callbacks (w_poll w) = Live b" using d(7) by (auto simp: tables_ok_def)
  have p: "\<not> main_poll_lock (w_poll w)" "initialized (w_poll w)" "poll_inv (w_poll w)" using lib by (simp_all add: lib_def)
  obtain p' b' where w': "w' = w\<lparr>w_poll := p'\<rparr>" and p': "\<not> main_poll_lock p'" "initialized p'" "callbacks p' = Live b'"
    by (rule fd_add_world [OF d(3) p(1,2) cb run])
  have inv: "poll_inv (w_poll w')" using fd_add_inv [OF p(3) run] by simp
  then have "\<exists>mb. main_poll p' = Live mb" by (auto simp: poll_inv_def w')
  then have "tables_ok n w'" using d(7) p' by (auto simp: tables_ok_def w')
  then show ?thesis using lib inv p' by (simp add: lib_def hooks_inv_def w')
qed

section \<open>Init\<close>

text \<open>Nothing of the library exists yet.\<close>

definition unborn :: "'u world \<Rightarrow> bool" where
  "unborn w \<longleftrightarrow> calm (w_env w) \<and> \<not> pthreads (w_env w) \<and> w_hooks w = no_hooks \<and> w_urls w = no_urls \<and>
     w_vars w = \<lparr>glob_store_map = Null, glob_store_size = 0, glob_store_map_lock = False\<rparr> \<and>
     reqs w = heap_empty \<and> ends w = heap_empty \<and> stores w = heap_empty \<and> empty_req w = 0 \<and> empty_count w = 0 \<and>
     all_count w = 0 \<and> \<not> empty_req_lock w \<and> \<not> initialized (w_poll w) \<and> \<not> main_poll_lock (w_poll w)"

lemma init_ok:
  assumes u: "unborn w" and fuel: "1 \<le> fuel c" and bs: "bstr_ok (bs c)" and fn: "handle_new_fn c \<noteq> 0"
  shows "\<exists>w'. fra_glob_init c w = Inr (0, w') \<and> lib c (live (w_env w)) w' \<and> server_poll c (w_poll w') \<and>
    reqs w' = heap_empty \<and> ends w' = heap_empty \<and> stores w' = heap_empty \<and> events w' = events w \<and> accepts w' = accepts w \<and> polls w' = polls w \<and>
    routes (urls (w_urls w')) = Map.empty \<and> w_hooks w' = hooks0 \<and> empty_count w' = 0 \<and>
    user w' = user w \<and> glob_store_size (w_vars w') = 0 \<and> (\<exists>m. glob_store_map (w_vars w') = Live m \<and> ht_map m = Map.empty)"
proof -
  let ?n = "live (w_env w)" and ?v1 = "(w_env w)\<lparr>live := live (w_env w) + 2\<rparr>"
  let ?w1 = "w\<lparr>w_poll := start_poll c (w_poll w), w_env := ?v1\<rparr>"
  have calm: "calm (w_env w)" and np: "\<not> pthreads (w_env w)" using u by (simp_all add: unborn_def)
  have poll: "fra_p_poll_init c w = Inr (0, ?w1)" using u by (intro poll_init_ok) (simp_all add: unborn_def)
  let ?v2 = "(w_env w)\<lparr>live := ?n + 4\<rparr>" and ?w2 = "w\<lparr>w_poll := start_poll c (w_poll w), w_env := (w_env w)\<lparr>live := ?n + 4\<rparr>, w_hooks := hooks0\<rparr>"
  have hooks: "init_hooks ?w1 = Inr (0, ?w2)"
    using u calm by (simp add: init_hooks_def fra_p_hook_init_def calloc_hooks_def take_block_calm unborn_def hooks0_def no_hooks_def
        FRA_GLOB_HOOK_COUNT_def FRA_HOOK_COUNT_def numeral_eq_Suc)
  have c2: "calm ?v2" using calm by simp
  obtain vm v3 where get: "fra_p_var_ht_get 400 ?v2 = (Live vm, v3)" and v3: "calm v3" "pthreads v3 = pthreads ?v2"
    using var_ht_get_calm [OF c2, of 400] by auto
  note vm = var_ht_new [OF get]
  let ?vars = "\<lparr>glob_store_map = Live vm, glob_store_size = 0, glob_store_map_lock = False\<rparr>"
  let ?w3 = "?w2\<lparr>w_vars := ?vars, w_env := v3\<rparr>"
  have vars: "init_vars ?w2 = Inr (0, ?w3)"
    using u get by (simp add: init_vars_def fra_p_var_init_def unborn_def)
  have req: "fra_p_req_init ?w3 = Inr (0, ?w3\<lparr>empty_req := 0\<rparr>)"
    using v3 by (simp add: fra_p_req_init_def w_draw_def draw_calm)
  have np3: "\<not> pthreads v3" using v3 np by simp
  obtain ht v4 where url: "fra_p_url_init no_urls v3 = (0, no_urls\<lparr>urls := Live ht\<rparr>, v4)" and v4: "calm v4"
    using np3 v3(1) by (auto simp: fra_p_url_init_def fra_p_ht_new_def take_block_calm Let_def)
  obtain ht' where ht: "no_urls\<lparr>urls := Live ht\<rparr> = no_urls\<lparr>urls := Live ht'\<rparr>" "table_ok ht'" "routes (Live ht') = Map.empty"
    "live v4 = live v3 + table_blocks ht'" "\<not> pthreads v4"
    by (rule url_init_ok [OF np3 url])
  then have ht': "ht' = ht" using arg_cong [OF ht(1), of urls] by simp
  let ?w5 = "?w3\<lparr>empty_req := 0, w_urls := no_urls\<lparr>urls := Live ht\<rparr>, w_env := v4\<rparr>"
  have urls: "init_urls (?w3\<lparr>empty_req := 0\<rparr>) = Inr (0, ?w5)"
    using u url by (simp add: init_urls_def unborn_def)
  have run: "fra_glob_init c w = Inr (0, ?w5)" by (simp only: fra_glob_init_def poll hooks vars req urls or_fail_0)
  have rh: "hook_tab heap_empty (Live (replicate (nat n) 0)) n (replicate (nat n) [])" if "0 < n" for n
    using that by (intro empty_hook_tab) simp_all
  have "hook_tabs heap_empty (hook_arr hooks0 Map.empty) (\<lambda>k. replicate (nat (hook_cnt k)) [])"
  proof -
    have "hook_tab heap_empty arr (hook_cnt k) (replicate (nat (hook_cnt k)) [])" if "hook_arr hooks0 Map.empty k = Some arr" for k arr
      using that rh [of 1] rh [of 7] by (cases "(hooks0, Map.empty :: addr \<Rightarrow> fra_end option, k)" rule: hook_arr.cases)
        (auto simp: hooks0_def FRA_GLOB_HOOK_COUNT_def FRA_HOOK_COUNT_def numeral_eq_Suc)
    then show ?thesis by (simp add: hook_tabs_def hook_addrs_def) (simp add: heap_empty_def)
  qed
  then have inv: "hooks_inv ?w5" using u by (auto simp: hooks_inv_def unborn_def hooks0_def no_hooks_def heap_empty_def)
  have brk: "brk (hookmem (w_hooks ?w5)) \<le> fuel c" using fuel by (simp add: hooks0_def no_hooks_def heap_empty_def)
  have ho: "hooks_ok c ?w5" using hooks_inv_ok [OF inv brk] ht(5) by simp
  have st: "steady c ?w5"
    unfolding steady_def
  proof (intro conjI)
    show "routes_ready (bs c) (w_urls ?w5)" using ht(2) bs by (simp add: routes_ready_def table_inv_def ht' no_urls_def)
    show "\<forall>k e. routes (urls (w_urls ?w5)) k = Some e \<longrightarrow> cells (ends ?w5) e \<noteq> None" using ht(3) by (simp add: ht')
  qed (use u v4 ho in \<open>simp_all add: unborn_def heap_empty_def\<close>, use heap_ok_empty in \<open>simp_all add: heap_empty_def\<close>)
  have "store_lists (\<lambda>_. []) (\<lambda>_. {}) (cells (ends ?w5)) (cells (stores ?w5))"
    using u by (simp add: store_lists_def unborn_def heap_empty_def)
  then have "idle c ?w5"
    using st u by (auto simp: idle_def req_pool_def store_pool_def unborn_def heap_empty_def)
  moreover have "tables_ok ?n ?w5"
    using vm ht u by (simp add: tables_ok_def ht' start_poll_def unborn_def heap_empty_def end_blocks_def)
  moreover have "poll_inv (start_poll c (w_poll w))" by (simp add: poll_inv_def start_poll_def sizeof_pollfd_def)
  moreover have "\<not> main_poll_lock (w_poll ?w5) \<and> initialized (w_poll ?w5)" by (simp add: start_poll_def)
  moreover have "ends ?w5 = heap_empty" using u by (simp add: unborn_def)
  then have "\<forall>e k. cells (ends ?w5) e = Some k \<longrightarrow> (\<exists>m. end_map k = Live m \<and> map_ok m)" by (simp add: heap_empty_def)
  ultimately have "lib c ?n ?w5"
    unfolding lib_def using inv brk ht(5) by simp
  with run show ?thesis
    using server_poll_start [OF fn, of "w_poll w"] u ht(3) vm(2) by (intro exI [of _ ?w5]) (simp add: unborn_def ht')
qed

section \<open>Deinit\<close>

lemma url_deinit_ok:
  assumes "urls g = Live ht" and "table_ok ht" and "\<not> pthreads v"
  shows "\<exists>v'. fra_p_url_deinit g v = Inr (g\<lparr>urls := Null\<rparr>, v') \<and> live v' = live v - table_blocks ht \<and> \<not> pthreads v'"
proof -
  obtain v' where f: "fra_p_ht_free (Live ht) v = Inr v'" and l: "live v' = live v - table_blocks ht"
    using ht_free_live [of ht url_blocks v] assms(2) by (auto simp: table_ok_def destroy_url_live table_blocks_def)
  have "pthreads v' = pthreads v"
    using ht_free_frame [where f = pthreads, OF _ _ f] assms(2)
    by (auto simp: table_ok_def destroy_url_def destroy_chain_pthreads)
  with assms f l show ?thesis by (simp add: fra_p_url_deinit_def)
qed

lemma var_deinit_ok:
  assumes "glob_store_map g = Live m" and "map_ok m"
  shows "\<exists>v'. fra_p_var_deinit g v = Inr (g\<lparr>glob_store_map := Freed\<rparr>, v') \<and> live v' = live v - map_blocks m"
  using ht_free_live [of m "\<lambda>_. 1" v] assms
  by (auto simp: fra_p_var_deinit_def map_ok_def fra_p_var_free_def map_blocks_def)

lemma hook_deinit_ok:
  assumes tabs: "hook_tabs (hookmem g) A X" and g: "A (Inl Glob_hooks_lock) = Some (glob_hooks g)" "A (Inl Req_hooks_lock) = Some (req_hooks g)"
  shows "\<exists>g' v'. fra_p_hook_deinit g v = Inr (g', v') \<and> live v' = live v - 2 \<and> glob_hooks g' = Freed \<and> req_hooks g' = Freed \<and>
    ((\<forall>e. A (Inr e) = None) \<longrightarrow> cells (hookmem g') = Map.empty)"
proof -
  let ?k1 = "Inl Glob_hooks_lock :: hook_key" and ?k2 = "Inl Req_hooks_lock :: hook_key"
  have t: "hook_tab (hookmem g) (glob_hooks g) (hook_cnt ?k1) (X ?k1)" "hook_tab (hookmem g) (req_hooks g) (hook_cnt ?k2) (X ?k2)"
    and dj: "hook_addrs (X ?k1) \<inter> hook_addrs (X ?k2) = {}"
    using tabs g unfolding hook_tabs_def by blast+
  from t obtain a b where a: "glob_hooks g = Live a" "int (length a) = FRA_GLOB_HOOK_COUNT" "hook_table (hookmem g) a (X ?k1)"
    and b: "req_hooks g = Live b" "int (length b) = FRA_HOOK_COUNT" "hook_table (hookmem g) b (X ?k2)"
    by (auto simp: hook_tab_def)
  obtain h1 where h1: "fra_p_hook_free (Live a) FRA_GLOB_HOOK_COUNT (hookmem g) = Inr h1" "heap_ok h1"
    "cells h1 = (\<lambda>x. if x \<in> hook_addrs (X ?k1) then None else cells (hookmem g) x)"
    using hook_free_ok [OF a(3) a(2) [symmetric]] by (auto simp: FRA_GLOB_HOOK_COUNT_def)
  have b1: "hook_table h1 b (X ?k2)" by (rule hook_table_free [OF b(3) dj h1(2,3)])
  obtain h2 where h2: "fra_p_hook_free (Live b) FRA_HOOK_COUNT h1 = Inr h2"
    "cells h2 = (\<lambda>x. if x \<in> hook_addrs (X ?k2) then None else cells h1 x)"
    using hook_free_ok [OF b1 b(2) [symmetric]] by (auto simp: FRA_HOOK_COUNT_def)
  have "cells h2 x = None" if none: "\<forall>e. A (Inr e) = None" for x
  proof (rule ccontr)
    assume "cells h2 x \<noteq> None"
    then have x: "cells (hookmem g) x \<noteq> None" "x \<notin> hook_addrs (X ?k1)" "x \<notin> hook_addrs (X ?k2)"
      by (auto simp: h1(3) h2(2) split: if_splits)
    then obtain k where k: "A k \<noteq> None" "x \<in> hook_addrs (X k)" using tabs unfolding hook_tabs_def by blast
    then obtain l where l: "k = Inl l" using none by (cases k) auto
    show False using k(2) x(2,3) unfolding l by (cases l) simp_all
  qed
  then show ?thesis using a(1) b(1) h1(1) h2(1) by (auto simp: fra_p_hook_deinit_def free_array_def fun_eq_iff)
qed

lemma deinit_ok:
  assumes lib: "closing c n w" and b: "benign c" and fuel: "empty_count w < int (fuel c)"
  shows "\<exists>w'. fra_glob_deinit c w = Inr w' \<and> live (w_env w') = n + end_blocks (cells (ends w)) \<and>
    cells (reqs w') = Map.empty \<and> empty_req w' = 0 \<and> urls (w_urls w') = Null \<and> glob_store_map (w_vars w') = Freed \<and>
    glob_hooks (w_hooks w') = Freed \<and> req_hooks (w_hooks w') = Freed \<and> main_poll (w_poll w') = Freed \<and> callbacks (w_poll w') = Freed \<and>
    initialized (w_poll w') \<and> \<not> main_poll_lock (w_poll w') \<and> fcgx_log w' = fcgx_log w \<and>
    ends w' = ends w \<and> stores w' = stores w \<and> (cells (ends w) = Map.empty \<longrightarrow> cells (hookmem (w_hooks w')) = Map.empty)"
proof -
  note d = closingD [OF lib]
  obtain ht vm mb cb where t: "urls (w_urls w) = Live ht" "table_ok ht" "glob_store_map (w_vars w) = Live vm" "map_ok vm"
    "main_poll (w_poll w) = Live mb" "callbacks (w_poll w) = Live cb"
    and bl: "live (w_env w) = n + 4 + map_blocks vm + table_blocks ht + end_blocks (cells (ends w))"
    using d(10) by (auto simp: tables_ok_def)
  obtain v1 where 1: "fra_p_url_deinit (w_urls w) (w_env w) = Inr ((w_urls w)\<lparr>urls := Null\<rparr>, v1)"
    "live v1 = live (w_env w) - table_blocks ht" "\<not> pthreads v1"
    using url_deinit_ok [OF t(1,2) d(2)] by blast
  let ?w1 = "w\<lparr>w_urls := (w_urls w)\<lparr>urls := Null\<rparr>, w_env := v1\<rparr>"
  obtain xs where xs: "chain req_next (cells (reqs w)) (empty_req w) xs" "dom (cells (reqs w)) = set xs" "int (length xs) \<le> empty_count w"
    using d(6) by (auto simp: req_pool_def)
  have len: "length xs < fuel c" using xs(3) fuel by simp
  have h1: "hooks_ok c ?w1" by (rule hooks_ok_same [OF hooks_inv_ok [OF d(8,9,2)]]) (simp_all add: 1(3))
  have p1: "heap_ok (ends ?w1)" "heap_ok (reqs ?w1)" "chain req_next (cells (reqs ?w1)) (empty_req ?w1) xs"
    using d(3,4) xs(1) by simp_all
  obtain w2 where 2: "req_deinit_loop c (fuel c) ?w1 = Inr w2" "empty_req w2 = 0"
    "cells (reqs w2) = (\<lambda>a. if a \<in> set xs then None else cells (reqs ?w1) a)"
    "fcgx_log w2 = fcgx_log ?w1" "w_env w2 = w_env ?w1" "w_vars w2 = w_vars ?w1" "w_urls w2 = w_urls ?w1" "w_hooks w2 = w_hooks ?w1"
    "w_poll w2 = w_poll ?w1" "ends w2 = ends ?w1" "stores w2 = stores ?w1"
    using req_deinit_ok [OF b h1 p1 len] by blast
  have empty: "cells (reqs w2) = Map.empty"
  proof
    show "cells (reqs w2) a = None" for a using xs(2) by (auto simp: 2(3) domIff)
  qed
  have log: "fcgx_log w2 = fcgx_log w" using 2(4) by (simp add: fcgx_log_def)
  obtain v3 where 3: "fra_p_var_deinit (w_vars w) v1 = Inr ((w_vars w)\<lparr>glob_store_map := Freed\<rparr>, v3)" "live v3 = live v1 - map_blocks vm"
    using var_deinit_ok [OF t(3,4)] by blast
  obtain X where X: "hook_tabs (hookmem (w_hooks w)) (hook_arr (w_hooks w) (cells (ends w))) X"
    using d(8) by (auto simp: hooks_inv_def)
  obtain g4 v4 where 4: "fra_p_hook_deinit (w_hooks w) v3 = Inr (g4, v4)" "live v4 = live v3 - 2" "glob_hooks g4 = Freed" "req_hooks g4 = Freed"
    "(\<forall>e. hook_arr (w_hooks w) (cells (ends w)) (Inr e) = None) \<longrightarrow> cells (hookmem g4) = Map.empty"
    using hook_deinit_ok [OF X, of v3] by auto
  let ?p = "(w_poll w)\<lparr>main_poll := Freed, callbacks := Freed\<rparr>"
  let ?w' = "w2\<lparr>w_vars := (w_vars w)\<lparr>glob_store_map := Freed\<rparr>, w_hooks := g4, w_env := drop_block (drop_block v4), w_poll := ?p\<rparr>"
  have "fra_glob_deinit c w = Inr ?w'"
    using 1(1) 2(1,5,6,8,9) 3(1) 4(1) t(5,6)
    by (simp add: fra_glob_deinit_def fra_p_req_deinit_def fra_p_poll_deinit_def blk_free_def set_poll_def)
  then show ?thesis
    using 1(2) 3(2) 4(2-5) 2(2,7,10,11) bl empty log d(12,13) by (intro exI [of _ ?w']) (simp add: fcgx_log_def)
qed

section \<open>The step relation\<close>

text \<open>
  What may happen between init and deinit: a call of the program with arguments that the
  documentation allows, an incoming request handled by the loop, or news from outside. Hooks are
  registered up to the fuel of the loops over them, variables up to a size whose sum with the
  struct does not wrap around.
\<close>

inductive api :: "'u ctx \<Rightarrow> 'u world \<Rightarrow> 'u world \<Rightarrow> bool" for c where
  handle: "hooks_create c w \<Longrightarrow> accepts w \<noteq> [] \<Longrightarrow> fra_p_req_handle_new c revs w = Inr (rc, w') \<Longrightarrow> api c w w'"
| end_new: "0 < cnt \<Longrightarrow> cnt < 2 ^ 31 \<Longrightarrow> fra_end_new cnt w = (e, w') \<Longrightarrow> api c w w'"
| url_add: "cells (ends w) e \<noteq> None \<Longrightarrow> fra_end_url_add (bs c) e verb url (w_urls w) (w_env w) = Inr (rc, g, v) \<Longrightarrow>
    api c w (w\<lparr>w_urls := g, w_env := v\<rparr>)"
| callback_set: "cells (ends w) e \<noteq> None \<Longrightarrow> fra_end_callback_set e cb w = Inr (rc, w') \<Longrightarrow> api c w w'"
| glob_hook: "0 \<le> type \<Longrightarrow> fra_glob_hook_reg type cb prio (w_hooks w) (w_env w) = Inr (rc, g, v) \<Longrightarrow>
    brk (hookmem g) \<le> fuel c \<Longrightarrow> api c w (w\<lparr>w_hooks := g, w_env := v\<rparr>)"
| req_hook: "0 \<le> type \<Longrightarrow> fra_req_hook_reg type cb prio (w_hooks w) (w_env w) = Inr (rc, g, v) \<Longrightarrow>
    brk (hookmem g) \<le> fuel c \<Longrightarrow> api c w (w\<lparr>w_hooks := g, w_env := v\<rparr>)"
| end_hook: "0 \<le> type \<Longrightarrow> cells (ends w) e \<noteq> None \<Longrightarrow> fra_end_hook_reg e type cb prio w = Inr (rc, w') \<Longrightarrow>
    brk (hookmem (w_hooks w')) \<le> fuel c \<Longrightarrow> api c w w'"
| req_var: "fra_req_var_reg (bs c) name type sz (w_vars w) (w_env w) = Inr (rc, g, v) \<Longrightarrow>
    unat (sizeof_req c) \<le> unat (sizeof_req c + glob_store_size g) \<Longrightarrow> api c w (w\<lparr>w_vars := g, w_env := v\<rparr>)"
| end_var: "cells (ends w) e \<noteq> None \<Longrightarrow> fra_end_var_reg (bs c) e name type sz w = Inr (rc, w') \<Longrightarrow>
    (\<And>k. cells (ends w') e = Some k \<Longrightarrow> unat sizeof_end_store \<le> unat (sizeof_end_store + store_size k)) \<Longrightarrow> api c w w'"
| fd_add: "fd_add d ev cb rcb r w = Inr (rc, w') \<Longrightarrow> api c w w'"
| outside: "api c w (w\<lparr>accepts := a, polls := p\<rparr>)"

lemma lib_outside: "lib c n w \<Longrightarrow> lib c n (w\<lparr>accepts := a, polls := p\<rparr>)"
proof -
  assume lib: "lib c n w"
  have "idle c (w\<lparr>accepts := a\<rparr>)" using lib by (intro idle_accepts) (simp add: lib_def)
  then have "idle c (w\<lparr>accepts := a, polls := p\<rparr>)" by simp
  with lib show ?thesis unfolding lib_def hooks_inv_def tables_ok_def by simp
qed

lemma api_lib:
  assumes "api c w w'" and b: "benign c" and jk: "\<forall>a. endpoint (junk c a) = 0" and lib: "lib c n w"
  shows "lib c n w'"
  using assms(1)
proof cases
  case (handle revs rc)
  then show ?thesis using lib_handle [OF lib b handle(1) jk handle(2), of revs] by auto
next
  case (end_new cnt e)
  then show ?thesis using lib_end_new [OF lib end_new(1,2)] by auto
next
  case (url_add e verb url rc g v)
  then show ?thesis using lib_url_add [OF lib url_add(2), of verb url] by auto
next
  case (callback_set e cb rc)
  then show ?thesis using lib_callback_set [OF lib, of e _ cb] by auto
next
  case (glob_hook type cb prio rc g v)
  then show ?thesis using lib_glob_hook [OF lib glob_hook(2), of cb prio] by auto
next
  case (req_hook type cb prio rc g v)
  then show ?thesis using lib_req_hook [OF lib req_hook(2), of cb prio] by auto
next
  case (end_hook type e cb prio rc)
  then obtain k where "cells (ends w) e = Some k" by auto
  then show ?thesis using end_hook lib_end_hook [OF lib _ end_hook(1), of e k cb prio] by auto
next
  case (req_var name type sz rc g v)
  then show ?thesis using lib_req_var [OF lib, of name type sz] by auto
next
  case (end_var e name type sz rc)
  then obtain k where "cells (ends w) e = Some k" by auto
  then show ?thesis using end_var lib_end_var [OF lib, of e k name type sz] by auto
next
  case (fd_add d ev cb rcb r rc)
  then show ?thesis by (rule lib_fd_add [OF lib])
next
  case (outside a p)
  then show ?thesis using lib_outside [OF lib] by simp
qed

lemma api_run_lib:
  assumes "(api c)\<^sup>*\<^sup>* w w'" and "benign c" and "\<forall>a. endpoint (junk c a) = 0" and "lib c n w"
  shows "lib c n w'"
  using assms(1,4) by (induction rule: rtranclp_induct) (auto intro: api_lib [OF _ assms(2,3)])

text \<open>Init again: the library remembers that it was initialised.\<close>

lemma init_twice:
  assumes "initialized (w_poll w)" and "\<not> main_poll_lock (w_poll w)"
  shows "\<exists>w'. fra_glob_init c w = Inr (- 1, w') \<and> main_poll (w_poll w') = main_poll (w_poll w) \<and> w_hooks w' = w_hooks w \<and>
    w_vars w' = w_vars w \<and> w_urls w' = w_urls w"
proof -
  obtain ok v where d: "draw (w_env w) = (ok, v)" by (cases "draw (w_env w)")
  obtain ok2 v2 where d2: "draw v = (ok2, v2)" by (cases "draw v")
  show ?thesis
  proof (cases ok)
    case True
    then show ?thesis using assms d d2
      by (auto simp: fra_glob_init_def fra_p_poll_init_def lock_poll_def pthread_mutex_lock_def fail_unlock_poll_def
          unlock_poll_def pthread_mutex_unlock_def set_poll_def or_fail_def)
  next
    case False
    then show ?thesis using assms d
      by (simp add: fra_glob_init_def fra_p_poll_init_def lock_poll_def pthread_mutex_lock_def set_poll_def or_fail_def)
  qed
qed

section \<open>Properties\<close>



text \<open>Nothing leaks over the whole life of the library. After init and any sequence of calls
  and requests, \<open>fra_glob_deinit\<close> returns, every request object is freed, and the blocks of
  strings and tables live then are those live before the init and those of the endpoints that
  the program has not freed.\<close>

theorem library_lifetime:
  assumes "fra_glob_init c w = Inr (0, w0)" and "unborn w" and "(api c)\<^sup>*\<^sup>* w0 w'" and "empty_count w' < int (fuel c)"
    and "1 \<le> fuel c" and "benign c" and "bstr_ok (bs c)" and "\<forall>a. endpoint (junk c a) = 0" and "handle_new_fn c \<noteq> 0"
  shows "\<exists>w1. fra_glob_deinit c w' = Inr w1 \<and> live (w_env w1) = live (w_env w) + end_blocks (cells (ends w')) \<and>
    cells (reqs w1) = Map.empty \<and> empty_req w1 = 0 \<and> fcgx_log w1 = fcgx_log w'"
proof -
  have "lib c (live (w_env w)) w0" using init_ok [OF assms(2,5,7,9)] assms(1) by auto
  then have "lib c (live (w_env w)) w'" by (rule api_run_lib [OF assms(3,6,8)])
  from deinit_ok [OF lib_closing [OF this] assms(6,4)] show ?thesis by blast
qed

text \<open>C38: the library cannot be initialised a second time, neither while it is in use, where the
  documentation promises the return code 1, nor after \<open>fra_glob_deinit\<close>, where it promises that
  this works: \<open>initialized\<close> is never reset, and init returns -1 with the array of descriptors
  still freed.\<close>

theorem no_second_init:
  assumes "lib c n w" and "benign c" and "empty_count w < int (fuel c)"
  shows "(\<exists>w1. fra_glob_init c w = Inr (- 1, w1)) \<and>
    (\<exists>w1 w2. fra_glob_deinit c w = Inr w1 \<and> fra_glob_init c w1 = Inr (- 1, w2) \<and> main_poll (w_poll w2) = Freed \<and>
      urls (w_urls w2) = Null)"
proof -
  have i: "initialized (w_poll w)" "\<not> main_poll_lock (w_poll w)" using assms(1) by (simp_all add: lib_def)
  obtain w1 where "fra_glob_deinit c w = Inr w1" "initialized (w_poll w1)" "\<not> main_poll_lock (w_poll w1)"
    "main_poll (w_poll w1) = Freed" "urls (w_urls w1) = Null"
    using deinit_ok [OF lib_closing [OF assms(1)] assms(2,3)] by blast
  with init_twice [OF this(2,3), of c] init_twice [OF i, of c] show ?thesis by fastforce
qed

section \<open>Witnesses\<close>

text \<open>The demo program before it initialises the library, and after it has made an endpoint with
  a callback and a route.\<close>

definition demo_start :: "nat world" where
  "demo_start = \<lparr>w_env = quiet_env, w_vars = \<lparr>glob_store_map = Null, glob_store_size = 0, glob_store_map_lock = False\<rparr>,
     w_urls = no_urls, w_hooks = no_hooks, reqs = heap_empty, ends = heap_empty, stores = heap_empty,
     empty_req = 0, empty_count = 0, all_count = 0, empty_req_lock = False,
     w_poll = \<lparr>initialized = False, main_poll = Null, main_poll_len = 0, main_poll_max_len = 0,
       callbacks = Null, main_poll_lock = False, should_stop = False\<rparr>,
     accepts = [(0, demo_env)], polls = [], events = [], user = 0\<rparr>"

lemma demo_junk: "\<forall>a. endpoint (junk demo_ctx a) = 0" and demo_bs: "bstr_ok (bs demo_ctx)" and demo_fuel: "1 \<le> fuel demo_ctx"
  and demo_fn: "handle_new_fn demo_ctx \<noteq> 0"
  by (simp_all add: demo_ctx_def)

lemma demo_unborn: "unborn demo_start"
  by (simp add: unborn_def demo_start_def) (simp add: quiet_env_def)

lemma demo_init:
  "\<exists>w0. fra_glob_init demo_ctx demo_start = Inr (0, w0) \<and> lib demo_ctx 0 w0 \<and> accepts w0 = [(0, demo_env)] \<and>
    ends w0 = heap_empty \<and> stores w0 = heap_empty \<and> w_hooks w0 = hooks0 \<and> empty_count w0 = 0"
proof -
  have "live (w_env demo_start) = 0" "accepts demo_start = [(0, demo_env)]" by (simp_all add: demo_start_def quiet_env_def)
  with init_ok [OF demo_unborn demo_fuel demo_bs demo_fn] show ?thesis by auto
qed

lemma demo_run:
  "\<exists>w0 w1 e k. fra_glob_init demo_ctx demo_start = Inr (0, w0) \<and> (api demo_ctx)\<^sup>*\<^sup>* w0 w1 \<and> lib demo_ctx 0 w1 \<and>
    accepts w1 = [(0, demo_env)] \<and> cells (ends w1) = [e \<mapsto> k] \<and> hooks k = Live [0, 0, 0, 0, 0, 0, 0] \<and> w_hooks w1 = hooks0 \<and>
    empty_count w1 = 0 \<and> stores w1 = heap_empty"
proof -
  obtain w0 where w0: "fra_glob_init demo_ctx demo_start = Inr (0, w0)" "lib demo_ctx 0 w0" "accepts w0 = [(0, demo_env)]"
    "ends w0 = heap_empty" "stores w0 = heap_empty" "w_hooks w0 = hooks0" "empty_count w0 = 0"
    using demo_init by blast
  obtain e w1 k where 1: "fra_end_new 20 w0 = (e, w1)" "hooks k = Live (replicate (nat FRA_HOOK_COUNT) 0)"
    "ends w1 = (ends w0)\<lparr>cells := (cells (ends w0))(e \<mapsto> k), brk := Suc e\<rparr>" "w_hooks w1 = w_hooks w0" "accepts w1 = accepts w0"
    "empty_count w1 = empty_count w0" "lib demo_ctx 0 w1" "stores w1 = stores w0"
    using lib_end_new [OF w0(2), of 20] by auto
  have "api demo_ctx w0 w1" by (rule api.end_new [OF _ _ 1(1)]) simp_all
  with w0 1 show ?thesis
    by (intro exI [of _ w0] exI [of _ w1] exI [of _ e] exI [of _ k]) (simp add: heap_empty_def FRA_HOOK_COUNT_def numeral_eq_Suc)
qed



theorem library_lifetime_witness:
  "\<exists>w0 w1 e k w2. fra_glob_init demo_ctx demo_start = Inr (0, w0) \<and> (api demo_ctx)\<^sup>*\<^sup>* w0 w1 \<and> cells (ends w1) = [e \<mapsto> k] \<and>
    fra_glob_deinit demo_ctx w1 = Inr w2 \<and> live (w_env w2) = live (w_env demo_start) + end_blocks (cells (ends w1))"
proof -
  obtain w0 w1 e k where w: "fra_glob_init demo_ctx demo_start = Inr (0, w0)" "(api demo_ctx)\<^sup>*\<^sup>* w0 w1" "cells (ends w1) = [e \<mapsto> k]"
    "empty_count w1 = 0"
    using demo_run by blast
  have "empty_count w1 < int (fuel demo_ctx)" using w(4) by (simp add: demo_ctx_def)
  from library_lifetime [OF w(1) demo_unborn w(2) this demo_fuel demo_benign demo_bs demo_junk demo_fn] w(1-3) show ?thesis by blast
qed

theorem no_second_init_witness:
  "\<exists>w1 w2. fra_glob_deinit demo_ctx w1 = Inr w2 \<and> (\<exists>w3. fra_glob_init demo_ctx w2 = Inr (- 1, w3))"
proof -
  obtain w where w: "lib demo_ctx 0 w" "empty_count w = 0" using demo_run by blast
  have "empty_count w < int (fuel demo_ctx)" using w(2) by (simp add: demo_ctx_def)
  with no_second_init [OF w(1) demo_benign] show ?thesis by blast
qed

end
