(* ===== verification/Access.thy ===== *)
theory Access
  imports Life
begin

text \<open>
  Reading variables through a request, \<open>var_get\<close> in \<open>src/var.c\<close> and its two public callers: the
  variables of the request itself come first, then those of its endpoint. What is returned is a
  pointer into one of the two stores.
\<close>

section \<open>Operations\<close>

text \<open>A pointer some bytes into the store of a request, or into an endpoint store.\<close>

datatype var_ptr = In_request addr u64 | In_store addr u64

text \<open>
  The type is either reported (\<open>type_ptr\<close> is given, the second component of the result) or
  compared with the one the caller wrote.
\<close>

definition typed ::
  "bstrlib \<Rightarrow> bool \<Rightarrow> string \<Rightarrow> int \<Rightarrow> var \<Rightarrow> var_ptr outcome \<Rightarrow> (var_ptr option \<times> string option) outcome" where
  "typed b want type type_len x ptr =
     (if want then bindo ptr (\<lambda>p. Inr (Some p, Some (var_type x)))
      else if type_len - 1 = int (length (var_type x)) \<and> biseqcstr b (var_type x) type = 1
      then bindo ptr (\<lambda>p. Inr (Some p, None))
      else Inr (None, None))"

definition var_get ::
  "'u ctx \<Rightarrow> addr \<Rightarrow> string \<Rightarrow> int \<Rightarrow> bool \<Rightarrow> string \<Rightarrow> int \<Rightarrow> 'u world \<Rightarrow> (var_ptr option \<times> string option) outcome" where
  "var_get c r name name_len want type type_len w =
     (let len = name_len - 1 in
      if \<not> len > 0 then Inr (None, None)
      else
        bindo (MurmurHash3_x86_32 (bytes_of name) (nat len) 55) (\<lambda>hash.
        bindo (fra_p_ht_get_by_hash (bs c) (glob_store_map (w_vars w)) name (nat len) hash) (\<lambda>l.
          case l of
            Some l \<Rightarrow>
              bindo (deref (glob_store_map (w_vars w))) (\<lambda>ht.
                let x = ht_value ht l in
                typed (bs c) want type type_len x
                  (bindo (hget r (reqs w)) (\<lambda>q. Inr (In_request r (position x)))))
          | None \<Rightarrow>
              bindo (hget r (reqs w)) (\<lambda>q.
                if endpoint q = 0 \<or> endpoint_store q = 0 then Inr (None, None)
                else
                  bindo (hget (endpoint_store q) (stores w)) (\<lambda>s.
                  bindo (hget (endpoint q) (ends w)) (\<lambda>e.
                  bindo (fra_p_ht_get_by_hash (bs c) (end_map e) name (nat len) hash) (\<lambda>l.
                    case l of
                      None \<Rightarrow> Inr (None, None)
                    | Some l \<Rightarrow>
                        bindo (deref (end_map e)) (\<lambda>ht.
                          let x = ht_value ht l in
                          typed (bs c) want type type_len x (Inr (In_store (endpoint_store q) (position x)))))))))))"

definition fra_var_get :: "'u ctx \<Rightarrow> addr \<Rightarrow> string \<Rightarrow> int \<Rightarrow> string \<Rightarrow> int \<Rightarrow> 'u world \<Rightarrow> var_ptr option outcome" where
  "fra_var_get c r name name_len type type_len w =
     bindo (var_get c r name name_len False type type_len w) (\<lambda>(p, t). Inr p)"

text \<open>\<open>has_ptr\<close> says whether the caller gave a \<open>type_ptr\<close>; the length of the type is reported with it.\<close>

definition fra_var_get_with_type ::
  "'u ctx \<Rightarrow> addr \<Rightarrow> string \<Rightarrow> int \<Rightarrow> bool \<Rightarrow> 'u world \<Rightarrow> (var_ptr option \<times> string option) outcome" where
  "fra_var_get_with_type c r name name_len has_ptr w =
     (if \<not> has_ptr then Inr (None, None) else var_get c r name name_len True '''' 0 w)"

section \<open>What is found\<close>

definition map_of_ptr :: "store_map \<Rightarrow> string \<Rightarrow> var option" where
  "map_of_ptr m key = (case m of Live ht \<Rightarrow> ht_map ht key | _ \<Rightarrow> None)"

definition find_var :: "addr \<Rightarrow> fra_req \<Rightarrow> string \<Rightarrow> 'u world \<Rightarrow> (var_ptr \<times> var) option" where
  "find_var r q key w =
     (case map_of_ptr (glob_store_map (w_vars w)) key of
        Some x \<Rightarrow> Some (In_request r (position x), x)
      | None \<Rightarrow>
          if endpoint q = 0 \<or> endpoint_store q = 0 then None
          else case cells (ends w) (endpoint q) of None \<Rightarrow> None
            | Some e \<Rightarrow> map_option (\<lambda>x. (In_store (endpoint_store q) (position x), x)) (map_of_ptr (end_map e) key))"

text \<open>Everything the lookup of a request follows is alive.\<close>

definition readable :: "'u ctx \<Rightarrow> addr \<Rightarrow> fra_req \<Rightarrow> 'u world \<Rightarrow> bool" where
  "readable c r q w \<longleftrightarrow> bstr_ok (bs c) \<and> r \<noteq> 0 \<and> cells (reqs w) r = Some q \<and> (\<exists>m. glob_store_map (w_vars w) = Live m \<and> map_ok m) \<and>
     (endpoint q \<noteq> 0 \<longrightarrow> endpoint_store q \<noteq> 0 \<longrightarrow> cells (stores w) (endpoint_store q) \<noteq> None \<and>
        (\<exists>e m. cells (ends w) (endpoint q) = Some e \<and> end_map e = Live m \<and> map_ok m))"

lemma get_by_hash:
  assumes "bstr_ok b" and "map_ok m" and "n \<le> length name"
  obtains l where "fra_p_ht_get_by_hash b (Live m) name n (murmur32_spec (bytes_of (take n name)) 55) = Inr l"
    and "map_option (ht_value m) l = map_of_ptr (Live m) (take n name)"
  using ht_get_by_hash_ok [OF assms(1), of m name n] assms(2) points_at_value
  by (fastforce simp: map_ok_def map_of_ptr_def)

lemma var_get_ok:
  assumes rd: "readable c r q w" and len: "0 < n" "n \<le> length name"
  shows "var_get c r name (int n + 1) want type type_len w =
    (case find_var r q (take n name) w of None \<Rightarrow> Inr (None, None)
     | Some (p, x) \<Rightarrow> typed (bs c) want type type_len x (Inr p))"
proof -
  from rd have b: "bstr_ok (bs c)" and q: "cells (reqs w) r = Some q" "r \<noteq> 0" by (simp_all add: readable_def)
  obtain m where m: "glob_store_map (w_vars w) = Live m" "map_ok m" using rd by (auto simp: readable_def)
  have hq: "hget r (reqs w) = Inr q" using q by (simp add: hget_def)
  let ?k = "take n name" and ?h = "murmur32_spec (bytes_of (take n name)) 55"
  have hash: "MurmurHash3_x86_32 (bytes_of name) n 55 = Inr ?h" using len by (simp add: hash32_in bytes_of_take)
  obtain l where l: "fra_p_ht_get_by_hash (bs c) (Live m) name n ?h = Inr l" "map_option (ht_value m) l = map_of_ptr (Live m) ?k"
    by (rule get_by_hash [OF b m(2) len(2)])
  show ?thesis
  proof (cases l)
    case (Some i)
    then have "map_of_ptr (Live m) ?k = Some (ht_value m i)" using l(2) by simp
    then show ?thesis using len l(1) Some by (simp add: var_get_def hash m find_var_def hq Let_def)
  next
    case None
    then have none: "map_of_ptr (Live m) ?k = None" using l(2) by simp
    show ?thesis
    proof (cases "endpoint q = 0 \<or> endpoint_store q = 0")
      case True
      then show ?thesis using len l(1) None none by (simp add: var_get_def hash m find_var_def hq Let_def)
    next
      case False
      then obtain e em s where e: "cells (ends w) (endpoint q) = Some e" "end_map e = Live em" "map_ok em"
        and s: "cells (stores w) (endpoint_store q) = Some s"
        using rd by (auto simp: readable_def)
      obtain l' where l': "fra_p_ht_get_by_hash (bs c) (Live em) name n ?h = Inr l'" "map_option (ht_value em) l' = map_of_ptr (Live em) ?k"
        by (rule get_by_hash [OF b e(3) len(2)])
      have he: "hget (endpoint q) (ends w) = Inr e" "hget (endpoint_store q) (stores w) = Inr s"
        using e(1) s False by (simp_all add: hget_def)
      have get: "var_get c r name (int n + 1) want type type_len w =
          (case l' of None \<Rightarrow> Inr (None, None)
           | Some i \<Rightarrow> typed (bs c) want type type_len (ht_value em i) (Inr (In_store (endpoint_store q) (position (ht_value em i)))))"
        using len False by (simp add: var_get_def hash m l(1) None hq he e(2) l'(1) Let_def cong: option.case_cong)
      have find: "find_var r q ?k w = map_option (\<lambda>x. (In_store (endpoint_store q) (position x), x)) (map_of_ptr (Live em) ?k)"
        using False by (simp add: find_var_def m(1) none e(1,2))
      show ?thesis unfolding get find l'(2) [symmetric] by (cases l') simp_all
    qed
  qed
qed


lemma fra_var_get_ok:
  assumes "readable c r q w" and "0 < n" and "n \<le> length name"
  shows "fra_var_get c r name (int n + 1) type type_len w =
    Inr (case find_var r q (take n name) w of None \<Rightarrow> None
      | Some (p, x) \<Rightarrow> if type_len - 1 = int (length (var_type x)) \<and> var_type x = type then Some p else None)"
  using assms(1) by (auto simp: fra_var_get_def var_get_ok [OF assms] typed_def readable_def split: option.splits)

lemma fra_var_get_with_type_ok:
  assumes "readable c r q w" and "0 < n" and "n \<le> length name"
  shows "fra_var_get_with_type c r name (int n + 1) True w =
    Inr (case find_var r q (take n name) w of None \<Rightarrow> (None, None) | Some (p, x) \<Rightarrow> (Some p, Some (var_type x)))"
  by (auto simp: fra_var_get_with_type_def var_get_ok [OF assms] typed_def split: option.splits)

text \<open>The position of a registered variable: that of the first accepted registration of its name.\<close>

lemma layout_map_of:
  "map_of acc name = Some (ty, sz) \<Longrightarrow> unat p + sizes acc \<le> unat SIZE_MAX \<Longrightarrow>
   \<exists>x. map_of (layout p acc) name = Some x \<and> var_type x = ty \<and> unat p \<le> unat (position x) \<and>
     unat (position x) + unat sz \<le> unat p + sizes acc"
proof (induction p acc rule: layout.induct)
  case (2 p n t s rs)
  have "unat (p + s) = unat p + unat s"
    using "2.prems"(2) by (simp add: unat_add_lem [THEN iffD1] unat_SIZE_MAX)
  with 2 show ?case by (cases "n = name") force+
qed simp

section \<open>Properties\<close>

text \<open>C28: looking a variable up with the length that \<open>sizeof\<close> gives for its name finds the
  variable of the request store with this name, and only when there is none the one of the
  endpoint's store; the pointer is returned exactly when the type written by the caller is the
  registered one.\<close>

theorem var_get_finds:
  assumes "readable c r q w" and "0 < n" and "n \<le> length name"
  shows "fra_var_get c r name (int n + 1) type type_len w =
      Inr (case find_var r q (take n name) w of None \<Rightarrow> None
        | Some (p, x) \<Rightarrow> if type_len - 1 = int (length (var_type x)) \<and> var_type x = type then Some p else None) \<and>
    fra_var_get_with_type c r name (int n + 1) True w =
      Inr (case find_var r q (take n name) w of None \<Rightarrow> (None, None) | Some (p, x) \<Rightarrow> (Some p, Some (var_type x)))"
  by (rule conjI [OF fra_var_get_ok [OF assms] fra_var_get_with_type_ok [OF assms]])

text \<open>C27: a variable that was registered for all requests before a request object was created is
  read back through it: with its type \<open>fra_var_get\<close> gives a pointer whose bytes lie within the
  block of the request, with any other type it gives none, and \<open>fra_var_get_with_type\<close> reports the
  type.\<close>

theorem registered_variable_usable:
  assumes rd: "readable c r q w" and new: "fra_p_var_ht_get n v = (Live ht, v0)" and n: "0 < n" "n < 2 ^ 31"
    and run: "register_all (reg_entry (bs c)) (Live ht, 0) kas v0 = Inr (rcs, (hp, s1), v1)"
    and reg: "map_of (accepted (\<lambda>a. a) rcs kas) name = Some (ty, sz)" and name: "name \<noteq> []"
    and glob: "glob_store_map (w_vars w) = hp" and room: "unat s1 \<le> req_store q"
  shows "\<exists>pos. unat pos + unat sz \<le> req_store q \<and>
    fra_var_get c r name (int (length name) + 1) ty (int (length ty) + 1) w = Inr (Some (In_request r pos)) \<and>
    fra_var_get_with_type c r name (int (length name) + 1) True w = Inr (Some (In_request r pos), Some ty) \<and>
    (\<forall>ty'. ty' \<noteq> ty \<longrightarrow> fra_var_get c r name (int (length name) + 1) ty' (int (length ty') + 1) w = Inr None)"
proof -
  note ht0 = var_ht_new [OF new n]
  have b: "bstr_ok (bs c)" using rd by (simp add: readable_def)
  let ?acc = "accepted (\<lambda>a. a) rcs kas"
  obtain ht' where ht': "hp = Live ht'" "map_ok ht'" "ht_map ht' = map_of (layout 0 ?acc)" "unat s1 = sizes ?acc"
    using register_all_layout [OF b ht0(1) run] ht0(2) by auto
  have "unat s1 \<le> unat SIZE_MAX"
    using word_order.extremum [of s1] by (simp add: SIZE_MAX_def word_le_nat_alt)
  then obtain x where x: "map_of (layout 0 ?acc) name = Some x" "var_type x = ty" "unat (position x) + unat sz \<le> unat s1"
    using layout_map_of [OF reg, of 0] ht'(4) by auto
  have find: "find_var r q name w = Some (In_request r (position x), x)"
    using x(1) by (simp add: find_var_def glob ht'(1,3) map_of_ptr_def)
  have len: "0 < length name" using name by simp
  show ?thesis
    using fra_var_get_ok [OF rd len order_refl] fra_var_get_with_type_ok [OF rd len order_refl] x(2,3) room find
    by (intro exI [of _ "position x"]) simp
qed

text \<open>C34: registering a new variable for all requests is accepted at any time, but a request object
  that exists already keeps its smaller block: through it the new variable is found, at a place
  that lies completely behind the block.\<close>

theorem late_variable_out_of_bounds:
  assumes rd: "readable c r q w" and v: "calm (w_env w)" and free: "\<not> glob_store_map_lock (w_vars w)"
    and room: "glob_store_size (w_vars w) < SIZE_MAX - sz" and name: "name \<noteq> []"
    and fresh: "map_of_ptr (glob_store_map (w_vars w)) name = None"
    and old: "req_store q = unat (glob_store_size (w_vars w))"
  shows "\<exists>g v' pos. fra_req_var_reg (bs c) name ty sz (w_vars w) (w_env w) = Inr (0, g, v') \<and>
    fra_var_get c r name (int (length name) + 1) ty (int (length ty) + 1) (w\<lparr>w_vars := g, w_env := v'\<rparr>) =
      Inr (Some (In_request r pos)) \<and> req_store q \<le> unat pos"
proof -
  obtain m where m: "glob_store_map (w_vars w) = Live m" "map_ok m" using rd by (auto simp: readable_def)
  have b: "bstr_ok (bs c)" and q: "r \<noteq> 0" "cells (reqs w) r = Some q" using rd by (auto simp: readable_def)
  obtain m' v' where r: "reg (bs c) (Live m) (glob_store_size (w_vars w)) name ty sz (w_env w) =
      Inr (0, Live m', glob_store_size (w_vars w) + sz, v')" and "calm v'" "map_ok m'"
    and p: "reg_post m (glob_store_size (w_vars w)) name ty sz (w_env w) 0 m' (glob_store_size (w_vars w) + sz) v'"
    using reg_calm [OF b m(2) v room, of name ty] by (auto simp: reg_post_def)
  let ?g = "w_vars w\<lparr>glob_store_map := Live m', glob_store_size := glob_store_size (w_vars w) + sz\<rparr>"
  have run: "fra_req_var_reg (bs c) name ty sz (w_vars w) (w_env w) = Inr (0, ?g, v')"
    using r v \<open>calm v'\<close> free m(1)
    by (simp add: fra_req_var_reg_def pthread_mutex_lock_def pthread_mutex_unlock_def draw_calm)
  have look: "ht_map m' name = Some \<lparr>var_type = ty, position = glob_store_size (w_vars w)\<rparr>"
    using p fresh m(1) by (simp add: reg_post_def first_wins_def map_of_ptr_def)
  let ?w = "w\<lparr>w_vars := ?g, w_env := v'\<rparr>"
  have rd': "readable c r q ?w" using rd \<open>map_ok m'\<close> by (simp add: readable_def)
  have find: "find_var r q name ?w = Some (In_request r (glob_store_size (w_vars w)), \<lparr>var_type = ty, position = glob_store_size (w_vars w)\<rparr>)"
    by (simp add: find_var_def map_of_ptr_def look)
  have len: "0 < length name" using name by simp
  show ?thesis
    using fra_var_get_ok [OF rd' len order_refl, of ty "int (length ty) + 1"] find run old
    by (intro exI [of _ ?g] exI [of _ v'] exI [of _ "glob_store_size (w_vars w)"]) simp
qed

text \<open>With the length of the name itself, which is what \<open>fra_var_get_with_type\<close> documents for
  \<open>name_len\<close> (and \<open>fra_ds\<close> for its string), the lookup drops the last character of the name and
  gives the variable with the shorter name.\<close>

theorem dynamic_name_truncated:
  assumes "readable c r q w" and "1 < length name"
  shows "fra_var_get_with_type c r name (int (length name)) True w =
    Inr (case find_var r q (butlast name) w of None \<Rightarrow> (None, None) | Some (p, x) \<Rightarrow> (Some p, Some (var_type x)))"
proof -
  have "int (length name) = int (length name - 1) + 1" using assms(2) by simp
  then show ?thesis
    using fra_var_get_with_type_ok [OF assms(1), of "length name - 1" name] assms(2) by (simp only: butlast_conv_take)
qed

section \<open>Witnesses\<close>

text \<open>A request with \<open>n\<close> bytes for its variables.\<close>

definition var_req :: "nat \<Rightarrow> fra_req" where
  "var_req n = (junk demo_ctx 1)\<lparr>req_store := n\<rparr>"

definition var_world :: "store_map \<Rightarrow> u64 \<Rightarrow> nat world" where
  "var_world m s = (demo_world no_urls)\<lparr>w_env := quiet_env, w_vars := \<lparr>glob_store_map = m, glob_store_size = s, glob_store_map_lock = False\<rparr>,
     reqs := \<lparr>cells = [1 \<mapsto> var_req (unat s)], brk = 2\<rparr>\<rparr>"

lemma var_world_simps [simp]:
  "glob_store_map (w_vars (var_world m s)) = m" "glob_store_size (w_vars (var_world m s)) = s"
  "cells (reqs (var_world m s)) = [1 \<mapsto> var_req (unat s)]" "w_env (var_world m s) = quiet_env"
  "\<not> glob_store_map_lock (w_vars (var_world m s))" "req_store (var_req n) = n"
  by (simp_all add: var_world_def var_req_def)

lemma var_world_readable: "map_ok ht \<Longrightarrow> readable demo_ctx 1 (var_req (unat s)) (var_world (Live ht) s)"
  using demo_bs demo_junk by (simp add: readable_def) (simp add: var_req_def)

lemma demo_bs_plain [simp]: "bs demo_ctx = plain_bstr"
  by (simp add: demo_ctx_def)

lemma demo_register:
  obtains ht s1 v1 where "register_all (reg_entry (bs demo_ctx)) (Live new_map, 0) (take 2 demo_vars) (quiet_env\<lparr>live := 2\<rparr>) =
      Inr ([0, 0], (Live ht, s1), v1)"
    and "map_ok ht" and "ht_map ht = map_of (layout 0 (take 2 demo_vars))"
proof -
  note new = var_ht_new [OF new_map]
  obtain rcs ht s1 v1 where run: "register_all (reg_entry (bs demo_ctx)) (Live new_map, 0) (take 2 demo_vars) (quiet_env\<lparr>live := 2\<rparr>) =
      Inr ([0, 0], (Live ht, s1), v1)" and "map_ok ht"
    using two_vars_run by auto
  moreover from register_all_layout [OF demo_bs new(1) run] new(2)
  have "ht_map ht = map_of (layout 0 (take 2 demo_vars))" by (simp add: demo_vars_def)
  ultimately show thesis by (rule that)
qed

theorem registered_variable_usable_witness:
  "\<exists>w r n pos. unat pos + 4 \<le> n \<and> fra_var_get demo_ctx r ''n'' 2 ''int'' 4 w = Inr (Some (In_request r pos)) \<and>
     fra_var_get demo_ctx r ''n'' 2 ''long'' 5 w = Inr None"
proof -
  obtain ht s1 v1 where run: "register_all (reg_entry (bs demo_ctx)) (Live new_map, 0) (take 2 demo_vars) (quiet_env\<lparr>live := 2\<rparr>) =
     Inr ([0, 0], (Live ht, s1), v1)" and "map_ok ht"
    by (rule demo_register)
  have acc: "map_of (accepted (\<lambda>a. a) [0, 0] (take 2 demo_vars)) ''n'' = Some (''int'', 4)" by (simp add: demo_vars_def)
  from registered_variable_usable [OF var_world_readable [OF \<open>map_ok ht\<close>] new_map _ _ run acc, of s1]
  obtain pos where "unat pos + unat (4 :: u64) \<le> unat s1"
    "fra_var_get demo_ctx 1 ''n'' 2 ''int'' 4 (var_world (Live ht) s1) = Inr (Some (In_request 1 pos))"
    "\<forall>ty'. ty' \<noteq> ''int'' \<longrightarrow> fra_var_get demo_ctx 1 ''n'' 2 ty' (int (length ty') + 1) (var_world (Live ht) s1) = Inr None"
    by auto
  moreover from this(3) [rule_format, of "''long''"]
  have "fra_var_get demo_ctx 1 ''n'' 2 ''long'' 5 (var_world (Live ht) s1) = Inr None" by simp
  ultimately show ?thesis
    by (intro exI [of _ "var_world (Live ht) s1"] exI [of _ 1] exI [of _ "unat s1"] exI [of _ pos]) simp
qed

theorem var_get_finds_witness:
  "\<exists>ht s1. fra_var_get_with_type demo_ctx 1 ''c'' 2 True (var_world (Live ht) s1) \<noteq> Inr (None, None) \<and>
     fra_var_get demo_ctx 1 ''x'' 2 ''char'' 5 (var_world (Live ht) s1) = Inr None"
proof -
  obtain ht s1 v1 where run: "register_all (reg_entry (bs demo_ctx)) (Live new_map, 0) (take 2 demo_vars) (quiet_env\<lparr>live := 2\<rparr>) =
     Inr ([0, 0], (Live ht, s1), v1)" and ok: "map_ok ht" and ht: "ht_map ht = map_of (layout 0 (take 2 demo_vars))"
    by (rule demo_register)
  note rd = var_world_readable [OF ok, of s1]
  have "\<exists>p x. find_var 1 (var_req (unat s1)) ''c'' (var_world (Live ht) s1) = Some (p, x)"
    "find_var 1 (var_req (unat s1)) ''x'' (var_world (Live ht) s1) = None"
    by (simp_all add: find_var_def map_of_ptr_def ht demo_vars_def) (simp add: var_req_def demo_ctx_def)
  with var_get_finds [OF rd, of 1 "''c''"] var_get_finds [OF rd, of 1 "''x''" "''char''" 5] show ?thesis
    by (intro exI [of _ ht] exI [of _ s1]) auto
qed

theorem late_variable_out_of_bounds_witness:
  "\<exists>g v' pos. fra_req_var_reg (bs demo_ctx) ''n'' ''int'' 4 (w_vars (var_world (Live new_map) 16)) quiet_env = Inr (0, g, v') \<and>
    fra_var_get demo_ctx 1 ''n'' 2 ''int'' 4 ((var_world (Live new_map) 16)\<lparr>w_vars := g, w_env := v'\<rparr>) = Inr (Some (In_request 1 pos)) \<and>
    16 \<le> unat pos"
proof -
  note new = var_ht_new [OF new_map]
  from late_variable_out_of_bounds [OF var_world_readable [OF new(1)], of 16 4 "''n''" "''int''"] new(2) show ?thesis
    by (simp add: map_of_ptr_def room unat_SIZE_MAX)
qed

text \<open>Asked for \<open>cx\<close> with its length 2, the lookup answers with the variable \<open>c\<close>.\<close>

theorem dynamic_name_truncated_witness:
  "\<exists>ht s1 p. fra_var_get_with_type demo_ctx 1 ''cx'' 2 True (var_world (Live ht) s1) = Inr (Some p, Some ''char'')"
proof -
  obtain ht s1 v1 where run: "register_all (reg_entry (bs demo_ctx)) (Live new_map, 0) (take 2 demo_vars) (quiet_env\<lparr>live := 2\<rparr>) =
     Inr ([0, 0], (Live ht, s1), v1)" and ok: "map_ok ht" and ht: "ht_map ht = map_of (layout 0 (take 2 demo_vars))"
    by (rule demo_register)
  from dynamic_name_truncated [OF var_world_readable [OF ok, of s1], of "''cx''"] show ?thesis
    by (intro exI [of _ ht] exI [of _ s1]) (simp add: find_var_def map_of_ptr_def ht demo_vars_def)
qed

end
