(* ===== verification/Plugins.thy ===== *)
theory Plugins
  imports Typed_Heap
begin

text \<open>
  The list of plugins of \<open>src/pl.c\<close>: shared libraries that the configuration enables, each with
  the name and the arguments of the function that starts it.
\<close>

section \<open>State\<close>

text \<open>
  \<open>struct fra_p_pl\<close>: \<open>pl_name\<close> is the contents of the bstring, \<open>None\<close> for \<open>NULL\<close>; the entries
  of \<open>argv\<close> are strings of their own, again with \<open>None\<close> for \<open>NULL\<close>; \<open>pl_h\<close> is the handle that
  \<open>dlopen\<close> gave, 0 for \<open>NULL\<close>.
\<close>

record plugin =
  pl_next :: addr
  pl_name :: "string option"
  argv :: "string option list ptr"
  argc :: int
  pl_h :: nat

datatype pl_event = Dlopen "string option" nat | Dlclose nat int | Pl_main fnptr "string option list" int

text \<open>
  The dynamic loader: the functions of \<open>dlfcn.h\<close> and what the start function at an address does.
  \<open>'u\<close> is the state outside of this file, loaded code included; the list itself is not visible
  to plugins, and they are taken to leave their \<open>argv\<close> as it is.
\<close>

record 'u loader =
  dl_open :: "string option \<Rightarrow> 'u \<Rightarrow> nat \<times> 'u"
  dl_sym :: "nat \<Rightarrow> string \<Rightarrow> 'u \<Rightarrow> fnptr \<times> 'u"
  dl_close :: "nat \<Rightarrow> 'u \<Rightarrow> int \<times> 'u"
  dl_main :: "fnptr \<Rightarrow> int \<Rightarrow> string option list \<Rightarrow> 'u \<Rightarrow> (int \<times> 'u) outcome"

record 'u plugins =
  pls :: "plugin heap"
  g_first :: addr
  g_last :: addr
  pl_env :: env
  pl_events :: "pl_event list"
  outside :: 'u

type_synonym 'u pl_op = "'u plugins \<Rightarrow> (int \<times> 'u plugins) outcome"

definition pl_say :: "pl_event \<Rightarrow> 'u plugins \<Rightarrow> 'u plugins" where
  "pl_say e w = w\<lparr>pl_events := pl_events w @ [e]\<rparr>"

definition upd_pl :: "addr \<Rightarrow> (plugin \<Rightarrow> plugin) \<Rightarrow> 'u plugins \<Rightarrow> 'u plugins outcome" where
  "upd_pl p f w = bindo (hupd p f (pls w)) (\<lambda>h. Inr (w\<lparr>pls := h\<rparr>))"

section \<open>Operations\<close>

text \<open>\<open>free\<close> of a pointer that may be \<open>NULL\<close>.\<close>

definition free_ptr :: "'a ptr \<Rightarrow> env \<Rightarrow> env outcome" where
  "free_ptr p v = (case p of Null \<Rightarrow> Inr v | Live _ \<Rightarrow> Inr (drop_block v) | Freed \<Rightarrow> Inl (Undef Use_after_free))"

definition free_opt :: "'a option \<Rightarrow> env \<Rightarrow> env" where
  "free_opt s v = (case s of None \<Rightarrow> v | Some _ \<Rightarrow> drop_block v)"

definition free_args :: "int \<Rightarrow> string option list ptr \<Rightarrow> env \<Rightarrow> env outcome" where
  "free_args n a v =
     (if n \<le> 0 then Inr v
      else bindo (deref a) (\<lambda>xs.
        if length xs < nat n then Inl (Undef Out_of_bounds)
        else Inr (fold free_opt (take (nat n) xs) v)))"

definition fra_p_pl_free :: "addr \<Rightarrow> 'u plugins \<Rightarrow> 'u plugins outcome" where
  "fra_p_pl_free pl w =
     bindo (hget pl (pls w)) (\<lambda>p.
     bindo (free_args (argc p) (argv p) (free_opt (pl_name p) (pl_env w))) (\<lambda>v.
     bindo (free_ptr (argv p) v) (\<lambda>v.
     bindo (hfree pl (pls w)) (\<lambda>h. Inr (w\<lparr>pls := h, pl_env := v\<rparr>)))))"

fun reset_loop :: "nat \<Rightarrow> 'u plugins \<Rightarrow> 'u plugins outcome" where
  "reset_loop 0 w = Inl Out_of_fuel"
| "reset_loop (Suc n) w =
     (if g_first w = 0 then Inr w
      else
        let cur = g_first w in
        bindo (hget cur (pls w)) (\<lambda>p.
        bindo (fra_p_pl_free cur (w\<lparr>g_first := pl_next p\<rparr>)) (reset_loop n)))"

definition fra_p_pl_reset :: "'u plugins \<Rightarrow> 'u plugins outcome" where
  "fra_p_pl_reset w = reset_loop (brk (pls w)) w"

definition fra_p_pl_add :: "addr \<Rightarrow> 'u plugins \<Rightarrow> 'u plugins outcome" where
  "fra_p_pl_add pl w =
     bindo (upd_pl pl (pl_next_update (\<lambda>_. 0)) w) (\<lambda>w.
     bindo (if g_first w \<noteq> 0 then upd_pl (g_last w) (pl_next_update (\<lambda>_. pl)) w
            else Inr (w\<lparr>g_first := pl\<rparr>)) (\<lambda>w.
       Inr (w\<lparr>g_last := pl\<rparr>)))"

text \<open>The calls of \<open>dlfcn.h\<close>.\<close>

definition dlopen :: "'u loader \<Rightarrow> string option \<Rightarrow> 'u plugins \<Rightarrow> nat \<times> 'u plugins" where
  "dlopen L name w = (let (h, u) = dl_open L name (outside w) in (h, pl_say (Dlopen name h) (w\<lparr>outside := u\<rparr>)))"

definition dlclose :: "'u loader \<Rightarrow> nat \<Rightarrow> 'u plugins \<Rightarrow> int \<times> 'u plugins" where
  "dlclose L h w = (let (rc, u) = dl_close L h (outside w) in (rc, pl_say (Dlclose h rc) (w\<lparr>outside := u\<rparr>)))"

definition h_cleanup :: "'u loader \<Rightarrow> addr \<Rightarrow> 'u pl_op" where
  "h_cleanup L c w =
     bindo (hget c (pls w)) (\<lambda>p.
       let (rc, w) = dlclose L (pl_h p) w in
       if rc \<noteq> 0 then Inr (- 1, w)
       else bindo (upd_pl c (pl_h_update (\<lambda>_. 0)) w) (\<lambda>w. Inr (- 1, w)))"

text \<open>\<open>c->argv[0]\<close>, which \<open>dlsym\<close> reads as a C string.\<close>

definition argv0 :: "plugin \<Rightarrow> string outcome" where
  "argv0 p = bindo (deref (argv p)) (\<lambda>xs. case xs of [] \<Rightarrow> Inl (Undef Out_of_bounds)
     | None # _ \<Rightarrow> Inl (Undef Null_deref) | Some s # _ \<Rightarrow> Inr s)"

text \<open>\<open>s( c->argc, c->argv )\<close>.\<close>

definition call_main :: "'u loader \<Rightarrow> fnptr \<Rightarrow> plugin \<Rightarrow> 'u pl_op" where
  "call_main L s p w =
     bindo (deref (argv p)) (\<lambda>xs.
     bindo (dl_main L s (argc p) xs (outside w)) (\<lambda>(rc, u). Inr (rc, pl_say (Pl_main s xs rc) (w\<lparr>outside := u\<rparr>))))"

text \<open>The body of the loop of \<open>fra_p_pl_load\<close>; another result than 0 ends the function.\<close>

definition load_one :: "'u loader \<Rightarrow> addr \<Rightarrow> 'u pl_op" where
  "load_one L c w =
     bindo (hget c (pls w)) (\<lambda>p.
       let (h, w) = dlopen L (pl_name p) w in
       bindo (upd_pl c (pl_h_update (\<lambda>_. h)) w) (\<lambda>w.
         if h = 0 then Inr (- 1, w)
         else if \<not> argc p > 0 then h_cleanup L c w
         else
           bindo (argv0 p) (\<lambda>name.
             let (s, u) = dl_sym L h name (outside w); w = w\<lparr>outside := u\<rparr> in
             if s = 0 then h_cleanup L c w
             else bindo (call_main L s p w) (\<lambda>(rc, w). if rc \<noteq> 0 then h_cleanup L c w else Inr (0, w)))))"

fun load_loop :: "'u loader \<Rightarrow> nat \<Rightarrow> addr \<Rightarrow> 'u pl_op" where
  "load_loop L 0 c w = Inl Out_of_fuel"
| "load_loop L (Suc n) c w =
     (if c = 0 then Inr (0, w)
      else
        bindo (load_one L c w) (\<lambda>(rc, w).
          if rc \<noteq> 0 then Inr (- 1, w)
          else bindo (hget c (pls w)) (\<lambda>p. load_loop L n (pl_next p) w)))"

definition fra_p_pl_load :: "'u loader \<Rightarrow> 'u pl_op" where
  "fra_p_pl_load L w = load_loop L (brk (pls w)) (g_first w) w"

fun unload_loop :: "'u loader \<Rightarrow> nat \<Rightarrow> addr \<Rightarrow> int \<Rightarrow> 'u pl_op" where
  "unload_loop L 0 c rc_c w = Inl Out_of_fuel"
| "unload_loop L (Suc n) c rc_c w =
     (if c = 0 then Inr (rc_c, w)
      else
        bindo (hget c (pls w)) (\<lambda>p.
          let (rc, w) = dlclose L (pl_h p) w in
          unload_loop L n (pl_next p) (if rc \<noteq> 0 then rc_c + 1 else rc_c) w))"

definition fra_p_pl_unload :: "'u loader \<Rightarrow> 'u pl_op" where
  "fra_p_pl_unload L w =
     bindo (unload_loop L (brk (pls w)) (g_first w) 0 w) (\<lambda>(rc_c, w). Inr (if rc_c = 0 then 0 else - 1, w))"

section \<open>The list of plugins\<close>

interpretation pl_list: linked pl_next "\<lambda>q p. p\<lparr>pl_next := q\<rparr>" "\<lambda>p. (pl_name p, argv p, argc p, pl_h p)"
  by unfold_locales simp_all

text \<open>A plugin is described by its name and the arguments of its start function.\<close>

type_synonym pl_desc = "string \<times> string list"

fun describes :: "pl_desc \<Rightarrow> plugin \<Rightarrow> bool" where
  "describes (name, args) p \<longleftrightarrow> pl_name p = Some name \<and> argc p = int (length args) \<and>
     argv p = (if args = [] then Null else Live (map Some args))"

text \<open>Blocks of strings and arrays that a plugin owns.\<close>

fun desc_blocks :: "pl_desc \<Rightarrow> int" where
  "desc_blocks (name, args) = 1 + (if args = [] then 0 else 1 + int (length args))"

text \<open>The list holds the objects at \<open>xs\<close>, which have the contents \<open>ds\<close>.\<close>

definition pl_inv :: "'u plugins \<Rightarrow> addr list \<Rightarrow> pl_desc list \<Rightarrow> bool" where
  "pl_inv w xs ds \<longleftrightarrow> heap_ok (pls w) \<and> chain pl_next (cells (pls w)) (g_first w) xs \<and> (xs \<noteq> [] \<longrightarrow> g_last w = last xs) \<and>
     list_all2 (\<lambda>x d. \<exists>p. cells (pls w) x = Some p \<and> describes d p) xs ds"

lemma fold_free_opt: "fold free_opt (map Some xs) v = v\<lparr>live := live v - int (length xs)\<rparr>"
  by (induction xs arbitrary: v) (simp_all add: free_opt_def drop_block_def algebra_simps)

lemma pl_free_ok:
  assumes "heap_ok (pls w)" and "cells (pls w) x = Some p" and "describes d p"
  shows "fra_p_pl_free x w = Inr (w\<lparr>pls := (pls w)\<lparr>cells := (cells (pls w))(x := None)\<rparr>,
    pl_env := (pl_env w)\<lparr>live := live (pl_env w) - desc_blocks d\<rparr>\<rparr>)"
proof -
  obtain name args where d: "d = (name, args)" by (cases d)
  have x: "x \<noteq> 0" using assms(1,2) by (rule heap_ok_nonnull)
  show ?thesis using assms(2,3) x
    by (simp add: d fra_p_pl_free_def hget_def hfree_def free_args_def free_ptr_def free_opt_def fold_free_opt drop_block_def)
qed

lemma pl_reset_ok:
  "pl_inv w xs ds \<Longrightarrow> length xs < n \<Longrightarrow> \<exists>w'. reset_loop n w = Inr w' \<and> pl_inv w' [] [] \<and>
     cells (pls w') = (\<lambda>a. if a \<in> set xs then None else cells (pls w) a) \<and> brk (pls w') = brk (pls w) \<and>
     pl_env w' = (pl_env w)\<lparr>live := live (pl_env w) - sum_list (map desc_blocks ds)\<rparr> \<and>
     pl_events w' = pl_events w \<and> outside w' = outside w"
proof (induction xs arbitrary: w ds n)
  case Nil
  then show ?case by (cases n) (auto simp: pl_inv_def)
next
  case (Cons x xs)
  obtain m where n: "n = Suc m" using Cons.prems(2) by (cases n) simp_all
  obtain d es where ds: "ds = d # es" using Cons.prems(1) by (auto simp: pl_inv_def list_all2_Cons1)
  obtain p where p: "cells (pls w) x = Some p" "describes d p" using Cons.prems(1) by (auto simp: pl_inv_def ds)
  have ok: "heap_ok (pls w)" and x: "g_first w = x" "x \<noteq> 0" and ch: "chain pl_next (cells (pls w)) (pl_next p) xs"
    using Cons.prems(1) p by (auto simp: pl_inv_def)
  have "chain pl_next (cells (pls w)) (g_first w) (x # xs)" using Cons.prems(1) by (simp add: pl_inv_def)
  from chain_distinct [OF this] have nx: "x \<notin> set xs" by simp
  let ?w = "w\<lparr>g_first := pl_next p, pls := (pls w)\<lparr>cells := (cells (pls w))(x := None)\<rparr>,
    pl_env := (pl_env w)\<lparr>live := live (pl_env w) - desc_blocks d\<rparr>\<rparr>"
  have free: "fra_p_pl_free x (w\<lparr>g_first := pl_next p\<rparr>) = Inr ?w"
    using pl_free_ok [of "w\<lparr>g_first := pl_next p\<rparr>" x p d] ok p by simp
  have "heap_ok (pls ?w)" using ok by (auto simp: heap_ok_def)
  moreover have "chain pl_next (cells (pls ?w)) (g_first ?w) xs" using ch nx by (simp add: chain_upd_other)
  moreover have "list_all2 (\<lambda>x d. \<exists>p. cells (pls ?w) x = Some p \<and> describes d p) xs es"
    by (rule list.rel_mono_strong [of "\<lambda>x d. \<exists>p. cells (pls w) x = Some p \<and> describes d p"]) (use Cons.prems(1) nx in \<open>auto simp: pl_inv_def ds\<close>)
  moreover have "xs \<noteq> [] \<longrightarrow> g_last ?w = last xs" using Cons.prems(1) by (auto simp: pl_inv_def)
  ultimately have "pl_inv ?w xs es" by (simp add: pl_inv_def)
  from Cons.IH [OF this, of m] Cons.prems(2) n obtain w' where "reset_loop m ?w = Inr w'" "pl_inv w' [] []"
    "cells (pls w') = (\<lambda>a. if a \<in> set xs then None else cells (pls ?w) a)" "brk (pls w') = brk (pls ?w)"
    "pl_env w' = (pl_env ?w)\<lparr>live := live (pl_env ?w) - sum_list (map desc_blocks es)\<rparr>"
    "pl_events w' = pl_events ?w" "outside w' = outside ?w"
    by auto
  then show ?case using x hget_ok [OF ok p(1)] free
    by (intro exI [of _ w']) (auto simp: n ds fun_eq_iff)
qed

lemma pl_add_ok:
  assumes inv: "pl_inv w xs ds" and x: "cells (pls w) x = Some p" "describes d p" and nx: "x \<notin> set xs"
  shows "\<exists>w'. fra_p_pl_add x w = Inr w' \<and> pl_inv w' (xs @ [x]) (ds @ [d]) \<and> pl_env w' = pl_env w \<and>
    pl_events w' = pl_events w \<and> outside w' = outside w \<and> brk (pls w') = brk (pls w) \<and>
    (\<forall>a. a \<notin> set xs \<longrightarrow> a \<noteq> x \<longrightarrow> cells (pls w') a = cells (pls w) a)"
proof -
  have ok: "heap_ok (pls w)" and ch: "chain pl_next (cells (pls w)) (g_first w) xs"
    and all: "list_all2 (\<lambda>x d. \<exists>p. cells (pls w) x = Some p \<and> describes d p) xs ds"
    using inv by (auto simp: pl_inv_def)
  have x0: "x \<noteq> 0" using heap_ok_nonnull [OF ok x(1)] .
  let ?c = "(cells (pls w))(x := Some (p\<lparr>pl_next := 0\<rparr>))"
  have up: "upd_pl x (pl_next_update (\<lambda>_. 0)) w = Inr (w\<lparr>pls := (pls w)\<lparr>cells := ?c\<rparr>\<rparr>)"
    using hupd_ok [OF ok x(1)] by (simp add: upd_pl_def)
  have ok1: "heap_ok ((pls w)\<lparr>cells := ?c\<rparr>)" using heap_ok_upd [OF ok] x(1) by simp
  have dp: "describes d (p\<lparr>pl_next := a\<rparr>)" for a using x(2) by (cases d) simp
  show ?thesis
  proof (cases xs rule: rev_cases)
    case Nil
    then have "ds = []" "g_first w = 0" using all ch by simp_all
    then show ?thesis using up ok1 x0 dp Nil
      by (intro exI [of _ "w\<lparr>pls := (pls w)\<lparr>cells := ?c\<rparr>, g_first := x, g_last := x\<rparr>"])
        (simp add: fra_p_pl_add_def pl_inv_def)
  next
    case (snoc ys y)
    have y: "g_last w = y" "y \<noteq> x" using inv nx snoc by (auto simp: pl_inv_def)
    obtain q where q: "cells (pls w) y = Some q" using chain_live [OF ch, of y] snoc by auto
    have first: "g_first w \<noteq> 0" using ch snoc by (cases ys) auto
    let ?d = "?c(y := Some (q\<lparr>pl_next := x\<rparr>))"
    have up2: "upd_pl y (pl_next_update (\<lambda>_. x)) (w\<lparr>pls := (pls w)\<lparr>cells := ?c\<rparr>\<rparr>) = Inr (w\<lparr>pls := (pls w)\<lparr>cells := ?d\<rparr>\<rparr>)"
      using hupd_ok [OF ok1, of y q] q y(2) by (simp add: upd_pl_def)
    have ch1: "chain pl_next ?c (g_first w) (ys @ y # [])" using ch nx snoc by (simp add: chain_upd_other)
    have qn: "pl_next q = 0" using ch q snoc by (auto simp: chain_append_iff)
    have "chain pl_next (?c(x := Some (p\<lparr>pl_next := 0\<rparr>), y := Some (q\<lparr>pl_next := x\<rparr>))) (g_first w) (ys @ y # x # [])"
      by (rule pl_list.insert_behind [OF ch1]) (use q y(2) x0 nx snoc qn in auto)
    then have ch2: "chain pl_next ?d (g_first w) (xs @ [x])" using snoc by simp
    have ok2: "heap_ok ((pls w)\<lparr>cells := ?d\<rparr>)" using heap_ok_upd [OF ok1, of y] q y(2) by simp
    have dq: "describes e (q\<lparr>pl_next := a\<rparr>) = describes e q" for e a by (cases e) simp
    have "list_all2 (\<lambda>x d. \<exists>p. ?d x = Some p \<and> describes d p) xs ds"
      using all by (rule list.rel_mono_strong) (use nx q dq in auto)
    then have "list_all2 (\<lambda>x d. \<exists>p. ?d x = Some p \<and> describes d p) (xs @ [x]) (ds @ [d])"
      using dp y(2) by (intro list_all2_appendI) auto
    then show ?thesis using up up2 ok2 ch2 y first snoc nx
      by (intro exI [of _ "w\<lparr>pls := (pls w)\<lparr>cells := ?d\<rparr>, g_last := x\<rparr>"])
        (auto simp: fra_p_pl_add_def pl_inv_def)
  qed
qed

section \<open>Loading, on lists\<close>

text \<open>
  What \<open>fra_p_pl_load\<close> does for a list of descriptions, without pointers: the result, the handles
  that the plugins it came to have then, what was called, and the state outside.
\<close>

type_synonym 'u started = "int \<times> nat list \<times> pl_event list \<times> 'u"

definition give_up :: "'u loader \<Rightarrow> nat \<Rightarrow> pl_event list \<Rightarrow> 'u \<Rightarrow> int \<times> nat \<times> pl_event list \<times> 'u" where
  "give_up L h evs u = (let (rc, u) = dl_close L h u in (- 1, if rc \<noteq> 0 then h else 0, evs @ [Dlclose h rc], u))"

lemma give_up_fails [simp]: "give_up L h evs u \<noteq> (0, r)"
  by (simp add: give_up_def split: prod.splits)

fun start_one :: "'u loader \<Rightarrow> pl_desc \<Rightarrow> 'u \<Rightarrow> (int \<times> nat \<times> pl_event list \<times> 'u) outcome" where
  "start_one L (name, args) u =
     (let (h, u) = dl_open L (Some name) u; opened = Dlopen (Some name) h
      in if h = 0 then Inr (- 1, 0, [opened], u)
         else case args of [] \<Rightarrow> Inr (give_up L h [opened] u)
         | fn # _ \<Rightarrow>
             let (s, u) = dl_sym L h fn u
             in if s = 0 then Inr (give_up L h [opened] u)
                else bindo (dl_main L s (int (length args)) (map Some args) u) (\<lambda>(rc, u).
                  let evs = [opened, Pl_main s (map Some args) rc]
                  in Inr (if rc \<noteq> 0 then give_up L h evs u else (0, h, evs, u))))"

fun start_list :: "'u loader \<Rightarrow> pl_desc list \<Rightarrow> 'u \<Rightarrow> 'u started outcome" where
  "start_list L [] u = Inr (0, [], [], u)"
| "start_list L (d # ds) u =
     bindo (start_one L d u) (\<lambda>(rc, h, evs, u).
       if rc \<noteq> 0 then Inr (- 1, [h], evs, u)
       else bindo (start_list L ds u) (\<lambda>(rc, hs, evs', u). Inr (rc, h # hs, evs @ evs', u)))"

fun close_list :: "'u loader \<Rightarrow> nat list \<Rightarrow> 'u \<Rightarrow> int list \<times> 'u" where
  "close_list L [] u = ([], u)"
| "close_list L (h # hs) u = (let (rc, u) = dl_close L h u; (rcs, u) = close_list L hs u in (rc # rcs, u))"

text \<open>The same handles in the objects at \<open>xs\<close>.\<close>

fun put_handles :: "addr list \<Rightarrow> nat list \<Rightarrow> (addr \<Rightarrow> plugin option) \<Rightarrow> addr \<Rightarrow> plugin option" where
  "put_handles (x # xs) (h # hs) m = put_handles xs hs (m(x := map_option (pl_h_update (\<lambda>_. h)) (m x)))"
| "put_handles xs hs m = m"

definition after :: "addr list \<Rightarrow> 'u started \<Rightarrow> 'u plugins \<Rightarrow> 'u plugins" where
  "after xs r w = (case r of (rc, hs, evs, u) \<Rightarrow>
     w\<lparr>pls := (pls w)\<lparr>cells := put_handles xs hs (cells (pls w))\<rparr>, pl_events := pl_events w @ evs, outside := u\<rparr>)"

lemma load_one_ok:
  assumes ok: "heap_ok (pls w)" and p: "cells (pls w) x = Some p" "describes d p"
  shows "load_one L x w = bindo (start_one L d (outside w)) (\<lambda>(rc, h, evs, u). Inr (rc, after [x] (rc, [h], evs, u) w))"
proof -
  obtain name args where d: "d = (name, args)" by (cases d)
  obtain h u where h: "dl_open L (Some name) (outside w) = (h, u)" by (cases "dl_open L (Some name) (outside w)")
  have g: "hget x (pls w) = Inr p" using ok p(1) by (rule hget_ok)
  have x0: "x \<noteq> 0" using heap_ok_nonnull [OF ok p(1)] .
  define W where "W h evs u = w\<lparr>pls := (pls w)\<lparr>cells := (cells (pls w))(x := Some (p\<lparr>pl_h := h\<rparr>))\<rparr>,
    pl_events := pl_events w @ evs, outside := u\<rparr>" for h evs u
  have W [simp]: "W h evs u\<lparr>outside := u'\<rparr> = W h evs u'" "pl_say e (W h evs u) = W h (evs @ [e]) u" "outside (W h evs u) = u" for h evs u u' e
    by (simp_all add: W_def pl_say_def)
  have okW: "heap_ok (pls (W h evs u))" for h evs u using heap_ok_upd [OF ok] p(1) by (simp add: W_def)
  have gW: "hget x (pls (W h evs u)) = Inr (p\<lparr>pl_h := h\<rparr>)" for h evs u
    using hget_ok [OF okW] by (simp add: W_def)
  have setW: "upd_pl x (pl_h_update (\<lambda>_. k)) (W h evs u) = Inr (W k evs u)" for h k evs u
    using hupd_ok [OF okW [of h evs u], of x "p\<lparr>pl_h := h\<rparr>" "pl_h_update (\<lambda>_. k)"] by (simp add: upd_pl_def) (simp add: W_def)
  have set: "upd_pl x (pl_h_update (\<lambda>_. k)) (pl_say e (w\<lparr>outside := u\<rparr>)) = Inr (W k [e] u)" for k e u
    using hupd_ok [OF ok p(1)] by (simp add: upd_pl_def pl_say_def W_def)
  have cl: "h_cleanup L x (W h evs u) =
      (let (rc, u) = dl_close L h u in Inr (- 1, W (if rc \<noteq> 0 then h else 0) (evs @ [Dlclose h rc]) u))" for evs u
    by (auto simp: h_cleanup_def gW dlclose_def setW split: prod.splits)
  have after: "after [x] (rc, [k], evs, u) w = W k evs u" for rc k evs u
    by (simp add: after_def W_def p(1))
  show ?thesis
    using p(2) h
    by (cases args) (auto simp: load_one_def give_up_def d g dlopen_def set cl argv0_def call_main_def after Let_def bindo_assoc
        split: prod.splits intro!: arg_cong2 [of _ _ _ _ bindo])
qed

lemma put_handles_Nil [simp]: "put_handles xs [] m = m"
  by (cases xs) simp_all

lemma put_handles_keeps:
  assumes "\<And>p h. f (p\<lparr>pl_h := h\<rparr>) = f p"
  shows "map_option f (put_handles xs hs m a) = map_option f (m a)"
proof (induction xs hs m rule: put_handles.induct)
  case (1 x xs h hs m)
  have "map_option f (put_handles (x # xs) (h # hs) m a) = map_option f ((m(x := map_option (pl_h_update (\<lambda>_. h)) (m x))) a)"
    using 1 by (simp only: put_handles.simps)
  also have "\<dots> = map_option f (m a)" using assms by (cases "m x") auto
  finally show ?case .
qed simp_all

lemma put_handles_next: "map_option pl_next (put_handles xs hs m a) = map_option pl_next (m a)"
  by (rule put_handles_keeps) simp

lemma put_handles_describes: "map_option (describes d) (put_handles xs hs m a) = map_option (describes d) (m a)"
  by (rule put_handles_keeps) (cases d; simp)

lemma put_handles_None: "put_handles xs hs m a = None \<longleftrightarrow> m a = None"
  using put_handles_next [of xs hs m a] by (cases "m a"; cases "put_handles xs hs m a") simp_all

lemma put_handles_other: "a \<notin> set xs \<Longrightarrow> put_handles xs hs m a = m a"
  by (induction xs hs m rule: put_handles.induct) simp_all

lemma after_simps [simp]:
  "cells (pls (after xs (rc, hs, evs, u) w)) = put_handles xs hs (cells (pls w))"
  "brk (pls (after xs r w)) = brk (pls w)" "g_first (after xs r w) = g_first w" "g_last (after xs r w) = g_last w"
  "pl_env (after xs r w) = pl_env w" "outside (after xs (rc, hs, evs, u) w) = u"
  "pl_events (after xs (rc, hs, evs, u) w) = pl_events w @ evs"
  by (simp_all add: after_def split: prod.splits)

lemma after_heap_ok:
  assumes "heap_ok (pls w)"
  shows "heap_ok (pls (after xs r w))"
proof -
  obtain rc hs evs u where r: "r = (rc, hs, evs, u)" by (metis prod_cases4)
  have "0 < a \<and> a < brk (pls w)" if "put_handles xs hs (cells (pls w)) a = Some p" for a p
    using that assms put_handles_None [of xs hs "cells (pls w)" a] by (auto simp: heap_ok_def)
  then show ?thesis using assms by (auto simp: r heap_ok_def)
qed

lemma describes_after:
  "list_all2 (\<lambda>x d. \<exists>p. m x = Some p \<and> describes d p) ys ds \<Longrightarrow>
   list_all2 (\<lambda>x d. \<exists>p. put_handles xs hs m x = Some p \<and> describes d p) ys ds"
proof (erule list.rel_mono_strong)
  fix y d
  assume "\<exists>p. m y = Some p \<and> describes d p"
  then show "\<exists>p. put_handles xs hs m y = Some p \<and> describes d p"
    using put_handles_describes [of d xs hs m y] by (cases "put_handles xs hs m y") auto
qed

lemma after_chain: "chain pl_next (cells (pls (after ys r w))) p xs = chain pl_next (cells (pls w)) p xs"
  by (cases r) (simp add: put_handles_next cong: chain_cong)

lemma after_inv: "pl_inv w xs ds \<Longrightarrow> pl_inv (after ys r w) xs ds"
  by (cases r) (simp add: pl_inv_def after_heap_ok after_chain describes_after del: after_simps(1), simp add: describes_after)

lemma load_loop_ok:
  "heap_ok (pls w) \<Longrightarrow> chain pl_next (cells (pls w)) c xs \<Longrightarrow>
   list_all2 (\<lambda>x d. \<exists>p. cells (pls w) x = Some p \<and> describes d p) xs ds \<Longrightarrow> length xs < n \<Longrightarrow>
   load_loop L n c w = bindo (start_list L ds (outside w)) (\<lambda>r. Inr (fst r, after xs r w))"
proof (induction xs arbitrary: c w ds n)
  case Nil
  then show ?case by (cases n) (auto simp: after_def)
next
  case (Cons x xs)
  obtain m where n: "n = Suc m" using Cons.prems(4) by (cases n) simp_all
  obtain d es where ds: "ds = d # es" using Cons.prems(3) by (auto simp: list_all2_Cons1)
  obtain p where p: "cells (pls w) x = Some p" "describes d p" using Cons.prems(3) by (auto simp: ds)
  have c: "c = x" "x \<noteq> 0" and ch: "chain pl_next (cells (pls w)) (pl_next p) xs" using Cons.prems(2) p by auto
  note one = load_one_ok [OF Cons.prems(1) p, of L]
  show ?case
  proof (cases "start_one L d (outside w)")
    case (Inl e)
    then show ?thesis by (simp add: n c one ds)
  next
    case (Inr r)
    obtain rc h evs u where r: "r = (rc, h, evs, u)" by (metis prod_cases4)
    let ?w = "after [x] (rc, [h], evs, u) w"
    show ?thesis
    proof (cases "rc = 0")
      case False
      have "after (x # xs) (- 1, [h], evs, u) w = after [x] (rc, [h], evs, u) w" by (simp add: after_def)
      then show ?thesis using False by (simp add: n c one ds Inr r)
    next
      case True
      have ok: "heap_ok (pls ?w)" using Cons.prems(1) by (rule after_heap_ok)
      have x: "cells (pls ?w) x = Some (p\<lparr>pl_h := h\<rparr>)" by (simp add: r p(1))
      have c1: "chain pl_next (cells (pls ?w)) (pl_next p) xs" using ch by (simp only: after_chain)
      have c2: "list_all2 (\<lambda>x d. \<exists>p. cells (pls ?w) x = Some p \<and> describes d p) xs es"
        using Cons.prems(3) describes_after [of "cells (pls w)" xs es "[x]" "[h]"] by (simp add: ds r)
      have "load_loop L m (pl_next p) ?w = bindo (start_list L es u) (\<lambda>r. Inr (fst r, after xs r ?w))"
        using Cons.IH [OF ok c1 c2, of m] Cons.prems(4) by (simp add: n)
      moreover have "after xs r' ?w = after (x # xs) (fst r', h # fst (snd r'), evs @ fst (snd (snd r')), snd (snd (snd r'))) w" for r'
        by (cases r') (simp add: after_def r)
      ultimately show ?thesis
        using True hget_ok [OF ok x] by (cases "start_list L es u") (auto simp: n c one ds Inr r)
    qed
  qed
qed

section \<open>Unloading\<close>

definition handles_of :: "addr list \<Rightarrow> 'u plugins \<Rightarrow> nat list" where
  "handles_of xs w = map (\<lambda>x. pl_h (the (cells (pls w) x))) xs"

lemma close_list_length: "close_list L hs u = (rcs, u') \<Longrightarrow> length rcs = length hs"
  by (induction hs arbitrary: u rcs) (auto split: prod.splits)

lemma unload_loop_ok:
  "chain pl_next (cells (pls w)) c xs \<Longrightarrow> length xs < n \<Longrightarrow> close_list L (handles_of xs w) (outside w) = (rcs, u) \<Longrightarrow>
   unload_loop L n c k w = Inr (k + int (length (filter (\<lambda>rc. rc \<noteq> 0) rcs)),
     w\<lparr>pl_events := pl_events w @ map2 Dlclose (handles_of xs w) rcs, outside := u\<rparr>)"
proof (induction xs arbitrary: c w n k rcs)
  case Nil
  then show ?case by (cases n) (auto simp: handles_of_def)
next
  case (Cons x xs)
  obtain m where n: "n = Suc m" using Cons.prems(2) by (cases n) simp_all
  obtain p where p: "c = x" "x \<noteq> 0" "cells (pls w) x = Some p" and ch: "chain pl_next (cells (pls w)) (pl_next p) xs"
    using Cons.prems(1) by (auto split: option.splits)
  obtain rc u1 rcs1 where 1: "dl_close L (pl_h p) (outside w) = (rc, u1)" "close_list L (handles_of xs w) u1 = (rcs1, u)"
    and rcs: "rcs = rc # rcs1"
    using Cons.prems(3) p(3) by (auto simp: handles_of_def split: prod.splits)
  let ?w = "w\<lparr>pl_events := pl_events w @ [Dlclose (pl_h p) rc], outside := u1\<rparr>"
  have h: "handles_of ys ?w = handles_of ys w" for ys by (simp add: handles_of_def)
  have IH: "unload_loop L m (pl_next p) k' ?w = Inr (k' + int (length (filter (\<lambda>rc. rc \<noteq> 0) rcs1)),
     ?w\<lparr>pl_events := pl_events ?w @ map2 Dlclose (handles_of xs w) rcs1, outside := u\<rparr>)" for k'
    using Cons.IH [of ?w "pl_next p" m rcs1 k'] ch Cons.prems(2) 1(2) by (simp add: n h)
  have "handles_of (x # xs) w = pl_h p # handles_of xs w" by (simp add: handles_of_def p(3))
  moreover have "pl_say e (w\<lparr>outside := u'\<rparr>) = w\<lparr>pl_events := pl_events w @ [e], outside := u'\<rparr>" for e u'
    by (simp add: pl_say_def)
  ultimately show ?case using p 1(1) IH
    by (simp add: n hget_def dlclose_def rcs)
qed

lemma pl_unload_ok:
  assumes "pl_inv w xs ds" and "close_list L (handles_of xs w) (outside w) = (rcs, u)"
  shows "fra_p_pl_unload L w = Inr (if set rcs \<subseteq> {0} then 0 else - 1,
    w\<lparr>pl_events := pl_events w @ map2 Dlclose (handles_of xs w) rcs, outside := u\<rparr>)"
proof -
  have ch: "heap_ok (pls w)" "chain pl_next (cells (pls w)) (g_first w) xs" using assms(1) by (auto simp: pl_inv_def)
  have "(filter (\<lambda>rc. rc \<noteq> 0) rcs = []) = (set rcs \<subseteq> {0})" by (auto simp: filter_empty_conv)
  then show ?thesis
    using unload_loop_ok [OF ch(2) chain_length [OF ch] assms(2), of 0] by (simp add: fra_p_pl_unload_def)
qed

lemma handles_put:
  "distinct xs \<Longrightarrow> (\<forall>x \<in> set xs. m x \<noteq> None) \<Longrightarrow> length hs \<le> length xs \<Longrightarrow>
   map (\<lambda>x. pl_h (the (put_handles xs hs m x))) xs = hs @ map (\<lambda>x. pl_h (the (m x))) (drop (length hs) xs)"
proof (induction xs hs m rule: put_handles.induct)
  case (1 x xs h hs m)
  let ?m = "m(x := map_option (pl_h_update (\<lambda>_. h)) (m x))"
  have "map (\<lambda>x. pl_h (the (put_handles xs hs ?m x))) xs = hs @ map (\<lambda>x. pl_h (the (?m x))) (drop (length hs) xs)"
  proof (rule "1.IH")
    show "\<forall>a \<in> set xs. ?m a \<noteq> None" using "1.prems" by auto
  qed (use "1.prems" in auto)
  moreover have "map (\<lambda>x. pl_h (the (?m x))) (drop (length hs) xs) = map (\<lambda>x. pl_h (the (m x))) (drop (length hs) xs)"
    using "1.prems"(1) by (intro map_cong) (auto dest: in_set_dropD)
  moreover have "put_handles xs hs ?m x = ?m x" using "1.prems"(1) by (simp add: put_handles_other)
  ultimately show ?case using "1.prems"(2) by auto
qed simp_all

lemma handles_after:
  assumes "pl_inv w xs ds" and "length hs \<le> length xs"
  shows "handles_of xs (after xs (rc, hs, evs, u) w) = hs @ handles_of (drop (length hs) xs) w"
proof -
  have ch: "chain pl_next (cells (pls w)) (g_first w) xs" using assms(1) by (simp add: pl_inv_def)
  then show ?thesis
    using handles_put [OF chain_distinct [OF ch] _ assms(2), of "cells (pls w)"] chain_live [OF ch] by (simp add: handles_of_def)
qed

lemma pl_load_ok:
  assumes "pl_inv w xs ds"
  shows "fra_p_pl_load L w = bindo (start_list L ds (outside w)) (\<lambda>r. Inr (fst r, after xs r w))"
proof -
  have "heap_ok (pls w)" "chain pl_next (cells (pls w)) (g_first w) xs"
    "list_all2 (\<lambda>x d. \<exists>p. cells (pls w) x = Some p \<and> describes d p) xs ds"
    using assms by (auto simp: pl_inv_def)
  from load_loop_ok [OF this chain_length [OF this(1,2)]] show ?thesis by (simp add: fra_p_pl_load_def)
qed

lemma start_one_ok:
  "start_one L (name, args) u = Inr (0, h, evs, u') \<Longrightarrow>
   h \<noteq> 0 \<and> args \<noteq> [] \<and> (\<exists>s. s \<noteq> 0 \<and> evs = [Dlopen (Some name) h, Pl_main s (map Some args) 0])"
  by (cases args) (auto simp: Let_def bindo_eq_Inr give_up_fails [symmetric] split: prod.splits if_splits)

definition started_events :: "pl_desc \<Rightarrow> nat \<times> fnptr \<Rightarrow> pl_event list" where
  "started_events d hs = [Dlopen (Some (fst d)) (fst hs), Pl_main (snd hs) (map Some (snd d)) 0]"

lemma start_list_ok:
  "start_list L ds u = Inr (0, hs, evs, u') \<Longrightarrow>
   length hs = length ds \<and> 0 \<notin> set hs \<and> (\<forall>d \<in> set ds. snd d \<noteq> []) \<and>
   (\<exists>ss. length ss = length ds \<and> 0 \<notin> set ss \<and> evs = concat (map2 started_events ds (zip hs ss)))"
proof (induction ds arbitrary: u hs evs)
  case (Cons d ds)
  then obtain h e u1 hs1 evs1 where 1: "start_one L d u = Inr (0, h, e, u1)" "start_list L ds u1 = Inr (0, hs1, evs1, u')"
    and hs: "hs = h # hs1" "evs = e @ evs1"
    by (auto simp: bindo_eq_Inr split: if_splits)
  obtain s where s: "h \<noteq> 0" "snd d \<noteq> []" "s \<noteq> 0" "e = started_events d (h, s)"
    using start_one_ok [of L "fst d" "snd d" u h e u1] 1(1) by (auto simp: started_events_def)
  obtain ss where ss: "length hs1 = length ds" "0 \<notin> set hs1" "\<forall>d \<in> set ds. snd d \<noteq> []"
    "length ss = length ds" "0 \<notin> set ss" "evs1 = concat (map2 started_events ds (zip hs1 ss))"
    using Cons.IH [OF 1(2)] by blast
  show ?case using s ss by (auto simp: hs intro!: exI [of _ "s # ss"])
qed simp

lemma start_list_fails:
  "start_list L ds u = Inr (0, hs, evs, u1) \<Longrightarrow> dl_open L (Some name) u1 = (0, u2) \<Longrightarrow>
   start_list L (ds @ (name, args) # ds') u = Inr (- 1, hs @ [0], evs @ [Dlopen (Some name) 0], u2)"
proof (induction ds arbitrary: u hs evs)
  case (Cons d ds)
  then obtain h e u3 hs1 evs1 where "start_one L d u = Inr (0, h, e, u3)" "start_list L ds u3 = Inr (0, hs1, evs1, u1)"
    and "hs = h # hs1" "evs = e @ evs1"
    by (auto simp: bindo_eq_Inr split: if_splits)
  with Cons.IH [of u3 hs1 evs1] Cons.prems(2) show ?case by simp
qed simp

section \<open>Properties\<close>

text \<open>C17: loading the plugins refines a function on the list of their descriptions: walking the
  linked objects, \<open>fra_p_pl_load\<close> makes the calls of \<open>start_list\<close>, with its result and its handles
  in the objects, and leaves the list as it was.\<close>

theorem plugins_load_refines:
  assumes "pl_inv w xs ds"
  shows "fra_p_pl_load L w = bindo (start_list L ds (outside w)) (\<lambda>r. Inr (fst r, after xs r w)) \<and>
    (\<forall>rc w'. fra_p_pl_load L w = Inr (rc, w') \<longrightarrow> pl_inv w' xs ds)"
  using pl_load_ok [OF assms] after_inv [OF assms] by (auto simp: bindo_eq_Inr)

text \<open>C18: when loading succeeds, every library was opened and its function called with all the
  arguments, in the order of the list, each returning 0; unloading then closes exactly the handles
  that were opened, in the same order, and reports 0 when every close does.\<close>

theorem plugins_lifecycle:
  assumes inv: "pl_inv w xs ds" and load: "fra_p_pl_load L w = Inr (0, w1)"
  shows "\<exists>hs ss rcs rc w2. length hs = length ds \<and> length ss = length ds \<and> length rcs = length ds \<and> 0 \<notin> set hs \<and> 0 \<notin> set ss \<and>
    pl_events w1 = pl_events w @ concat (map2 started_events ds (zip hs ss)) \<and>
    fra_p_pl_unload L w1 = Inr (rc, w2) \<and> pl_events w2 = pl_events w1 @ map2 Dlclose hs rcs \<and>
    (rc = 0 \<longleftrightarrow> set rcs \<subseteq> {0})"
proof -
  obtain hs evs u where start: "start_list L ds (outside w) = Inr (0, hs, evs, u)" and w1: "w1 = after xs (0, hs, evs, u) w"
    using load by (auto simp: pl_load_ok [OF inv] bindo_eq_Inr)
  obtain ss where ss: "length hs = length ds" "0 \<notin> set hs" "length ss = length ds" "0 \<notin> set ss"
    "evs = concat (map2 started_events ds (zip hs ss))"
    using start_list_ok [OF start] by blast
  have len: "length xs = length ds" using inv by (auto simp: pl_inv_def dest: list_all2_lengthD)
  have h: "handles_of xs w1 = hs" using handles_after [OF inv, of hs] ss(1) len by (simp add: w1) (simp add: handles_of_def)
  obtain rcs u2 where cl: "close_list L hs (outside w1) = (rcs, u2)" by (cases "close_list L hs (outside w1)")
  have inv1: "pl_inv w1 xs ds" unfolding w1 by (rule after_inv [OF inv])
  have un: "fra_p_pl_unload L w1 = Inr (if set rcs \<subseteq> {0} then 0 else - 1,
      w1\<lparr>pl_events := pl_events w1 @ map2 Dlclose hs rcs, outside := u2\<rparr>)"
    using pl_unload_ok [OF inv1, of L rcs u2] h cl by simp
  show ?thesis
    using ss close_list_length [OF cl] un
    by (intro exI [of _ hs] exI [of _ ss] exI [of _ rcs] exI [of _ "if set rcs \<subseteq> {0} then 0 else - 1"]
        exI [of _ "w1\<lparr>pl_events := pl_events w1 @ map2 Dlclose hs rcs, outside := u2\<rparr>"]) (simp add: w1)
qed

text \<open>After a library could not be opened, unloading goes through the whole list all the same:
  \<open>dlclose\<close> is called with \<open>NULL\<close> for that library and, for all plugins behind it, with whatever
  their field \<open>h\<close> holds, which no code has set.\<close>

theorem unload_closes_unopened:
  assumes inv: "pl_inv w xs (ds @ (name, args) # ds')"
    and start: "start_list L ds (outside w) = Inr (0, hs, evs, u)" and closed: "dl_open L (Some name) u = (0, u')"
  shows "\<exists>w1 rc w2 rcs. fra_p_pl_load L w = Inr (- 1, w1) \<and> fra_p_pl_unload L w1 = Inr (rc, w2) \<and> length rcs = length xs \<and>
    pl_events w2 = pl_events w1 @ map2 Dlclose (hs @ 0 # handles_of (drop (Suc (length ds)) xs) w) rcs"
proof -
  let ?r = "(- 1, hs @ [0], evs @ [Dlopen (Some name) 0], u')"
  let ?w1 = "after xs ?r w"
  have load: "fra_p_pl_load L w = Inr (- 1, ?w1)"
    by (simp add: pl_load_ok [OF inv] start_list_fails [OF start closed])
  have len: "length xs = length ds + Suc (length ds')" and hs: "length hs = length ds"
    using inv start_list_ok [OF start] by (auto simp: pl_inv_def dest: list_all2_lengthD)
  have h: "handles_of xs ?w1 = hs @ 0 # handles_of (drop (Suc (length ds)) xs) w"
    using handles_after [OF inv, of "hs @ [0]"] len hs by simp
  obtain rcs u2 where cl: "close_list L (handles_of xs ?w1) (outside ?w1) = (rcs, u2)"
    by (cases "close_list L (handles_of xs ?w1) (outside ?w1)")
  have "length rcs = length xs" using close_list_length [OF cl] by (simp add: handles_of_def)
  then show ?thesis
    using load pl_unload_ok [OF after_inv [OF inv, of xs ?r] cl] h
    by (intro exI [of _ ?w1] exI conjI) (assumption | simp)+
qed

section \<open>Witnesses\<close>

text \<open>A loader that knows every library but \<open>none\<close>; the handle is the number of libraries opened
  so far.\<close>

definition demo_loader :: "nat loader" where
  "demo_loader = \<lparr>dl_open = (\<lambda>name u. if name = Some ''none'' then (0, u) else (Suc u, Suc u)),
     dl_sym = (\<lambda>h name u. (7, u)), dl_close = (\<lambda>h u. (0, u)), dl_main = (\<lambda>s n args u. Inr (0, u))\<rparr>"

text \<open>Two plugins, with 90 and 91 in the field \<open>h\<close>.\<close>

definition demo_plugins :: "string \<Rightarrow> nat plugins" where
  "demo_plugins name = \<lparr>pls = \<lparr>cells = [
       1 \<mapsto> \<lparr>pl_next = 2, pl_name = Some name, argv = Live [Some ''init''], argc = 1, pl_h = 90\<rparr>,
       2 \<mapsto> \<lparr>pl_next = 0, pl_name = Some ''b.so'', argv = Live [Some ''start'', Some ''x''], argc = 2, pl_h = 91\<rparr>], brk = 3\<rparr>,
     g_first = 1, g_last = 2, pl_env = quiet_env\<lparr>live := 7\<rparr>, pl_events = [], outside = 0\<rparr>"

lemma demo_pl_inv: "pl_inv (demo_plugins name) [1, 2] ([] @ (name, [''init'']) # [(''b.so'', [''start'', ''x''])])"
  by (auto simp: pl_inv_def demo_plugins_def heap_ok_def split: if_splits)

lemma demo_pl_load:
  "\<exists>w1. fra_p_pl_load demo_loader (demo_plugins ''a.so'') = Inr (0, w1)"
  using pl_load_ok [OF demo_pl_inv, of demo_loader "''a.so''"] by (simp add: demo_loader_def demo_plugins_def)

theorem plugins_load_refines_witness:
  "\<exists>w'. fra_p_pl_load demo_loader (demo_plugins ''a.so'') = Inr (0, w') \<and>
     pl_inv w' [1, 2] [(''a.so'', [''init'']), (''b.so'', [''start'', ''x''])]"
  using plugins_load_refines [OF demo_pl_inv, of demo_loader "''a.so''"] demo_pl_load by fastforce

theorem plugins_lifecycle_witness:
  "\<exists>w1 rc w2. fra_p_pl_load demo_loader (demo_plugins ''a.so'') = Inr (0, w1) \<and> fra_p_pl_unload demo_loader w1 = Inr (rc, w2)"
proof -
  obtain w1 where w1: "fra_p_pl_load demo_loader (demo_plugins ''a.so'') = Inr (0, w1)" using demo_pl_load by blast
  with plugins_lifecycle [OF demo_pl_inv w1] show ?thesis by blast
qed

theorem unload_closes_unopened_witness:
  "\<exists>w1 rc w2 a b. fra_p_pl_load demo_loader (demo_plugins ''none'') = Inr (- 1, w1) \<and>
     fra_p_pl_unload demo_loader w1 = Inr (rc, w2) \<and> pl_events w2 = pl_events w1 @ [Dlclose 0 a, Dlclose 91 b]"
proof -
  have start: "start_list demo_loader [] (outside (demo_plugins ''none'')) = Inr (0, [], [], 0)"
    by (simp add: demo_plugins_def)
  have closed: "dl_open demo_loader (Some ''none'') 0 = (0, 0)" by (simp add: demo_loader_def)
  have h: "handles_of (drop (Suc (length ([] :: pl_desc list))) [1, 2]) (demo_plugins ''none'') = [91]"
    by (simp add: handles_of_def demo_plugins_def)
  obtain w1 rc w2 rcs where w: "fra_p_pl_load demo_loader (demo_plugins ''none'') = Inr (- 1, w1)"
    "fra_p_pl_unload demo_loader w1 = Inr (rc, w2)" "length rcs = 2"
    "pl_events w2 = pl_events w1 @ map2 Dlclose ([] @ 0 # [91]) rcs"
    using unload_closes_unopened [OF demo_pl_inv start closed] unfolding h by (auto simp: numeral_2_eq_2)
  from w(3) obtain a b where "rcs = [a, b]" by (auto simp: length_Suc_conv numeral_2_eq_2)
  with w show ?thesis by auto
qed

end
