(* ===== verification/Conf.thy ===== *)
theory Conf
  imports Plugins Bstr
begin

text \<open>
  Reading the configuration, \<open>src/conf.c\<close>: JSON files that set values, enable plugins and
  include other files. The file system, the JSON tokenizer jsmn and the path search of
  jsmn-jsonpath are parameters.
\<close>

section \<open>Tokens and the world outside\<close>

datatype jsmntype = JSMN_PRIMITIVE | JSMN_OBJECT | JSMN_ARRAY | JSMN_STRING

text \<open>A token is a piece of the text, \<open>start\<close> to \<open>end\<close>, and the index of the token it belongs to:
  for a value in an object that of its key, for a key that of the object.\<close>

record jsmntok =
  tok_type :: jsmntype
  tok_start :: int
  tok_end :: int
  parent :: int

text \<open>
  \<open>read_file\<close> is the contents of a file, if it can be opened, and \<open>list_dir\<close> the names that
  \<open>readdir\<close> gives in turn. \<open>jsmn_parse\<close> gives, for a text and room for so many tokens, the result and
  the tokens written; \<open>jsonpath\<close> the indices of the tokens that match a path. \<open>junk_pl\<close> is what a
  new plugin object contains before it is written to.
\<close>

record outer =
  cbs :: bstrlib
  read_file :: "string \<Rightarrow> string option"
  list_dir :: "string \<Rightarrow> string list option"
  jsmn_parse :: "string \<Rightarrow> nat \<Rightarrow> int \<times> jsmntok list"
  jsonpath :: "string \<Rightarrow> jsmntok list \<Rightarrow> string \<Rightarrow> int list option"
  junk_pl :: "addr \<Rightarrow> plugin"

definition JSMN_ERROR_NOMEM :: int where "JSMN_ERROR_NOMEM = - 1"

section \<open>State\<close>

datatype fra_p_conf_type = FRA_P_CONF_STR | FRA_P_CONF_STR_ARR | FRA_P_CONF_NUMBER | FRA_P_CONF_BOOLEAN

definition FRA_P_CONF_THREAD_SAFE :: nat where "FRA_P_CONF_THREAD_SAFE = 0"
definition FRA_P_CONF_NUM_OR_BOOL_COUNT :: nat where "FRA_P_CONF_NUM_OR_BOOL_COUNT = 1"
definition FRA_P_CONF_STR_COUNT :: nat where "FRA_P_CONF_STR_COUNT = 1"
definition FRA_P_CONF_STR_ARR_COUNT :: nat where "FRA_P_CONF_STR_ARR_COUNT = 1"

record str_arr =
  arr_v :: "string option list ptr"
  arr_l :: int

record conf =
  c_name :: string
  c_type :: fra_p_conf_type
  c_id :: nat
  c_str :: "string option"
  c_val :: int

definition confs :: "conf list" where
  "confs = [\<lparr>c_name = ''thread safe'', c_type = FRA_P_CONF_BOOLEAN, c_id = FRA_P_CONF_THREAD_SAFE, c_str = None, c_val = 0\<rparr>]"

text \<open>The environment is that of the plugins; \<open>g_strings\<close> holds the contents of the strings.\<close>

record 'u config =
  cf_pl :: "'u plugins"
  num_or_bools :: "int list"
  g_strings :: "string option list"
  str_arrs :: "str_arr list"

type_synonym 'u conf_op = "'u config \<Rightarrow> (int \<times> 'u config) outcome"

abbreviation cenv :: "'u config \<Rightarrow> env" where
  "cenv w \<equiv> pl_env (cf_pl w)"

definition with_cenv :: "env \<Rightarrow> 'u config \<Rightarrow> 'u config" where
  "with_cenv v w = w\<lparr>cf_pl := (cf_pl w)\<lparr>pl_env := v\<rparr>\<rparr>"

text \<open>
  A call that can fail, one that allocates (memory, an open file or directory), and the release
  of such a block.
\<close>

definition c_draw :: "'u config \<Rightarrow> bool \<times> 'u config" where
  "c_draw w = (let (ok, v) = draw (cenv w) in (ok, with_cenv v w))"

definition c_take :: "'u config \<Rightarrow> bool \<times> 'u config" where
  "c_take w = (let (ok, v) = take_block (cenv w) in (ok, with_cenv v w))"

definition c_drop :: "'u config \<Rightarrow> 'u config" where
  "c_drop w = with_cenv (drop_block (cenv w)) w"

text \<open>Static arrays, the array of tokens (whose entries beyond the result of \<open>jsmn_parse\<close> are not
  written) and pieces of the text.\<close>

definition elem :: "'a list \<Rightarrow> nat \<Rightarrow> 'a outcome" where
  "elem xs i = (if i < length xs then Inr (xs ! i) else Inl (Undef Out_of_bounds))"

definition tok_at :: "jsmntok list \<Rightarrow> int \<Rightarrow> jsmntok outcome" where
  "tok_at t i =
     (if i < 0 then Inl (Undef Out_of_bounds)
      else if nat i < length t then Inr (t ! nat i) else Inl (Undef Uninit_read))"

definition substr :: "string \<Rightarrow> int \<Rightarrow> int \<Rightarrow> string outcome" where
  "substr s a b =
     (if 0 \<le> a \<and> a \<le> b \<and> nat b \<le> length s then Inr (take (nat (b - a)) (drop (nat a) s))
      else Inl (Undef Out_of_bounds))"

definition tok_str :: "string \<Rightarrow> jsmntok \<Rightarrow> string outcome" where
  "tok_str s t = substr s (tok_start t) (tok_end t)"

definition char_at :: "string \<Rightarrow> int \<Rightarrow> char outcome" where
  "char_at s i = (if 0 \<le> i \<and> nat i \<le> length s then Inr ((s @ [CHR 0x00]) ! nat i) else Inl (Undef Out_of_bounds))"

section \<open>Defaults\<close>

definition str_arr_destroy :: "nat \<Rightarrow> 'u config \<Rightarrow> 'u config outcome" where
  "str_arr_destroy i w =
     bindo (elem (str_arrs w) i) (\<lambda>a.
     bindo (free_args (arr_l a) (arr_v a) (cenv w)) (\<lambda>v.
     bindo (free_ptr (arr_v a) v) (\<lambda>v.
       Inr ((with_cenv v w)\<lparr>str_arrs := (str_arrs w)[i := \<lparr>arr_v = Null, arr_l = 0\<rparr>]\<rparr>))))"

definition reset_plugins :: "'u config \<Rightarrow> 'u config outcome" where
  "reset_plugins w = bindo (fra_p_pl_reset (cf_pl w)) (\<lambda>p. Inr (w\<lparr>cf_pl := p\<rparr>))"

text \<open>\<open>bassigncstr\<close> and \<open>bassignblk\<close> to one of the strings: an error for \<open>NULL\<close> and when memory runs
  out.\<close>

definition bassign :: "nat \<Rightarrow> string \<Rightarrow> 'u conf_op" where
  "bassign i s w =
     bindo (elem (g_strings w) i) (\<lambda>g.
       case g of None \<Rightarrow> Inr (- 1, w)
       | Some _ \<Rightarrow> let (ok, w) = c_draw w in Inr (if ok then (0, w\<lparr>g_strings := (g_strings w)[i := Some s]\<rparr>) else (- 1, w)))"

definition set_num :: "nat \<Rightarrow> int \<Rightarrow> 'u conf_op" where
  "set_num i val w =
     bindo (elem (num_or_bools w) i) (\<lambda>_. Inr (0, w\<lparr>num_or_bools := (num_or_bools w)[i := val]\<rparr>))"

definition set_default :: "conf \<Rightarrow> 'u conf_op" where
  "set_default c w = (case c_type c of
       FRA_P_CONF_STR \<Rightarrow> bassign (c_id c) (case c_str c of Some s \<Rightarrow> s | None \<Rightarrow> '''') w
     | FRA_P_CONF_NUMBER \<Rightarrow> set_num (c_id c) (c_val c) w
     | FRA_P_CONF_BOOLEAN \<Rightarrow> set_num (c_id c) (c_val c) w
     | FRA_P_CONF_STR_ARR \<Rightarrow> bindo (str_arr_destroy (c_id c) w) (\<lambda>w. Inr (0, w)))"

fun defaults_loop :: "conf list \<Rightarrow> 'u conf_op" where
  "defaults_loop [] w = Inr (0, w)"
| "defaults_loop (c # cs) w =
     bindo (set_default c w) (\<lambda>(rc, w). if rc \<noteq> 0 then Inr (- 1, w) else defaults_loop cs w)"

definition set_defaults :: "'u conf_op" where
  "set_defaults w = bindo (reset_plugins w) (defaults_loop confs)"

section \<open>Enabled plugins\<close>

text \<open>
  The plugin under construction is the local value \<open>p\<close>: its object, at \<open>pl\<close>, is not reachable
  for any other code until \<open>fra_p_pl_add\<close>, and is written before that and before it is freed. A
  result \<open>None\<close> is the jump to \<open>pl_cleanup\<close>.
\<close>

definition realloc_args :: "plugin \<Rightarrow> 'u config \<Rightarrow> (bool \<times> 'u config) outcome" where
  "realloc_args p w = (case argv p of Null \<Rightarrow> Inr (c_take w) | Live _ \<Rightarrow> Inr (c_draw w)
     | Freed \<Rightarrow> Inl (Undef Use_after_free))"

text \<open>The entry that \<open>realloc\<close> made room for, and \<open>argc\<close>.\<close>

definition put_arg :: "string option \<Rightarrow> plugin \<Rightarrow> plugin" where
  "put_arg x p = p\<lparr>argv := Live (take (nat (argc p)) (case argv p of Live xs \<Rightarrow> xs | _ \<Rightarrow> []) @ [x]), argc := argc p + 1\<rparr>"

definition add_arg :: "string \<Rightarrow> jsmntok \<Rightarrow> plugin \<Rightarrow> 'u config \<Rightarrow> (bool \<times> plugin \<times> 'u config) outcome" where
  "add_arg s t p w =
     (if tok_type t \<noteq> JSMN_STRING then Inr (False, p, w)
      else
        bindo (realloc_args p w) (\<lambda>(ok, w).
          if \<not> ok then Inr (False, p, w)
          else
            let (ok, w) = c_take w
            in if \<not> ok then Inr (False, put_arg None p, w)
               else bindo (tok_str s t) (\<lambda>arg. Inr (True, put_arg (Some arg) p, w))))"

fun args_loop ::
  "nat \<Rightarrow> string \<Rightarrow> jsmntok list \<Rightarrow> int \<Rightarrow> int \<Rightarrow> int \<Rightarrow> plugin \<Rightarrow> 'u config \<Rightarrow> (int option \<times> plugin \<times> 'u config) outcome"
where
  "args_loop 0 s t t_c cur_pl i p w = Inl Out_of_fuel"
| "args_loop (Suc n) s t t_c cur_pl i p w =
     (if \<not> i < t_c then Inr (Some i, p, w)
      else
        bindo (tok_at t i) (\<lambda>ti.
          if parent ti \<noteq> cur_pl then Inr (Some i, p, w)
          else
            bindo (tok_at t cur_pl) (\<lambda>tp.
              if \<not> tok_end ti \<le> tok_end tp then Inr (Some i, p, w)
              else
                bindo (add_arg s ti p w) (\<lambda>(ok, p, w).
                  if \<not> ok then Inr (None, p, w) else args_loop n s t t_c cur_pl (i + 1) p w))))"

definition on_plugins :: "('u plugins \<Rightarrow> 'u plugins outcome) \<Rightarrow> 'u config \<Rightarrow> 'u config outcome" where
  "on_plugins f w = bindo (f (cf_pl w)) (\<lambda>p. Inr (w\<lparr>cf_pl := p\<rparr>))"

definition pl_cleanup :: "addr \<Rightarrow> plugin \<Rightarrow> 'u conf_op" where
  "pl_cleanup pl p w =
     bindo (on_plugins (upd_pl pl (\<lambda>_. p)) w) (\<lambda>w. bindo (on_plugins (fra_p_pl_free pl) w) (\<lambda>w. Inr (- 1, w)))"

definition new_plugin :: "outer \<Rightarrow> 'u config \<Rightarrow> addr \<times> plugin \<times> 'u config" where
  "new_plugin c w =
     (let junk = junk_pl c (brk (pls (cf_pl w))); (pl, h) = hnew junk (pls (cf_pl w))
      in (pl, junk, w\<lparr>cf_pl := (cf_pl w)\<lparr>pls := h\<rparr>\<rparr>))"

text \<open>The part of the body of the loop that makes the plugin whose name is the token \<open>i\<close>; the
  result is the next \<open>i\<close>, or \<open>None\<close> after an error.\<close>

definition one_plugin :: "outer \<Rightarrow> string \<Rightarrow> jsmntok list \<Rightarrow> int \<Rightarrow> int \<Rightarrow> jsmntok \<Rightarrow> 'u config \<Rightarrow> (int option \<times> 'u config) outcome" where
  "one_plugin c s t t_c i ti w =
     (let (ok, w) = c_draw w
      in if \<not> ok then Inr (None, w)
         else
           let (pl, p, w) = new_plugin c w
           in bindo (tok_str s ti) (\<lambda>name.
              let (ok, w) = c_take w
              in if \<not> ok then bindo (pl_cleanup pl (p\<lparr>pl_name := None\<rparr>) w) (\<lambda>(_, w). Inr (None, w))
                 else
                   bindo (args_loop (length t + 1) s t t_c (i + 1) (i + 2) (p\<lparr>pl_name := Some name, argv := Null, argc := 0\<rparr>) w)
                     (\<lambda>(r, p, w).
                       case r of
                         None \<Rightarrow> bindo (pl_cleanup pl p w) (\<lambda>(_, w). Inr (None, w))
                       | Some i \<Rightarrow>
                           bindo (on_plugins (upd_pl pl (\<lambda>_. p)) w) (\<lambda>w.
                           bindo (on_plugins (fra_p_pl_add pl) w) (\<lambda>w. Inr (Some i, w))))))"

fun plugins_loop :: "nat \<Rightarrow> outer \<Rightarrow> string \<Rightarrow> jsmntok list \<Rightarrow> int \<Rightarrow> int \<Rightarrow> int \<Rightarrow> 'u conf_op" where
  "plugins_loop 0 c s t t_c o_c i w = Inl Out_of_fuel"
| "plugins_loop (Suc n) c s t t_c o_c i w =
     (if \<not> i < t_c - 1 then Inr (0, w)
      else
        bindo (tok_at t i) (\<lambda>ti.
          if parent ti \<noteq> o_c then Inr (0, w)
          else
            bindo (tok_at t o_c) (\<lambda>tc.
              if \<not> tok_end ti \<le> tok_end tc then Inr (0, w)
              else
                bindo (tok_at t (i + 1)) (\<lambda>ta.
                  if \<not> (tok_type ti = JSMN_STRING \<and> parent ta = i \<and> tok_type ta = JSMN_ARRAY) then Inr (- 1, w)
                  else
                    bindo (one_plugin c s t t_c i ti w) (\<lambda>(r, w).
                      case r of None \<Rightarrow> Inr (- 1, w) | Some i \<Rightarrow> plugins_loop n c s t t_c o_c i w)))))"

definition set_plugins :: "outer \<Rightarrow> string \<Rightarrow> jsmntok list \<Rightarrow> int \<Rightarrow> int \<Rightarrow> 'u conf_op" where
  "set_plugins c s t t_c o_c w =
     bindo (tok_at t o_c) (\<lambda>tc.
       if tok_type tc \<noteq> JSMN_OBJECT then Inr (- 1, w)
       else plugins_loop (length t + 1) c s t t_c o_c (o_c + 1) w)"

section \<open>Values\<close>

text \<open>\<open>strtol\<close> in base 10 for a text that begins with a digit, with \<open>errno\<close> set when the number is
  larger than \<open>LONG_MAX\<close>; its result goes into an \<open>int\<close>.\<close>

definition is_digit :: "char \<Rightarrow> bool" where
  "is_digit ch \<longleftrightarrow> (of_char ch :: nat) \<in> {48..57}"

definition strtol :: "string \<Rightarrow> int option" where
  "strtol s = (let n = fold (\<lambda>ch n. 10 * n + (int (of_char ch) - 48)) (takeWhile is_digit s) 0
     in if n < 2 ^ 63 then Some n else None)"

definition to_int :: "int \<Rightarrow> int" where
  "to_int n = (n + 2 ^ 31) mod 2 ^ 32 - 2 ^ 31"

definition add_elem :: "nat \<Rightarrow> string \<Rightarrow> 'u config \<Rightarrow> (bool \<times> 'u config) outcome" where
  "add_elem i x w =
     bindo (elem (str_arrs w) i) (\<lambda>a.
     bindo (case arr_v a of Null \<Rightarrow> Inr (c_take w) | Live _ \<Rightarrow> Inr (c_draw w) | Freed \<Rightarrow> Inl (Undef Use_after_free)) (\<lambda>(ok, w).
       if \<not> ok then Inr (False, w)
       else
         let (ok, w) = c_take w;
             xs = take (nat (arr_l a)) (case arr_v a of Live xs \<Rightarrow> xs | _ \<Rightarrow> []);
             a = (if ok then \<lparr>arr_v = Live (xs @ [Some x]), arr_l = arr_l a + 1\<rparr> else \<lparr>arr_v = Live (xs @ [None]), arr_l = arr_l a\<rparr>)
         in Inr (ok, w\<lparr>str_arrs := (str_arrs w)[i := a]\<rparr>)))"

fun elems_loop :: "nat \<Rightarrow> nat \<Rightarrow> string \<Rightarrow> jsmntok list \<Rightarrow> int \<Rightarrow> int \<Rightarrow> int \<Rightarrow> 'u config \<Rightarrow> (bool \<times> 'u config) outcome" where
  "elems_loop 0 k s t tok_count cur i w = Inl Out_of_fuel"
| "elems_loop (Suc n) k s t tok_count cur i w =
     (if \<not> i < tok_count then Inr (True, w)
      else
        bindo (tok_at t i) (\<lambda>ti.
          if tok_type ti \<noteq> JSMN_STRING then Inr (False, w)
          else if parent ti \<noteq> cur then Inr (True, w)
          else
            bindo (tok_str s ti) (\<lambda>x.
            bindo (add_elem k x w) (\<lambda>(ok, w).
              if \<not> ok then Inr (False, w) else elems_loop n k s t tok_count cur (i + 1) w))))"

definition set_value :: "conf \<Rightarrow> string \<Rightarrow> jsmntok list \<Rightarrow> int \<Rightarrow> int \<Rightarrow> 'u conf_op" where
  "set_value k s tok tok_count cur w =
     bindo (tok_at tok cur) (\<lambda>t.
       case c_type k of
         FRA_P_CONF_STR \<Rightarrow>
           if tok_type t \<noteq> JSMN_STRING then Inr (- 1, w)
           else bindo (tok_str s t) (\<lambda>x. bindo (bassign (c_id k) x w) (\<lambda>(rc, w). Inr (if rc \<noteq> 0 then - 1 else 0, w)))
       | FRA_P_CONF_BOOLEAN \<Rightarrow>
           if tok_type t \<noteq> JSMN_PRIMITIVE then Inr (- 1, w)
           else bindo (char_at s (tok_start t)) (\<lambda>ch.
             if ch = CHR ''t'' then set_num (c_id k) 1 w
             else if ch = CHR ''f'' then set_num (c_id k) 0 w
             else Inr (- 1, w))
       | FRA_P_CONF_NUMBER \<Rightarrow>
           bindo (char_at s (tok_start t)) (\<lambda>ch.
             if \<not> is_digit ch then Inr (- 1, w)
             else case strtol (drop (nat (tok_start t)) s) of
                 None \<Rightarrow> Inr (- 1, w) | Some val \<Rightarrow> set_num (c_id k) (to_int val) w)
       | FRA_P_CONF_STR_ARR \<Rightarrow>
           bindo (str_arr_destroy (c_id k) w) (\<lambda>w.
           bindo (if tok_type t \<noteq> JSMN_ARRAY then Inr (False, w)
                  else elems_loop (length tok + 1) (c_id k) s tok tok_count cur (cur + 1) w) (\<lambda>(ok, w).
             if ok then Inr (0, w)
             else bindo (str_arr_destroy (c_id k) w) (\<lambda>w. Inr (- 1, w)))))"

section \<open>Loading a file\<close>

text \<open>
  The labels at the end of \<open>conf_load_recurse\<close>, from the last one up. A file and a directory that
  are closed with an error are gone all the same.
\<close>

definition f_cleanup :: "'u conf_op" where
  "f_cleanup w = (let (ok, w) = c_draw w in Inr (- 1, c_drop w))"

definition f_str_cleanup :: "'u conf_op" where
  "f_str_cleanup w = f_cleanup (c_drop w)"

definition t_cleanup :: "'u conf_op" where
  "t_cleanup w = f_str_cleanup (c_drop w)"

definition r_cleanup :: "'u conf_op" where
  "r_cleanup w = t_cleanup (c_drop w)"

definition closedir :: "'u config \<Rightarrow> bool \<times> 'u config" where
  "closedir w = (let (ok, w) = c_draw w in (ok, c_drop w))"

text \<open>An entry of the loop over the values that jumps to \<open>r_cleanup\<close> has the result \<open>False\<close>.
  \<open>rec\<close> is the recursive call.\<close>

type_synonym 'u entry = "'u config \<Rightarrow> (bool \<times> 'u config) outcome"

definition include_file :: "(string \<Rightarrow> 'u conf_op) \<Rightarrow> string \<Rightarrow> jsmntok \<Rightarrow> 'u entry" where
  "include_file rec s t w =
     (if tok_type t \<noteq> JSMN_STRING then Inr (False, w)
      else bindo (tok_str s t) (\<lambda>new_filename.
        let (ok, w) = c_take w
        in if \<not> ok then Inr (False, w)
           else bindo (rec new_filename w) (\<lambda>(rc, w). Inr (rc = 0, c_drop w))))"

definition dirname_cleanup :: "'u entry" where
  "dirname_cleanup w = Inr (False, c_drop w)"

definition dir_cleanup :: "'u entry" where
  "dir_cleanup w = (let (ok, w) = closedir w in if \<not> ok then Inr (False, w) else dirname_cleanup w)"

fun dir_loop :: "(string \<Rightarrow> 'u conf_op) \<Rightarrow> string \<Rightarrow> string list \<Rightarrow> 'u entry" where
  "dir_loop rec dirname [] w =
     (let (ok, w) = closedir w in if \<not> ok then dirname_cleanup w else Inr (True, c_drop w))"
| "dir_loop rec dirname (d_name # names) w =
     (if d_name \<noteq> [] \<and> hd d_name = CHR ''.'' then dir_loop rec dirname names w
      else
        let (ok, w) = c_take w
        in if \<not> ok then dir_cleanup w
           else bindo (rec (dirname @ ''/'' @ d_name) w) (\<lambda>(rc, w).
             let w = c_drop w in if rc \<noteq> 0 then dir_cleanup w else dir_loop rec dirname names w))"

definition include_dir :: "outer \<Rightarrow> (string \<Rightarrow> 'u conf_op) \<Rightarrow> string \<Rightarrow> jsmntok \<Rightarrow> 'u entry" where
  "include_dir c rec s t w =
     (if tok_type t \<noteq> JSMN_STRING then Inr (False, w)
      else bindo (tok_str s t) (\<lambda>dirname.
        let (ok, w) = c_take w
        in if \<not> ok then Inr (False, w)
           else case list_dir c dirname of
               None \<Rightarrow> dirname_cleanup w
             | Some names \<Rightarrow>
                 let (ok, w) = c_take w in if \<not> ok then dirname_cleanup w else dir_loop rec dirname names w))"

fun set_conf :: "outer \<Rightarrow> conf list \<Rightarrow> string \<Rightarrow> string \<Rightarrow> jsmntok list \<Rightarrow> int \<Rightarrow> int \<Rightarrow> 'u entry" where
  "set_conf c [] key s t t_len i w = Inr (True, w)"
| "set_conf c (k # ks) key s t t_len i w =
     (if biseqcstr (cbs c) key (c_name k) = 1
      then bindo (set_value k s t t_len i w) (\<lambda>(rc, w). Inr (rc = 0, w))
      else set_conf c ks key s t t_len i w)"

definition one_entry :: "outer \<Rightarrow> (string \<Rightarrow> 'u conf_op) \<Rightarrow> string \<Rightarrow> jsmntok list \<Rightarrow> int \<Rightarrow> int \<Rightarrow> 'u entry" where
  "one_entry c rec s t t_len i w =
     bindo (tok_at t i) (\<lambda>ti. bindo (tok_at t (parent ti)) (\<lambda>tk. bindo (tok_str s tk) (\<lambda>key.
       if biseqcstr (cbs c) key ''include'' = 1 then include_file rec s ti w
       else if biseqcstr (cbs c) key ''include directory'' = 1 then include_dir c rec s ti w
       else if biseqcstr (cbs c) key ''enabled plugins'' = 1
         then bindo (set_plugins c s t t_len i w) (\<lambda>(rc, w). Inr (rc = 0, w))
       else set_conf c confs key s t t_len i w)))"

fun entries_loop :: "outer \<Rightarrow> (string \<Rightarrow> 'u conf_op) \<Rightarrow> string \<Rightarrow> jsmntok list \<Rightarrow> int \<Rightarrow> int list \<Rightarrow> 'u entry" where
  "entries_loop c rec s t t_len [] w = Inr (True, w)"
| "entries_loop c rec s t t_len (i # is) w =
     bindo (one_entry c rec s t t_len i w) (\<lambda>(ok, w). if \<not> ok then Inr (False, w) else entries_loop c rec s t t_len is w)"

text \<open>From the tokens on.\<close>

definition load_tokens :: "outer \<Rightarrow> (string \<Rightarrow> 'u conf_op) \<Rightarrow> string \<Rightarrow> int \<times> jsmntok list \<Rightarrow> 'u conf_op" where
  "load_tokens c rec s res w =
     (let (t_len, toks) = res; t = take (nat t_len) toks
      in if \<not> t_len > 0 then t_cleanup w
         else
           let (ok, w) = c_take w
           in case jsonpath c s t ''$.*'' of
                None \<Rightarrow> t_cleanup (if ok then c_drop w else w)
              | Some r \<Rightarrow>
                  if \<not> ok then t_cleanup w
                  else bindo (entries_loop c rec s t t_len r w) (\<lambda>(ok, w).
                    if \<not> ok then r_cleanup w
                    else
                      let (ok, w) = c_draw (c_drop (c_drop (c_drop w)))
                      in Inr (if ok then 0 else - 1, c_drop w)))"

definition load_body :: "outer \<Rightarrow> (string \<Rightarrow> 'u conf_op) \<Rightarrow> string \<Rightarrow> 'u conf_op" where
  "load_body c rec filename w =
     (case read_file c filename of
        None \<Rightarrow> Inr (- 1, w)
      | Some s \<Rightarrow>
          let (ok, w) = c_take w
          in if \<not> ok then Inr (- 1, w)
          else let (ok, w) = c_take w
          in if \<not> ok then f_cleanup w
          else let (ok, w) = c_take w
          in if \<not> ok then f_str_cleanup w
          else
            let res = jsmn_parse c s 200
            in if fst res = JSMN_ERROR_NOMEM then
                 let (ok, w) = c_draw w
                 in if \<not> ok then t_cleanup w else load_tokens c rec s (jsmn_parse c s 1200) w
               else load_tokens c rec s res w)"

text \<open>The depth of the includes is bounded by the fuel; in C a cycle of them ends when the stack is
  used up.\<close>

fun conf_load_recurse :: "outer \<Rightarrow> nat \<Rightarrow> string \<Rightarrow> 'u conf_op" where
  "conf_load_recurse c 0 filename w = Inl Out_of_fuel"
| "conf_load_recurse c (Suc n) filename w = load_body c (conf_load_recurse c n) filename w"

section \<open>The operations of the module\<close>

fun init_strings :: "outer \<Rightarrow> nat \<Rightarrow> nat \<Rightarrow> 'u conf_op" where
  "init_strings c 0 i w = Inr (0, w)"
| "init_strings c (Suc n) i w =
     (let (g, v) = bfromcstr (cbs c) (cenv w) '''' in
      bindo (elem (g_strings w) i) (\<lambda>_.
        let w = (with_cenv v w)\<lparr>g_strings := (g_strings w)[i := g]\<rparr>
        in if g = None then Inr (- 1, w) else init_strings c n (Suc i) w))"

definition fra_p_conf_init :: "outer \<Rightarrow> 'u conf_op" where
  "fra_p_conf_init c w =
     bindo (init_strings c FRA_P_CONF_STR_COUNT 0 w) (\<lambda>(rc, w).
       if rc \<noteq> 0 then Inr (- 1, w)
       else Inr (0, w\<lparr>str_arrs := replicate FRA_P_CONF_STR_ARR_COUNT \<lparr>arr_v = Null, arr_l = 0\<rparr>,
         num_or_bools := replicate FRA_P_CONF_NUM_OR_BOOL_COUNT 0\<rparr>))"

text \<open>The strings stay as they are, now without memory: \<open>g_strings\<close> is not changed.\<close>

fun destroy_arrs :: "nat \<Rightarrow> nat \<Rightarrow> 'u config \<Rightarrow> 'u config outcome" where
  "destroy_arrs 0 i w = Inr w"
| "destroy_arrs (Suc n) i w = bindo (str_arr_destroy i w) (destroy_arrs n (Suc i))"

definition fra_p_conf_deinit :: "'u config \<Rightarrow> 'u config outcome" where
  "fra_p_conf_deinit w =
     bindo (reset_plugins w) (\<lambda>w.
       destroy_arrs FRA_P_CONF_STR_ARR_COUNT 0 (with_cenv (fold free_opt (g_strings w) (cenv w)) w))"

definition fra_p_conf_load :: "outer \<Rightarrow> nat \<Rightarrow> string \<Rightarrow> 'u conf_op" where
  "fra_p_conf_load c n filename w =
     bindo (set_defaults w) (\<lambda>(rc, w). if rc \<noteq> 0 then Inr (- 1, w) else conf_load_recurse c n filename w)"

definition fra_p_conf_num_or_bool :: "nat \<Rightarrow> 'u config \<Rightarrow> int outcome" where
  "fra_p_conf_num_or_bool i w = elem (num_or_bools w) i"

definition fra_p_conf_str :: "nat \<Rightarrow> 'u config \<Rightarrow> string option outcome" where
  "fra_p_conf_str i w = elem (g_strings w) i"

definition fra_p_conf_str_arr :: "nat \<Rightarrow> 'u config \<Rightarrow> (string option list ptr \<times> int) outcome" where
  "fra_p_conf_str_arr i w = bindo (elem (str_arrs w) i) (\<lambda>a. Inr (arr_v a, arr_l a))"

end
