(* ===== verification/Conf_Safe.thy ===== *)
theory Conf_Safe
  imports Conf
begin

text \<open>
  Reading a configuration is safe whatever the files contain: as long as the includes form no
  cycle, it comes to an end, keeps the values and the list of plugins well formed and gives every
  block back.
\<close>

section \<open>What is kept\<close>

definition arr_blocks :: "str_arr \<Rightarrow> int" where
  "arr_blocks a = (case arr_v a of Live vs \<Rightarrow> 1 + int (length vs) | _ \<Rightarrow> 0)"

definition arr_ok :: "str_arr \<Rightarrow> bool" where
  "arr_ok a \<longleftrightarrow> (arr_v a = Null \<and> arr_l a = 0) \<or> (\<exists>vs. arr_v a = Live (map Some vs) \<and> arr_l a = int (length vs))"

text \<open>The values have their types: the switch is 0 or 1, the string is there, the array has its
  length.\<close>

definition values_ok :: "'u config \<Rightarrow> bool" where
  "values_ok w \<longleftrightarrow> num_or_bools w \<in> {[0], [1]} \<and> (\<exists>s. g_strings w = [Some s]) \<and> (\<exists>a. str_arrs w = [a] \<and> arr_ok a)"

definition conf_blocks :: "pl_desc list \<Rightarrow> 'u config \<Rightarrow> int" where
  "conf_blocks ds w = sum_list (map desc_blocks ds) + int (length (g_strings w)) + sum_list (map arr_blocks (str_arrs w))"

text \<open>\<open>k\<close> is the number of live blocks that do not belong to the configuration.\<close>

definition conf_ok :: "int \<Rightarrow> 'u config \<Rightarrow> bool" where
  "conf_ok k w \<longleftrightarrow> calm (cenv w) \<and> values_ok w \<and>
     (\<exists>xs ds. pl_inv (cf_pl w) xs ds \<and> dom (cells (pls (cf_pl w))) = set xs \<and> live (cenv w) = k + conf_blocks ds w)"

definition c_add :: "int \<Rightarrow> 'u config \<Rightarrow> 'u config" where
  "c_add n w = with_cenv ((cenv w)\<lparr>live := live (cenv w) + n\<rparr>) w"

lemma with_cenv_same [simp]: "with_cenv (cenv w) w = w"
  by (simp add: with_cenv_def)

lemma with_cenv_simps [simp]:
  "cenv (with_cenv v w) = v" "num_or_bools (with_cenv v w) = num_or_bools w" "g_strings (with_cenv v w) = g_strings w"
  "str_arrs (with_cenv v w) = str_arrs w" "with_cenv v' (with_cenv v w) = with_cenv v' w"
  "pls (cf_pl (with_cenv v w)) = pls (cf_pl w)"
  by (simp_all add: with_cenv_def)

lemma c_add_simps [simp]:
  "num_or_bools (c_add n w) = num_or_bools w" "g_strings (c_add n w) = g_strings w" "str_arrs (c_add n w) = str_arrs w"
  "calm (cenv (c_add n w)) = calm (cenv w)" "live (cenv (c_add n w)) = live (cenv w) + n"
  "c_add n (c_add m w) = c_add (m + n) w" "c_add 0 w = w"
  by (simp_all add: c_add_def add.assoc)

lemma c_draw_calm: "calm (cenv w) \<Longrightarrow> c_draw w = (True, w)"
  by (simp add: c_draw_def draw_calm)

lemma c_take_calm: "calm (cenv w) \<Longrightarrow> c_take w = (True, c_add 1 w)"
  by (simp add: c_take_def take_block_calm c_add_def)

lemma c_drop_add: "c_drop w = c_add (- 1) w"
  by (simp add: c_drop_def c_add_def drop_block_def)

lemma pl_inv_env [simp]: "pl_inv (p\<lparr>pl_env := v\<rparr>) xs ds = pl_inv p xs ds"
  by (simp add: pl_inv_def)

lemma values_ok_add [simp]: "values_ok (c_add n w) = values_ok w"
  by (simp add: values_ok_def)

lemma conf_ok_add: "conf_ok k w \<Longrightarrow> conf_ok (k + n) (c_add n w)"
proof -
  assume ok: "conf_ok k w"
  then obtain xs ds where x: "pl_inv (cf_pl w) xs ds" "dom (cells (pls (cf_pl w))) = set xs" "live (cenv w) = k + conf_blocks ds w"
    by (auto simp: conf_ok_def)
  have "pl_inv (cf_pl (c_add n w)) xs ds" "dom (cells (pls (cf_pl (c_add n w)))) = set xs"
    using x(1,2) by (simp_all add: c_add_def with_cenv_def)
  moreover have "live (cenv (c_add n w)) = k + n + conf_blocks ds (c_add n w)" using x(3) by (simp add: conf_blocks_def)
  ultimately show ?thesis using ok by (auto simp: conf_ok_def)
qed

lemma conf_ok_calm: "conf_ok k w \<Longrightarrow> calm (cenv w)"
  by (simp add: conf_ok_def)

lemma conf_ok_take: "conf_ok k w \<Longrightarrow> c_take w = (True, c_add 1 w)" and conf_ok_draw: "conf_ok k w \<Longrightarrow> c_draw w = (True, w)"
  by (simp_all add: conf_ok_calm c_take_calm c_draw_calm)

lemma conf_ok_drop: "conf_ok (k + 1) w \<Longrightarrow> conf_ok k (c_drop w)"
  using conf_ok_add [of "k + 1" w "- 1"] by (simp add: c_drop_add)

section \<open>Setting values\<close>

lemma set_bool_ok: "conf_ok k w \<Longrightarrow> b \<in> {0, 1} \<Longrightarrow> \<exists>w'. set_num 0 b w = Inr (0, w') \<and> conf_ok k w' \<and> num_or_bools w' = [b]"
  by (auto simp: set_num_def elem_def conf_ok_def values_ok_def conf_blocks_def)

lemma bassign_ok:
  assumes "conf_ok k w"
  shows "\<exists>w'. bassign 0 s w = Inr (0, w') \<and> conf_ok k w'"
proof -
  obtain g where g: "g_strings w = [Some g]" using assms by (auto simp: conf_ok_def values_ok_def)
  have "bassign 0 s w = Inr (0, w\<lparr>g_strings := [Some s]\<rparr>)" by (simp add: bassign_def elem_def g conf_ok_draw [OF assms])
  moreover have "conf_ok k (w\<lparr>g_strings := [Some s]\<rparr>)" using assms g by (simp add: conf_ok_def values_ok_def conf_blocks_def)
  ultimately show ?thesis by blast
qed

lemma free_args_live:
  "free_args (int (length vs)) (Live (map Some vs)) v = Inr (v\<lparr>live := live v - int (length vs)\<rparr>)"
  by (cases vs) (simp_all add: free_args_def fold_free_opt free_opt_def drop_block_def)

lemma str_arrs_ok:
  assumes "conf_ok k w"
  obtains a where "str_arrs w = [a]" and "arr_ok a"
  using assms by (auto simp: conf_ok_def values_ok_def)

text \<open>Another array, with its blocks.\<close>

lemma conf_ok_arr:
  assumes ok: "conf_ok k w" and a: "str_arrs w = [a]" and b: "arr_ok b" "n = arr_blocks b - arr_blocks a"
  shows "conf_ok k ((c_add n w)\<lparr>str_arrs := [b]\<rparr>)"
proof -
  obtain xs ds where x: "pl_inv (cf_pl w) xs ds" "dom (cells (pls (cf_pl w))) = set xs" "live (cenv w) = k + conf_blocks ds w"
    using ok by (auto simp: conf_ok_def)
  let ?w = "(c_add n w)\<lparr>str_arrs := [b]\<rparr>"
  have "pl_inv (cf_pl ?w) xs ds" "dom (cells (pls (cf_pl ?w))) = set xs"
    using x(1,2) by (simp_all add: c_add_def with_cenv_def)
  moreover have "live (cenv ?w) = k + conf_blocks ds ?w" using x(3) a b(2) by (simp add: conf_blocks_def)
  moreover have "values_ok ?w" using ok b(1) by (simp add: conf_ok_def values_ok_def)
  ultimately show ?thesis using ok by (auto simp: conf_ok_def)
qed

lemma str_arr_destroy_ok:
  assumes ok: "conf_ok k w"
  shows "\<exists>w'. str_arr_destroy 0 w = Inr w' \<and> conf_ok k w' \<and> str_arrs w' = [\<lparr>arr_v = Null, arr_l = 0\<rparr>]"
proof -
  obtain a where a: "str_arrs w = [a]" "arr_ok a" using ok by (rule str_arrs_ok)
  let ?w = "(c_add (- arr_blocks a) w)\<lparr>str_arrs := [\<lparr>arr_v = Null, arr_l = 0\<rparr>]\<rparr>"
  have run: "str_arr_destroy 0 w = Inr ?w"
    using a(2) unfolding arr_ok_def
  proof (elim disjE exE conjE)
    fix vs assume vs: "arr_v a = Live (map Some vs)" "arr_l a = int (length vs)"
    then show ?thesis
      by (simp add: str_arr_destroy_def elem_def a(1) free_args_live free_ptr_def arr_blocks_def drop_block_def c_add_def algebra_simps)
  qed (simp add: str_arr_destroy_def elem_def a(1) free_args_def free_ptr_def arr_blocks_def c_add_def)
  have "conf_ok k ?w" using conf_ok_arr [OF ok a(1), of "\<lparr>arr_v = Null, arr_l = 0\<rparr>"] by (simp add: arr_ok_def arr_blocks_def)
  with run show ?thesis by simp
qed

lemma add_elem_ok:
  assumes ok: "conf_ok k w"
  shows "\<exists>w'. add_elem 0 x w = Inr (True, w') \<and> conf_ok k w'"
proof -
  obtain a where a: "str_arrs w = [a]" "arr_ok a" using ok by (rule str_arrs_ok)
  obtain vs n where vs: "\<lparr>arr_v = Live (map Some vs), arr_l = int (length vs)\<rparr> = \<lparr>arr_v = Live (take (nat (arr_l a)) (case arr_v a of Live xs \<Rightarrow> xs | _ \<Rightarrow> []) @ [Some x]), arr_l = arr_l a + 1\<rparr>"
    using a(2) that [of "(case arr_v a of Live xs \<Rightarrow> map the xs | _ \<Rightarrow> []) @ [x]"] unfolding arr_ok_def
    by (auto simp: comp_def)
  let ?b = "\<lparr>arr_v = Live (map Some vs), arr_l = int (length vs)\<rparr>"
  let ?w = "(c_add (arr_blocks ?b - arr_blocks a) w)\<lparr>str_arrs := [?b]\<rparr>"
  have "add_elem 0 x w = Inr (True, ?w)"
    using a(2) vs unfolding arr_ok_def
    by (elim disjE exE conjE) (simp_all add: add_elem_def elem_def a(1) c_take_calm c_draw_calm conf_ok_calm [OF ok] arr_blocks_def)
  moreover have "conf_ok k ?w" using conf_ok_arr [OF ok a(1), of ?b] by (simp add: arr_ok_def)
  ultimately show ?thesis by blast
qed

section \<open>Tokens\<close>

definition tok_good :: "string \<Rightarrow> jsmntok \<Rightarrow> bool" where
  "tok_good s t \<longleftrightarrow> 0 \<le> tok_start t \<and> tok_start t \<le> tok_end t \<and> tok_end t \<le> int (length s)"

definition toks_good :: "string \<Rightarrow> jsmntok list \<Rightarrow> bool" where
  "toks_good s t \<longleftrightarrow> (\<forall>x \<in> set t. tok_good s x)"

lemma tok_at_good: "toks_good s t \<Longrightarrow> 0 \<le> i \<Longrightarrow> i < int (length t) \<Longrightarrow> \<exists>x. tok_at t i = Inr x \<and> tok_good s x"
  by (auto simp: toks_good_def tok_at_def nat_less_iff)

lemma tok_str_good: "tok_good s t \<Longrightarrow> \<exists>x. tok_str s t = Inr x"
  by (auto simp: tok_good_def tok_str_def substr_def)

lemma char_at_good: "tok_good s t \<Longrightarrow> \<exists>x. char_at s (tok_start t) = Inr x"
  by (auto simp: tok_good_def char_at_def)

lemma elems_loop_ok:
  assumes t: "toks_good s t"
  shows "conf_ok k w \<Longrightarrow> 0 \<le> i \<Longrightarrow> i \<le> int (length t) \<Longrightarrow> int (length t) < i + int n \<Longrightarrow>
    \<exists>b w'. elems_loop n 0 s t (int (length t)) cur i w = Inr (b, w') \<and> conf_ok k w'"
proof (induction n arbitrary: i w)
  case (Suc n)
  show ?case
  proof (cases "i < int (length t)")
    case True
    obtain x where x: "tok_at t i = Inr x" "tok_good s x" using tok_at_good [OF t Suc.prems(2) True] by blast
    obtain z where z: "tok_str s x = Inr z" using tok_str_good [OF x(2)] by blast
    obtain w1 where w1: "add_elem 0 z w = Inr (True, w1)" "conf_ok k w1" using add_elem_ok [OF Suc.prems(1)] by blast
    obtain b w' where "elems_loop n 0 s t (int (length t)) cur (i + 1) w1 = Inr (b, w')" "conf_ok k w'"
      using Suc.IH [OF w1(2), of "i + 1"] Suc.prems(2,4) True by auto
    then show ?thesis using True x z w1 Suc.prems(1) by auto
  qed (use Suc.prems(1) in auto)
qed simp

text \<open>Setting a value of a type that the table has.\<close>

lemma set_value_ok:
  assumes ok: "conf_ok k w" and t: "toks_good s t" and i: "0 \<le> i" "i < int (length t)"
    and c: "c_id e = 0" "c_type e \<noteq> FRA_P_CONF_NUMBER"
  shows "\<exists>rc w'. set_value e s t (int (length t)) i w = Inr (rc, w') \<and> conf_ok k w'"
proof -
  obtain x where x: "tok_at t i = Inr x" "tok_good s x" using tok_at_good [OF t i] by blast
  show ?thesis
  proof (cases "c_type e")
    case FRA_P_CONF_STR
    obtain z where z: "tok_str s x = Inr z" using tok_str_good [OF x(2)] by blast
    obtain w' where "bassign 0 z w = Inr (0, w')" "conf_ok k w'" using bassign_ok [OF ok] by blast
    then show ?thesis using FRA_P_CONF_STR ok by (simp add: set_value_def x(1) z c(1))
  next
    case FRA_P_CONF_BOOLEAN
    obtain ch where ch: "char_at s (tok_start x) = Inr ch" using char_at_good [OF x(2)] by blast
    show ?thesis using FRA_P_CONF_BOOLEAN ok set_bool_ok [OF ok, of 0] set_bool_ok [OF ok, of 1]
      by (auto simp: set_value_def x(1) ch c(1))
  next
    case FRA_P_CONF_STR_ARR
    obtain w1 where w1: "str_arr_destroy 0 w = Inr w1" "conf_ok k w1" using str_arr_destroy_ok [OF ok] by blast
    obtain b w2 where w2: "(if tok_type x \<noteq> JSMN_ARRAY then Inr (False, w1)
        else elems_loop (length t + 1) 0 s t (int (length t)) i (i + 1) w1) = Inr (b, w2)" "conf_ok k w2"
      using elems_loop_ok [OF t w1(2), of "i + 1" "length t + 1" i] i w1(2) by (cases "tok_type x = JSMN_ARRAY") (auto simp del: elems_loop.simps)
    obtain w3 where "str_arr_destroy 0 w2 = Inr w3" "conf_ok k w3" using str_arr_destroy_ok [OF w2(2)] by blast
    moreover have "set_value e s t (int (length t)) i w = (if b then Inr (0, w2) else bindo (str_arr_destroy 0 w2) (\<lambda>w. Inr (- 1, w)))"
      unfolding set_value_def x(1) c(1) bindo_Inr FRA_P_CONF_STR_ARR fra_p_conf_type.case w1(1) w2(1) by simp
    ultimately show ?thesis using w2(2) by (cases b) simp_all
  qed (use c(2) in simp)
qed

section \<open>Plugins\<close>

lemma put_arg_describes: "describes (name, args) p \<Longrightarrow> describes (name, args @ [x]) (put_arg (Some x) p)"
  by (cases "args = []") (simp_all add: put_arg_def)

lemma add_arg_ok:
  assumes "calm (cenv w)" and "describes (name, args) p" and "tok_good s t"
  shows "add_arg s t p w = Inr (False, p, w) \<or>
    (\<exists>x. add_arg s t p w = Inr (True, put_arg (Some x) p, c_add (desc_blocks (name, args @ [x]) - desc_blocks (name, args)) w))"
proof -
  obtain x where x: "tok_str s t = Inr x" using tok_str_good [OF assms(3)] by blast
  have "realloc_args p w = Inr (True, c_add (if args = [] then 1 else 0) w)"
    using assms(1,2) by (auto simp: realloc_args_def c_take_calm c_draw_calm)
  then show ?thesis using assms(1) x by (auto simp: add_arg_def c_take_calm)
qed

lemma args_loop_ok:
  assumes t: "toks_good s t" and cur: "0 \<le> cur" "cur < int (length t)"
  shows "calm (cenv w) \<Longrightarrow> describes (name, args) p \<Longrightarrow> 0 \<le> i \<Longrightarrow> i \<le> int (length t) \<Longrightarrow> int (length t) < i + int n \<Longrightarrow>
    \<exists>r p' args'. args_loop n s t (int (length t)) cur i p w =
        Inr (r, p', c_add (desc_blocks (name, args') - desc_blocks (name, args)) w) \<and>
      describes (name, args') p' \<and> (\<forall>j. r = Some j \<longrightarrow> i \<le> j \<and> j \<le> int (length t))"
proof (induction n arbitrary: i p w args)
  case (Suc n)
  have stop: ?case if "args_loop (Suc n) s t (int (length t)) cur i p w = Inr (r, p, w)" "r = Some i \<or> r = None" for r
    using that Suc.prems(2,4) by (intro exI [of _ r] exI [of _ p] exI [of _ args]) auto
  show ?case
  proof (cases "i < int (length t)")
    case True
    obtain x where x: "tok_at t i = Inr x" "tok_good s x" using tok_at_good [OF t Suc.prems(3) True] by blast
    obtain y where y: "tok_at t cur = Inr y" using tok_at_good [OF t cur] by blast
    show ?thesis
    proof (cases "parent x = cur \<and> tok_end x \<le> tok_end y")
      case go: True
      have run: "args_loop (Suc n) s t (int (length t)) cur i p w = bindo (add_arg s x p w) (\<lambda>(ok, p, w).
          if \<not> ok then Inr (None, p, w) else args_loop n s t (int (length t)) cur (i + 1) p w)"
        using True go by (simp add: x(1) y)
      from add_arg_ok [OF Suc.prems(1,2) x(2)] show ?thesis
      proof
        assume "add_arg s x p w = Inr (False, p, w)"
        then show ?thesis using stop [of None] run by simp
      next
        assume "\<exists>a. add_arg s x p w = Inr (True, put_arg (Some a) p, c_add (desc_blocks (name, args @ [a]) - desc_blocks (name, args)) w)"
        then obtain a where a: "add_arg s x p w = Inr (True, put_arg (Some a) p, c_add (desc_blocks (name, args @ [a]) - desc_blocks (name, args)) w)"
          by blast
        let ?w = "c_add (desc_blocks (name, args @ [a]) - desc_blocks (name, args)) w"
        have calm: "calm (cenv ?w)" using Suc.prems(1) by simp
        have "\<exists>r p' args'. args_loop n s t (int (length t)) cur (i + 1) (put_arg (Some a) p) ?w =
            Inr (r, p', c_add (desc_blocks (name, args') - desc_blocks (name, args @ [a])) ?w) \<and>
          describes (name, args') p' \<and> (\<forall>j. r = Some j \<longrightarrow> i + 1 \<le> j \<and> j \<le> int (length t))"
          by (rule Suc.IH [OF calm put_arg_describes [OF Suc.prems(2)]]) (use Suc.prems(3,5) True in simp_all)
        then obtain r p' args' where "args_loop n s t (int (length t)) cur (i + 1) (put_arg (Some a) p) ?w =
            Inr (r, p', c_add (desc_blocks (name, args') - desc_blocks (name, args @ [a])) ?w)"
          "describes (name, args') p'" "\<forall>j. r = Some j \<longrightarrow> i + 1 \<le> j \<and> j \<le> int (length t)"
          by blast
        then show ?thesis using a run
          by (intro exI [of _ r] exI [of _ p'] exI [of _ args']) auto
      qed
    qed (use stop [of "Some i"] True in \<open>auto simp: x(1) y\<close>)
  qed (use stop [of "Some i"] in simp)
qed simp

text \<open>A new object, not yet in the list.\<close>

abbreviation new_at :: "'u config \<Rightarrow> addr" where
  "new_at w \<equiv> brk (pls (cf_pl w))"

definition with_new :: "plugin \<Rightarrow> 'u config \<Rightarrow> 'u config" where
  "with_new p w = w\<lparr>cf_pl := (cf_pl w)\<lparr>pls := (pls (cf_pl w))\<lparr>cells := (cells (pls (cf_pl w)))(new_at w := Some p), brk := Suc (new_at w)\<rparr>\<rparr>\<rparr>"

lemma new_plugin_eq: "new_plugin c w = (new_at w, junk_pl c (new_at w), with_new (junk_pl c (new_at w)) w)"
  by (simp add: new_plugin_def hnew_def with_new_def Let_def)

lemma with_new_simps [simp]:
  "num_or_bools (with_new p w) = num_or_bools w" "g_strings (with_new p w) = g_strings w" "str_arrs (with_new p w) = str_arrs w"
  "cenv (with_new p w) = cenv w"
  by (simp_all add: with_new_def)

lemma pl_inv_new:
  assumes "pl_inv (cf_pl w) xs ds"
  shows "pl_inv ((cf_pl (with_new p w))\<lparr>pl_env := v\<rparr>) xs ds" and "cells (pls (cf_pl w)) (new_at w) = None" and "new_at w \<notin> set xs"
    and "0 < new_at w"
proof -
  have ok: "heap_ok (pls (cf_pl w))" and ch: "chain pl_next (cells (pls (cf_pl w))) (g_first (cf_pl w)) xs"
    using assms by (auto simp: pl_inv_def)
  show free: "cells (pls (cf_pl w)) (new_at w) = None" using ok by (auto simp: heap_ok_def)
  show "new_at w \<notin> set xs" using chain_bound [OF ok ch] by blast
  show "0 < new_at w" using ok by (simp add: heap_ok_def)
  have "heap_ok ((pls (cf_pl w))\<lparr>cells := (cells (pls (cf_pl w)))(new_at w := Some p), brk := Suc (new_at w)\<rparr>)"
    using ok by (auto simp: heap_ok_def less_Suc_eq)
  moreover have "list_all2 (\<lambda>x d. \<exists>q. ((cells (pls (cf_pl w)))(new_at w := Some p)) x = Some q \<and> describes d q) xs ds"
    using assms free by (auto simp: pl_inv_def elim!: list.rel_mono_strong)
  ultimately show "pl_inv ((cf_pl (with_new p w))\<lparr>pl_env := v\<rparr>) xs ds"
    using assms \<open>new_at w \<notin> set xs\<close> by (simp add: pl_inv_def with_new_def chain_upd_other)
qed

lemma put_new:
  assumes "pl_inv (cf_pl w) xs ds"
  shows "on_plugins (upd_pl (new_at w) (\<lambda>_. p')) (c_add n (with_new p w)) = Inr (c_add n (with_new p' w))"
proof -
  have ok: "heap_ok (pls (cf_pl (with_new p w)))" using pl_inv_new(1) [OF assms, where p = p] by (simp add: pl_inv_def)
  have "hupd (new_at w) (\<lambda>_. p') (pls (cf_pl (with_new p w))) = Inr (pls (cf_pl (with_new p' w)))"
    using hupd_ok [OF ok, of "new_at w" p "\<lambda>_. p'"] by (simp add: with_new_def)
  then show ?thesis by (simp add: on_plugins_def upd_pl_def c_add_def with_cenv_def) (simp add: with_new_def)
qed

lemma pl_cleanup_ok:
  assumes ok: "conf_ok k w" and d: "describes d p'"
  shows "\<exists>w'. pl_cleanup (new_at w) p' (c_add (desc_blocks d) (with_new p w)) = Inr (- 1, w') \<and> conf_ok k w'"
proof -
  obtain xs ds where x: "pl_inv (cf_pl w) xs ds" "dom (cells (pls (cf_pl w))) = set xs" "live (cenv w) = k + conf_blocks ds w"
    using ok by (auto simp: conf_ok_def)
  note new = pl_inv_new [OF x(1)]
  let ?w = "w\<lparr>cf_pl := (cf_pl w)\<lparr>pls := (pls (cf_pl w))\<lparr>brk := Suc (new_at w)\<rparr>\<rparr>\<rparr>"
  have upd: "(cells (pls (cf_pl w)))(new_at w := Some p', new_at w := None) = cells (pls (cf_pl w))"
    using new(2) by (simp add: fun_upd_idem)
  have inv: "pl_inv (cf_pl (c_add (desc_blocks d) (with_new p' w))) xs ds" using new(1) by (simp add: c_add_def with_cenv_def)
  have free: "fra_p_pl_free (new_at w) (cf_pl (c_add (desc_blocks d) (with_new p' w))) = Inr (cf_pl ?w)"
    using pl_free_ok [of "cf_pl (c_add (desc_blocks d) (with_new p' w))" "new_at w" p' d] inv d upd
    by (simp add: pl_inv_def c_add_def with_cenv_def) (simp add: with_new_def)
  have "(c_add (desc_blocks d) (with_new p' w))\<lparr>cf_pl := cf_pl ?w\<rparr> = ?w"
    by (simp add: c_add_def with_cenv_def with_new_def)
  then have "on_plugins (fra_p_pl_free (new_at w)) (c_add (desc_blocks d) (with_new p' w)) = Inr ?w"
    by (simp only: on_plugins_def free bindo_Inr)
  then have "pl_cleanup (new_at w) p' (c_add (desc_blocks d) (with_new p w)) = Inr (- 1, ?w)"
    by (simp only: pl_cleanup_def put_new [OF x(1)] bindo_Inr)
  moreover have "conf_ok k ?w"
  proof -
    have "pl_inv (cf_pl ?w) xs ds" using x(1) by (auto simp: pl_inv_def heap_ok_def)
    then show ?thesis using ok x(2,3) unfolding conf_ok_def
      by (intro conjI exI [of _ xs] exI [of _ ds]) (simp_all add: values_ok_def conf_blocks_def)
  qed
  ultimately show ?thesis by blast
qed

lemma add_new_ok:
  assumes ok: "conf_ok k w" and x: "pl_inv (cf_pl w) xs ds" "dom (cells (pls (cf_pl w))) = set xs" "live (cenv w) = k + conf_blocks ds w"
    and d: "describes d p"
  shows "\<exists>w' a. on_plugins (fra_p_pl_add (new_at w)) (c_add (desc_blocks d) (with_new p w)) = Inr w' \<and> conf_ok k w' \<and>
    pl_inv (cf_pl w') (xs @ [a]) (ds @ [d]) \<and> dom (cells (pls (cf_pl w'))) = set (xs @ [a]) \<and> live (cenv w') = k + conf_blocks (ds @ [d]) w' \<and>
    num_or_bools w' = num_or_bools w \<and> outside (cf_pl w') = outside (cf_pl w) \<and> pl_events (cf_pl w') = pl_events (cf_pl w)"
proof -
  let ?w = "c_add (desc_blocks d) (with_new p w)"
  note new = pl_inv_new [OF x(1)]
  have inv: "pl_inv (cf_pl ?w) xs ds" using new(1) by (simp add: c_add_def with_cenv_def)
  have c: "cells (pls (cf_pl ?w)) = (cells (pls (cf_pl w)))(new_at w := Some p)" by (simp add: c_add_def with_new_def)
  obtain q where q: "fra_p_pl_add (new_at w) (cf_pl ?w) = Inr q" "pl_inv q (xs @ [new_at w]) (ds @ [d])" "pl_env q = cenv ?w"
    "\<forall>a. a \<notin> set xs \<longrightarrow> a \<noteq> new_at w \<longrightarrow> cells (pls q) a = cells (pls (cf_pl ?w)) a"
    "outside q = outside (cf_pl ?w)" "pl_events q = pl_events (cf_pl ?w)"
    using pl_add_ok [OF inv, of "new_at w" p d] c d new(3) by auto
  let ?w' = "?w\<lparr>cf_pl := q\<rparr>"
  have "dom (cells (pls q)) = set (xs @ [new_at w])"
  proof
    show "dom (cells (pls q)) \<subseteq> set (xs @ [new_at w])"
    proof
      fix a assume a: "a \<in> dom (cells (pls q))"
      show "a \<in> set (xs @ [new_at w])"
      proof (rule ccontr)
        assume n: "a \<notin> set (xs @ [new_at w])"
        then have "cells (pls q) a = cells (pls (cf_pl w)) a" using q(4) c by simp
        then show False using a n x(2) by (auto simp: domIff)
      qed
    qed
    show "set (xs @ [new_at w]) \<subseteq> dom (cells (pls q))"
      using q(2) chain_live by (fastforce simp: pl_inv_def)
  qed
  moreover have "live (cenv ?w') = k + conf_blocks (ds @ [d]) ?w'" using x(3) q(3) by (simp add: conf_blocks_def)
  moreover have "values_ok ?w'" "calm (cenv ?w')" using ok q(3) by (simp_all add: conf_ok_def values_ok_def)
  moreover have "outside q = outside (cf_pl w)" "pl_events q = pl_events (cf_pl w)"
    using q(5,6) by (simp_all add: c_add_def with_cenv_def with_new_def)
  ultimately show ?thesis using q(1,2)
    by (intro exI [of _ ?w'] exI [of _ "new_at w"])
      (simp add: on_plugins_def conf_ok_def, intro exI [of _ "xs @ [new_at w]"] exI [of _ "ds @ [d]"], simp)
qed

text \<open>The body of the loop, given what the loop over the arguments does.\<close>

definition fresh_pl :: "outer \<Rightarrow> string \<Rightarrow> 'u config \<Rightarrow> plugin" where
  "fresh_pl c name w = (junk_pl c (new_at w))\<lparr>pl_name := Some name, argv := Null, argc := 0\<rparr>"

lemma fresh_pl_describes: "describes (name, []) (fresh_pl c name w)"
  by (simp add: fresh_pl_def)

lemma one_plugin_run:
  assumes ok: "conf_ok k w" and name: "tok_str s ti = Inr name"
    and args: "args_loop (length t + 1) s t t_c (i + 1) (i + 2) (fresh_pl c name w) (c_add 1 (with_new (junk_pl c (new_at w)) w)) =
      Inr (r, p, c_add m (c_add 1 (with_new (junk_pl c (new_at w)) w)))"
    and d: "describes d p" and m: "1 + m = desc_blocks d"
  shows "one_plugin c s t t_c i ti w = (case r of
      None \<Rightarrow> bindo (pl_cleanup (new_at w) p (c_add (desc_blocks d) (with_new (junk_pl c (new_at w)) w))) (\<lambda>(_, w). Inr (None, w))
    | Some i \<Rightarrow> bindo (on_plugins (fra_p_pl_add (new_at w)) (c_add (desc_blocks d) (with_new p w))) (\<lambda>w. Inr (Some i, w)))"
proof -
  obtain xs ds where x: "pl_inv (cf_pl w) xs ds" using ok by (auto simp: conf_ok_def)
  have take: "c_take (with_new (junk_pl c (new_at w)) w) = (True, c_add 1 (with_new (junk_pl c (new_at w)) w))"
    using conf_ok_calm [OF ok] by (simp add: c_take_calm)
  have add: "c_add m (c_add 1 (with_new (junk_pl c (new_at w)) w)) = c_add (desc_blocks d) (with_new (junk_pl c (new_at w)) w)"
    using m by simp
  show ?thesis
    unfolding one_plugin_def conf_ok_draw [OF ok] new_plugin_eq Let_def case_prod_conv name bindo_Inr take
      args [unfolded fresh_pl_def] add if_False not_True_eq_False
    by (cases r) (simp_all add: put_new [OF x])
qed

lemma one_plugin_ok:
  assumes ok: "conf_ok k w" and t: "toks_good s t" and i: "0 \<le> i" "i + 1 < int (length t)" and ti: "tok_good s ti"
  shows "\<exists>r w'. one_plugin c s t (int (length t)) i ti w = Inr (r, w') \<and> conf_ok k w' \<and> (\<forall>j. r = Some j \<longrightarrow> i < j \<and> j \<le> int (length t))"
proof -
  obtain xs ds where x: "pl_inv (cf_pl w) xs ds" "dom (cells (pls (cf_pl w))) = set xs" "live (cenv w) = k + conf_blocks ds w"
    using ok by (auto simp: conf_ok_def)
  obtain name where name: "tok_str s ti = Inr name" using tok_str_good [OF ti] by blast
  let ?w1 = "c_add 1 (with_new (junk_pl c (new_at w)) w)"
  have calm: "calm (cenv ?w1)" using conf_ok_calm [OF ok] by simp
  have "\<exists>r p args. args_loop (length t + 1) s t (int (length t)) (i + 1) (i + 2) (fresh_pl c name w) ?w1 =
        Inr (r, p, c_add (desc_blocks (name, args) - desc_blocks (name, [])) ?w1) \<and>
      describes (name, args) p \<and> (\<forall>j. r = Some j \<longrightarrow> i + 2 \<le> j \<and> j \<le> int (length t))"
    by (rule args_loop_ok [OF t _ _ calm fresh_pl_describes]) (use i in simp_all)
  then obtain r p args where a: "args_loop (length t + 1) s t (int (length t)) (i + 1) (i + 2) (fresh_pl c name w) ?w1 =
        Inr (r, p, c_add (desc_blocks (name, args) - desc_blocks (name, [])) ?w1)"
      "describes (name, args) p" "\<forall>j. r = Some j \<longrightarrow> i + 2 \<le> j \<and> j \<le> int (length t)"
    by blast
  note run = one_plugin_run [OF ok name a(1,2)]
  show ?thesis
  proof (cases r)
    case None
    obtain w' where "pl_cleanup (new_at w) p (c_add (desc_blocks (name, args)) (with_new (junk_pl c (new_at w)) w)) = Inr (- 1, w')" "conf_ok k w'"
      using pl_cleanup_ok [OF ok a(2)] by blast
    with run None show ?thesis by simp
  next
    case (Some j)
    obtain w' where "on_plugins (fra_p_pl_add (new_at w)) (c_add (desc_blocks (name, args)) (with_new p w)) = Inr w'" "conf_ok k w'"
      using add_new_ok [OF ok x a(2)] by blast
    with run Some a(3) show ?thesis by (intro exI [of _ r] exI [of _ w']) simp
  qed
qed

lemma plugins_loop_ok:
  assumes t: "toks_good s t" and o_c: "0 \<le> o_c" "o_c < int (length t)"
  shows "conf_ok k w \<Longrightarrow> 0 \<le> i \<Longrightarrow> i \<le> int (length t) \<Longrightarrow> int (length t) < i + int n \<Longrightarrow>
    \<exists>rc w'. plugins_loop n c s t (int (length t)) o_c i w = Inr (rc, w') \<and> conf_ok k w'"
proof (induction n arbitrary: i w)
  case (Suc n)
  show ?case
  proof (cases "i < int (length t) - 1")
    case True
    obtain ti where ti: "tok_at t i = Inr ti" "tok_good s ti" using tok_at_good [OF t Suc.prems(2)] True by auto
    obtain ta where ta: "tok_at t (i + 1) = Inr ta" using tok_at_good [OF t, of "i + 1"] Suc.prems(2) True by auto
    obtain tc where tc: "tok_at t o_c = Inr tc" using tok_at_good [OF t o_c] by blast
    obtain r w1 where one: "one_plugin c s t (int (length t)) i ti w = Inr (r, w1)" "conf_ok k w1"
      "\<forall>j. r = Some j \<longrightarrow> i < j \<and> j \<le> int (length t)"
      using one_plugin_ok [OF Suc.prems(1) t Suc.prems(2) _ ti(2), of c] True by auto
    show ?thesis
    proof (cases r)
      case (Some j)
      then obtain rc w' where "plugins_loop n c s t (int (length t)) o_c j w1 = Inr (rc, w')" "conf_ok k w'"
        using Suc.IH [OF one(2), of j] one(3) Suc.prems(2,4) by auto
      with Some True ti ta tc one(1) Suc.prems(1) show ?thesis by auto
    qed (use True ti ta tc one(1,2) Suc.prems(1) in auto)
  qed (use Suc.prems(1) in auto)
qed simp

lemma set_plugins_ok:
  assumes "conf_ok k w" and t: "toks_good s t" and i: "0 \<le> i" "i < int (length t)"
  shows "\<exists>rc w'. set_plugins c s t (int (length t)) i w = Inr (rc, w') \<and> conf_ok k w'"
proof -
  obtain x where x: "tok_at t i = Inr x" using tok_at_good [OF t i] by blast
  obtain rc w' where "plugins_loop (length t + 1) c s t (int (length t)) i (i + 1) w = Inr (rc, w')" "conf_ok k w'"
    using plugins_loop_ok [OF t i assms(1), of "i + 1" "length t + 1" c] i by auto
  then show ?thesis using assms(1) x unfolding set_plugins_def by (cases "tok_type x = JSMN_OBJECT") auto
qed

section \<open>Files\<close>

text \<open>
  What the documentation of jsmn, jsmn-jsonpath and bstrlib promises: tokens are pieces of the
  text, and the search for \<open>$.*\<close> gives values, each with its key as parent.
\<close>

definition tokens_of :: "outer \<Rightarrow> string \<Rightarrow> int \<times> jsmntok list" where
  "tokens_of c s = (if fst (jsmn_parse c s 200) = JSMN_ERROR_NOMEM then jsmn_parse c s 1200 else jsmn_parse c s 200)"

definition toks :: "outer \<Rightarrow> string \<Rightarrow> jsmntok list" where
  "toks c s = take (nat (fst (tokens_of c s))) (snd (tokens_of c s))"

definition outer_ok :: "outer \<Rightarrow> bool" where
  "outer_ok c \<longleftrightarrow> bstr_ok (cbs c) \<and>
     (\<forall>f s. read_file c f = Some s \<longrightarrow> 0 < fst (tokens_of c s) \<longrightarrow>
        int (length (toks c s)) = fst (tokens_of c s) \<and> toks_good s (toks c s) \<and>
        (\<forall>is. jsonpath c s (toks c s) ''$.*'' = Some is \<longrightarrow> (\<forall>i \<in> set is. 0 \<le> i \<and> i < int (length (toks c s)) \<and>
           (\<forall>x. tok_at (toks c s) i = Inr x \<longrightarrow> 0 \<le> parent x \<and> parent x < int (length (toks c s))))))"

text \<open>The file \<open>f\<close> has an entry that makes the code load \<open>f'\<close>.\<close>

definition loads :: "outer \<Rightarrow> string \<Rightarrow> string \<Rightarrow> bool" where
  "loads c f f' \<longleftrightarrow> (\<exists>s is i x y v. read_file c f = Some s \<and> jsonpath c s (toks c s) ''$.*'' = Some is \<and> i \<in> set is \<and>
     tok_at (toks c s) i = Inr x \<and> tok_at (toks c s) (parent x) = Inr y \<and> tok_str s x = Inr v \<and>
     (tok_str s y = Inr ''include'' \<and> f' = v \<or>
      tok_str s y = Inr ''include directory'' \<and> (\<exists>names n. list_dir c v = Some names \<and> n \<in> set names \<and> f' = v @ ''/'' @ n)))"

definition runs :: "(string \<Rightarrow> 'u conf_op) \<Rightarrow> string \<Rightarrow> bool" where
  "runs rec f \<longleftrightarrow> (\<forall>k w. conf_ok k w \<longrightarrow> (\<exists>rc w'. rec f w = Inr (rc, w') \<and> conf_ok k w'))"

lemma runsD: "runs rec f \<Longrightarrow> conf_ok k w \<Longrightarrow> \<exists>rc w'. rec f w = Inr (rc, w') \<and> conf_ok k w'"
  by (simp add: runs_def)

lemma include_file_ok:
  assumes ok: "conf_ok k w" and x: "tok_str s x = Inr v" and rec: "runs rec v"
  shows "\<exists>b w'. include_file rec s x w = Inr (b, w') \<and> conf_ok k w'"
proof -
  obtain rc w1 where "rec v (c_add 1 w) = Inr (rc, w1)" "conf_ok (k + 1) w1"
    using runsD [OF rec conf_ok_add [OF ok, of 1]] by blast
  then show ?thesis using ok x by (auto simp: include_file_def conf_ok_take [OF ok] conf_ok_drop)
qed

lemma closedir_ok: "conf_ok (k + 1) w \<Longrightarrow> closedir w = (True, c_drop w) \<and> conf_ok k (c_drop w)"
  by (simp add: closedir_def conf_ok_draw conf_ok_drop)

lemma dir_cleanup_ok: "conf_ok (k + 1 + 1) w \<Longrightarrow> \<exists>w'. dir_cleanup w = Inr (False, w') \<and> conf_ok k w'"
  using closedir_ok [of "k + 1" w] by (auto simp: dir_cleanup_def dirname_cleanup_def conf_ok_drop)

lemma dir_loop_ok:
  "conf_ok (k + 1 + 1) w \<Longrightarrow> \<forall>n \<in> set names. runs rec (d @ ''/'' @ n) \<Longrightarrow>
   \<exists>b w'. dir_loop rec d names w = Inr (b, w') \<and> conf_ok k w'"
proof (induction names arbitrary: w)
  case Nil
  then show ?case using closedir_ok [of "k + 1" w] conf_ok_drop by (auto simp: Let_def)
next
  case (Cons n names)
  show ?case
  proof (cases "n \<noteq> [] \<and> hd n = CHR ''.''")
    case False
    obtain rc w1 where 1: "rec (d @ ''/'' @ n) (c_add 1 w) = Inr (rc, w1)" "conf_ok (k + 1 + 1 + 1) w1"
      using runsD [OF _ conf_ok_add [OF Cons.prems(1), of 1], of rec "d @ ''/'' @ n"] Cons.prems(2) by auto
    have 2: "conf_ok (k + 1 + 1) (c_drop w1)" using 1(2) by (rule conf_ok_drop)
    have "dir_loop rec d (n # names) w = (if rc \<noteq> 0 then dir_cleanup (c_drop w1) else dir_loop rec d names (c_drop w1))"
      using False 1(1) conf_ok_take [OF Cons.prems(1)] by (auto simp: Let_def)
    then show ?thesis using Cons.IH [OF 2] Cons.prems(2) dir_cleanup_ok [OF 2] by (cases "rc = 0") auto
  qed (use Cons in auto)
qed

lemma include_dir_ok:
  assumes ok: "conf_ok k w" and x: "tok_str s x = Inr v"
    and rec: "\<And>names n. list_dir c v = Some names \<Longrightarrow> n \<in> set names \<Longrightarrow> runs rec (v @ ''/'' @ n)"
  shows "\<exists>b w'. include_dir c rec s x w = Inr (b, w') \<and> conf_ok k w'"
proof -
  have 1: "conf_ok (k + 1) (c_add 1 w)" and 2: "conf_ok (k + 1 + 1) (c_add 1 (c_add 1 w))"
    using conf_ok_add [OF ok, of 1] conf_ok_add [OF conf_ok_add [OF ok, of 1], of 1] by simp_all
  have run: "include_dir c rec s x w = (if tok_type x \<noteq> JSMN_STRING then Inr (False, w)
     else case list_dir c v of None \<Rightarrow> dirname_cleanup (c_add 1 w) | Some names \<Rightarrow> dir_loop rec v names (c_add 1 (c_add 1 w)))"
    by (simp add: include_dir_def x conf_ok_take [OF ok] conf_ok_take [OF 1] del: c_add_simps cong: option.case_cong)
  show ?thesis
  proof (cases "list_dir c v")
    case None
    then show ?thesis using ok conf_ok_drop [OF 1] by (auto simp: run dirname_cleanup_def)
  next
    case (Some names)
    then show ?thesis using ok dir_loop_ok [OF 2, of names rec v] rec by (auto simp: run)
  qed
qed

lemma set_conf_ok:
  assumes "bstr_ok (cbs c)" and t: "toks_good s t" and i: "0 \<le> i" "i < int (length t)"
    and ks: "\<forall>e \<in> set ks. c_id e = 0 \<and> c_type e \<noteq> FRA_P_CONF_NUMBER"
  shows "conf_ok k w \<Longrightarrow> \<exists>b w'. set_conf c ks key s t (int (length t)) i w = Inr (b, w') \<and> conf_ok k w'"
  using ks
proof (induction ks)
  case (Cons e ks)
  obtain rc w' where "set_value e s t (int (length t)) i w = Inr (rc, w')" "conf_ok k w'"
    using set_value_ok [OF Cons.prems(1) t i, of e] Cons.prems(2) by auto
  then show ?case using Cons by auto
qed auto

lemma one_entry_ok:
  assumes out: "outer_ok c" and ok: "conf_ok k w" and f: "read_file c f = Some s" "0 < fst (tokens_of c s)"
    and ids: "jsonpath c s (toks c s) ''$.*'' = Some is" "i \<in> set is" and rec: "\<And>f'. loads c f f' \<Longrightarrow> runs rec f'"
  shows "\<exists>b w'. one_entry c rec s (toks c s) (int (length (toks c s))) i w = Inr (b, w') \<and> conf_ok k w'"
proof -
  have b: "bstr_ok (cbs c)" using out by (simp add: outer_ok_def)
  have t: "toks_good s (toks c s)" and i: "0 \<le> i" "i < int (length (toks c s))"
    and p: "\<And>x. tok_at (toks c s) i = Inr x \<Longrightarrow> 0 \<le> parent x \<and> parent x < int (length (toks c s))"
    using out f ids unfolding outer_ok_def by blast+
  obtain x where x: "tok_at (toks c s) i = Inr x" "tok_good s x" using tok_at_good [OF t i] by blast
  obtain y where y: "tok_at (toks c s) (parent x) = Inr y" "tok_good s y" using tok_at_good [OF t] p [OF x(1)] by blast
  obtain key where key: "tok_str s y = Inr key" using tok_str_good [OF y(2)] by blast
  obtain v where v: "tok_str s x = Inr v" using tok_str_good [OF x(2)] by blast
  consider "key = ''include''" | "key = ''include directory''" | "key = ''enabled plugins''"
    | "key \<noteq> ''include''" "key \<noteq> ''include directory''" "key \<noteq> ''enabled plugins''"
    by blast
  then show ?thesis
  proof cases
    case 1
    have "loads c f v" unfolding loads_def using f(1) ids x(1) y(1) v key 1 by blast
    then show ?thesis using include_file_ok [OF ok v rec] by (simp add: one_entry_def x(1) y(1) key b 1)
  next
    case 2
    have "loads c f (v @ ''/'' @ n)" if "list_dir c v = Some names" "n \<in> set names" for names n
      unfolding loads_def using f(1) ids x(1) y(1) v key 2 that by blast
    then show ?thesis using include_dir_ok [OF ok v, of c rec] rec by (simp add: one_entry_def x(1) y(1) key b 2)
  next
    case 3
    obtain rc w' where "set_plugins c s (toks c s) (int (length (toks c s))) i w = Inr (rc, w')" "conf_ok k w'"
      using set_plugins_ok [OF ok t i] by blast
    then show ?thesis by (simp add: one_entry_def x(1) y(1) key b 3)
  next
    case 4
    have "\<forall>e \<in> set confs. c_id e = 0 \<and> c_type e \<noteq> FRA_P_CONF_NUMBER" by (simp add: confs_def FRA_P_CONF_THREAD_SAFE_def)
    then obtain bb w' where "set_conf c confs key s (toks c s) (int (length (toks c s))) i w = Inr (bb, w')" "conf_ok k w'"
      using set_conf_ok [OF b t i _ ok] by blast
    then show ?thesis using 4 by (simp add: one_entry_def x(1) y(1) key b)
  qed
qed

lemma entries_loop_ok:
  assumes out: "outer_ok c" and f: "read_file c f = Some s" "0 < fst (tokens_of c s)"
    and ids: "jsonpath c s (toks c s) ''$.*'' = Some js" and rec: "\<And>f'. loads c f f' \<Longrightarrow> runs rec f'"
  shows "set is \<subseteq> set js \<Longrightarrow> conf_ok k w \<Longrightarrow>
    \<exists>b w'. entries_loop c rec s (toks c s) (int (length (toks c s))) is w = Inr (b, w') \<and> conf_ok k w'"
proof (induction "is" arbitrary: w)
  case (Cons i "is")
  obtain b w1 where 1: "one_entry c rec s (toks c s) (int (length (toks c s))) i w = Inr (b, w1)" "conf_ok k w1"
    using one_entry_ok [OF out Cons.prems(2) f ids _ rec, of i] Cons.prems(1) by auto
  show ?case using Cons.IH [OF _ 1(2)] Cons.prems(1) 1 by (cases b) auto
qed auto

lemma cleanups_ok:
  "conf_ok (k + 1) w \<Longrightarrow> \<exists>w'. f_cleanup w = Inr (- 1, w') \<and> conf_ok k w'"
  "conf_ok (k + 1 + 1) w \<Longrightarrow> \<exists>w'. f_str_cleanup w = Inr (- 1, w') \<and> conf_ok k w'"
  "conf_ok (k + 1 + 1 + 1) w \<Longrightarrow> \<exists>w'. t_cleanup w = Inr (- 1, w') \<and> conf_ok k w'"
  "conf_ok (k + 1 + 1 + 1 + 1) w \<Longrightarrow> \<exists>w'. r_cleanup w = Inr (- 1, w') \<and> conf_ok k w'"
proof -
  have 1: "\<exists>w'. f_cleanup w = Inr (- 1, w') \<and> conf_ok k w'" if "conf_ok (k + 1) w" for k and w :: "'a config"
    using that by (simp add: f_cleanup_def conf_ok_draw conf_ok_drop)
  have 2: "\<exists>w'. f_str_cleanup w = Inr (- 1, w') \<and> conf_ok k w'" if "conf_ok (k + 1 + 1) w" for k and w :: "'a config"
    unfolding f_str_cleanup_def by (rule 1 [OF conf_ok_drop [OF that]])
  have 3: "\<exists>w'. t_cleanup w = Inr (- 1, w') \<and> conf_ok k w'" if "conf_ok (k + 1 + 1 + 1) w" for k and w :: "'a config"
    unfolding t_cleanup_def by (rule 2 [OF conf_ok_drop [OF that]])
  have 4: "\<exists>w'. r_cleanup w = Inr (- 1, w') \<and> conf_ok k w'" if "conf_ok (k + 1 + 1 + 1 + 1) w" for k and w :: "'a config"
    unfolding r_cleanup_def by (rule 3 [OF conf_ok_drop [OF that]])
  show "conf_ok (k + 1) w \<Longrightarrow> \<exists>w'. f_cleanup w = Inr (- 1, w') \<and> conf_ok k w'" by (rule 1)
  show "conf_ok (k + 1 + 1) w \<Longrightarrow> \<exists>w'. f_str_cleanup w = Inr (- 1, w') \<and> conf_ok k w'" by (rule 2)
  show "conf_ok (k + 1 + 1 + 1) w \<Longrightarrow> \<exists>w'. t_cleanup w = Inr (- 1, w') \<and> conf_ok k w'" by (rule 3)
  show "conf_ok (k + 1 + 1 + 1 + 1) w \<Longrightarrow> \<exists>w'. r_cleanup w = Inr (- 1, w') \<and> conf_ok k w'" by (rule 4)
qed

lemma load_tokens_entries:
  assumes out: "outer_ok c" and f: "read_file c f = Some s" "0 < fst (tokens_of c s)" and ok: "conf_ok (k + 1 + 1 + 1) w"
    and js: "jsonpath c s (toks c s) ''$.*'' = Some js"
    and run: "entries_loop c rec s (toks c s) (int (length (toks c s))) js (c_add 1 w) = Inr (b, w1)" "conf_ok (k + 1 + 1 + 1 + 1) w1"
  shows "load_tokens c rec s (tokens_of c s) w = (if \<not> b then r_cleanup w1 else Inr (0, c_drop (c_drop (c_drop (c_drop w1)))))"
proof -
  obtain m ts where p: "tokens_of c s = (m, ts)" by (cases "tokens_of c s")
  then have tk: "toks c s = take (nat m) ts" by (simp add: toks_def)
  have len: "int (length (toks c s)) = fst (tokens_of c s)" using out f unfolding outer_ok_def by blast
  have 2: "conf_ok (k + 1) (c_drop (c_drop (c_drop w1)))" by (intro conf_ok_drop run(2))
  have m: "int (length (toks c s)) = m" using len by (simp add: p)
  have pos: "\<not> \<not> 0 < m" using f(2) by (simp add: p)
  show ?thesis
    unfolding load_tokens_def p Let_def case_prod_conv tk [symmetric] if_not_P [OF pos] conf_ok_take [OF ok] js option.case
    using run(1) unfolding m by (cases b) (simp_all only: bindo_Inr case_prod_conv conf_ok_draw [OF 2] simp_thms if_True if_False)
qed

lemma load_tokens_ok:
  assumes out: "outer_ok c" and f: "read_file c f = Some s" and ok: "conf_ok (k + 1 + 1 + 1) w"
    and rec: "\<And>f'. loads c f f' \<Longrightarrow> runs rec f'"
  shows "\<exists>rc w'. load_tokens c rec s (tokens_of c s) w = Inr (rc, w') \<and> conf_ok k w'"
proof (cases "0 < fst (tokens_of c s)")
  obtain m ts where p: "tokens_of c s = (m, ts)" by (cases "tokens_of c s")
  then have tk: "toks c s = take (nat m) ts" by (simp add: toks_def)
  case True
  note ok1 = conf_ok_add [OF ok, of 1]
  show ?thesis
  proof (cases "jsonpath c s (toks c s) ''$.*''")
    case None
    have "load_tokens c rec s (tokens_of c s) w = t_cleanup (c_drop (c_add 1 w))"
      using True None by (simp add: load_tokens_def p tk conf_ok_take [OF ok] Let_def del: c_add_simps)
    then show ?thesis using cleanups_ok(3) [OF conf_ok_drop [OF ok1]] by auto
  next
    case (Some js)
    obtain b w1 where 1: "entries_loop c rec s (toks c s) (int (length (toks c s))) js (c_add 1 w) = Inr (b, w1)" "conf_ok (k + 1 + 1 + 1 + 1) w1"
      using entries_loop_ok [OF out f True Some rec _ ok1] by blast
    have "conf_ok k (c_drop (c_drop (c_drop (c_drop w1))))" by (intro conf_ok_drop 1(2))
    then show ?thesis using cleanups_ok(4) [OF 1(2)] load_tokens_entries [OF out f True ok Some 1] by (cases b) auto
  qed
next
  case False
  then have "load_tokens c rec s (tokens_of c s) w = t_cleanup w" by (cases "tokens_of c s") (simp add: load_tokens_def)
  then show ?thesis using cleanups_ok(3) [OF ok] by auto
qed

lemma load_body_tokens:
  assumes ok: "conf_ok k w" and f: "read_file c f = Some s"
  shows "load_body c rec f w = load_tokens c rec s (tokens_of c s) (c_add 1 (c_add 1 (c_add 1 w)))"
proof -
  note ok1 = conf_ok_add [OF ok, of 1]
  note ok2 = conf_ok_add [OF ok1, of 1]
  note ok3 = conf_ok_add [OF ok2, of 1]
  show ?thesis
    by (simp add: load_body_def f conf_ok_take [OF ok] conf_ok_take [OF ok1] conf_ok_take [OF ok2] conf_ok_draw [OF ok3] tokens_of_def
        del: c_add_simps)
qed

lemma load_body_ok:
  assumes out: "outer_ok c" and rec: "\<And>f'. loads c f f' \<Longrightarrow> runs rec f'"
  shows "runs (load_body c rec) f"
  unfolding runs_def
proof (intro allI impI)
  fix k and w :: "'a config"
  assume ok: "conf_ok k w"
  show "\<exists>rc w'. load_body c rec f w = Inr (rc, w') \<and> conf_ok k w'"
  proof (cases "read_file c f")
    case (Some s)
    have "conf_ok (k + 1 + 1 + 1) (c_add 1 (c_add 1 (c_add 1 w)))" by (intro conf_ok_add ok)
    from load_tokens_ok [OF out Some this rec] show ?thesis unfolding load_body_tokens [OF ok Some] by simp
  qed (use ok in \<open>simp add: load_body_def\<close>)
qed

lemma conf_load_recurse_ok:
  assumes out: "outer_ok c" and rank: "\<And>f f'. loads c f f' \<Longrightarrow> rank f' < rank f"
  shows "rank f < n \<Longrightarrow> runs (conf_load_recurse c n :: string \<Rightarrow> 'u conf_op) f"
proof (induction n arbitrary: f)
  case (Suc n)
  have "runs (load_body c (conf_load_recurse c n :: string \<Rightarrow> 'u conf_op)) f"
  proof (rule load_body_ok [OF out])
    fix f' assume "loads c f f'"
    then have "rank f' < n" using rank Suc.prems by fastforce
    then show "runs (conf_load_recurse c n :: string \<Rightarrow> 'u conf_op) f'" by (rule Suc.IH)
  qed
  then show ?case by (simp add: runs_def)
qed simp

section \<open>The module\<close>

lemma reset_plugins_ok:
  assumes ok: "conf_ok k w"
  shows "\<exists>w'. reset_plugins w = Inr w' \<and> conf_ok k w' \<and> pl_inv (cf_pl w') [] [] \<and> cells (pls (cf_pl w')) = (\<lambda>_. None) \<and>
    live (cenv w') = k + conf_blocks [] w' \<and> g_strings w' = g_strings w \<and> str_arrs w' = str_arrs w \<and> num_or_bools w' = num_or_bools w"
proof -
  obtain xs ds where x: "pl_inv (cf_pl w) xs ds" "dom (cells (pls (cf_pl w))) = set xs" "live (cenv w) = k + conf_blocks ds w"
    using ok by (auto simp: conf_ok_def)
  have "heap_ok (pls (cf_pl w))" "chain pl_next (cells (pls (cf_pl w))) (g_first (cf_pl w)) xs" using x(1) by (auto simp: pl_inv_def)
  from chain_length [OF this] obtain p where p: "fra_p_pl_reset (cf_pl w) = Inr p" "pl_inv p [] []"
    "cells (pls p) = (\<lambda>a. if a \<in> set xs then None else cells (pls (cf_pl w)) a)"
    "pl_env p = (cenv w)\<lparr>live := live (cenv w) - sum_list (map desc_blocks ds)\<rparr>"
    using pl_reset_ok [OF x(1)] unfolding fra_p_pl_reset_def by blast
  have c: "cells (pls p) = (\<lambda>_. None)" using p(3) x(2) by (auto simp: fun_eq_iff)
  let ?w = "w\<lparr>cf_pl := p\<rparr>"
  have "conf_ok k ?w" unfolding conf_ok_def
  proof (intro conjI exI)
    show "pl_inv (cf_pl ?w) [] []" using p(2) by simp
    show "live (cenv ?w) = k + conf_blocks [] ?w" using x(3) p(4) by (simp add: conf_blocks_def)
    show "dom (cells (pls (cf_pl ?w))) = set []" using c by simp
  qed (use ok p(4) in \<open>simp_all add: conf_ok_def values_ok_def\<close>)
  moreover have "live (cenv ?w) = k + conf_blocks [] ?w" using x(3) p(4) by (simp add: conf_blocks_def)
  ultimately show ?thesis using p(1,2) c by (auto simp: reset_plugins_def)
qed

lemma set_defaults_ok:
  assumes "conf_ok k w"
  shows "\<exists>w'. set_defaults w = Inr (0, w') \<and> conf_ok k w'"
proof -
  obtain w1 where w1: "reset_plugins w = Inr w1" "conf_ok k w1" using reset_plugins_ok [OF assms] by blast
  obtain w2 where "set_num 0 0 w1 = Inr (0, w2)" "conf_ok k w2" using set_bool_ok [OF w1(2), of 0] by auto
  with w1 show ?thesis by (simp add: set_defaults_def confs_def set_default_def FRA_P_CONF_THREAD_SAFE_def)
qed

lemma conf_load_ok:
  assumes "outer_ok c" and "\<forall>f f'. loads c f f' \<longrightarrow> rank f' < rank f" and "rank f < n" and "conf_ok k w"
  shows "\<exists>rc w'. fra_p_conf_load c n f w = Inr (rc, w') \<and> conf_ok k w'"
proof -
  obtain w1 where w1: "set_defaults w = Inr (0, w1)" "conf_ok k w1" using set_defaults_ok [OF assms(4)] by blast
  have "runs (conf_load_recurse c n) f" by (rule conf_load_recurse_ok [of c rank]) (use assms(1-3) in auto)
  then show ?thesis using w1 runsD [OF _ w1(2)] by (auto simp: fra_p_conf_load_def)
qed

text \<open>The state before the module is used, with the static variables zero.\<close>

definition conf_start :: "'u config \<Rightarrow> bool" where
  "conf_start w \<longleftrightarrow> calm (cenv w) \<and> num_or_bools w = [0] \<and> g_strings w = [None] \<and> str_arrs w = [\<lparr>arr_v = Null, arr_l = 0\<rparr>] \<and>
     pl_inv (cf_pl w) [] [] \<and> cells (pls (cf_pl w)) = (\<lambda>_. None)"

lemma conf_init_ok:
  assumes w: "conf_start w" and b: "bstr_ok (cbs c)"
  shows "\<exists>w'. fra_p_conf_init c w = Inr (0, w') \<and> conf_ok (live (cenv w)) w'"
proof -
  have f: "bfromcstr (cbs c) (cenv w) '''' = (Some '''', (cenv w)\<lparr>live := live (cenv w) + 1\<rparr>)"
    using w b by (simp add: conf_start_def bfromcstr_calm)
  let ?w = "(c_add 1 w)\<lparr>g_strings := [Some ''''], str_arrs := [\<lparr>arr_v = Null, arr_l = 0\<rparr>], num_or_bools := [0]\<rparr>"
  have "fra_p_conf_init c w = Inr (0, ?w)"
    using w by (simp add: fra_p_conf_init_def FRA_P_CONF_STR_COUNT_def FRA_P_CONF_STR_ARR_COUNT_def FRA_P_CONF_NUM_OR_BOOL_COUNT_def
        f elem_def conf_start_def c_add_def)
  moreover have "conf_ok (live (cenv w)) ?w"
    unfolding conf_ok_def
  proof (intro conjI exI)
    show "pl_inv (cf_pl ?w) [] []" using w by (simp add: conf_start_def c_add_def with_cenv_def)
    show "dom (cells (pls (cf_pl ?w))) = set []" using w by (simp add: conf_start_def c_add_def with_cenv_def)
    show "live (cenv ?w) = live (cenv w) + conf_blocks [] ?w" by (simp add: conf_blocks_def arr_blocks_def)
  qed (use w in \<open>simp_all add: conf_start_def values_ok_def arr_ok_def\<close>)
  ultimately show ?thesis by blast
qed

lemma conf_deinit_ok:
  assumes ok: "conf_ok k w"
  shows "\<exists>w'. fra_p_conf_deinit w = Inr w' \<and> live (cenv w') = k \<and> cells (pls (cf_pl w')) = (\<lambda>_. None)"
proof -
  obtain w1 where w1: "reset_plugins w = Inr w1" "conf_ok k w1" "cells (pls (cf_pl w1)) = (\<lambda>_. None)"
    "live (cenv w1) = k + conf_blocks [] w1"
    using reset_plugins_ok [OF ok] by blast
  obtain s where s: "g_strings w1 = [Some s]" using w1(2) by (auto simp: conf_ok_def values_ok_def)
  have str: "with_cenv (fold free_opt (g_strings w1) (cenv w1)) w1 = c_drop w1" by (simp add: s free_opt_def c_drop_def)
  have ok2: "conf_ok (k - 1) (c_drop w1)" using conf_ok_drop [of "k - 1" w1] w1(2) by simp
  obtain a where a: "str_arrs w1 = [a]" "arr_ok a" using w1(2) by (rule str_arrs_ok)
  obtain w2 where w2: "str_arr_destroy 0 (c_drop w1) = Inr w2" using str_arr_destroy_ok [OF ok2] by blast
  have "pls (cf_pl w2) = pls (cf_pl w1)" "live (cenv w2) = live (cenv w1) - 1 - arr_blocks a"
    using w2 a(2) unfolding arr_ok_def
    by (auto simp: str_arr_destroy_def elem_def a(1) c_drop_add bindo_eq_Inr free_args_live free_args_def [of 0] free_ptr_def arr_blocks_def
        drop_block_def with_cenv_def c_add_def)
  moreover have "conf_blocks [] w1 = 1 + arr_blocks a" by (simp add: conf_blocks_def s a(1))
  ultimately show ?thesis using w1(1,3,4) w2 str
    by (simp add: fra_p_conf_deinit_def FRA_P_CONF_STR_ARR_COUNT_def)
qed

section \<open>Properties\<close>



end
