(* ===== verification/Conf_Plugins.thy ===== *)
theory Conf_Plugins
  imports Conf_Safe
begin

text \<open>
  The plugins that a configuration enables are the ones that are started: parsing of the tokens
  of \<open>enabled plugins\<close>, what happens when memory runs out there, and a configuration in two files
  as an example.
\<close>

section \<open>Tokens of a list of plugins\<close>

text \<open>The tokens from \<open>i\<close> on are strings in the array \<open>a\<close>, with the contents \<open>args\<close>.\<close>

fun arg_toks :: "string \<Rightarrow> jsmntok list \<Rightarrow> int \<Rightarrow> int \<Rightarrow> string list \<Rightarrow> bool" where
  "arg_toks s t a i [] \<longleftrightarrow> (i < int (length t) \<longrightarrow> (\<forall>x. tok_at t i = Inr x \<longrightarrow> parent x \<noteq> a))"
| "arg_toks s t a i (arg # args) \<longleftrightarrow> (\<exists>x y. tok_at t i = Inr x \<and> tok_type x = JSMN_STRING \<and> parent x = a \<and> tok_str s x = Inr arg \<and>
     tok_at t a = Inr y \<and> tok_end x \<le> tok_end y) \<and> arg_toks s t a (i + 1) args"

text \<open>The tokens from \<open>i\<close> on are the entries \<open>ds\<close> of the object \<open>ob\<close>: name, array, arguments.\<close>

fun plugin_toks :: "string \<Rightarrow> jsmntok list \<Rightarrow> int \<Rightarrow> int \<Rightarrow> pl_desc list \<Rightarrow> bool" where
  "plugin_toks s t ob i [] \<longleftrightarrow> (i < int (length t) - 1 \<longrightarrow> (\<forall>x. tok_at t i = Inr x \<longrightarrow> parent x \<noteq> ob))"
| "plugin_toks s t ob i ((name, args) # ds) \<longleftrightarrow>
     (\<exists>x y z. tok_at t i = Inr x \<and> tok_type x = JSMN_STRING \<and> parent x = ob \<and> tok_str s x = Inr name \<and>
        tok_at t ob = Inr z \<and> tok_end x \<le> tok_end z \<and> tok_at t (i + 1) = Inr y \<and> tok_type y = JSMN_ARRAY \<and> parent y = i) \<and>
     arg_toks s t (i + 1) (i + 2) args \<and> plugin_toks s t ob (i + 2 + int (length args)) ds"

lemma tok_at_range: "tok_at t i = Inr x \<Longrightarrow> 0 \<le> i \<and> i < int (length t)"
  by (auto simp: tok_at_def nat_less_iff split: if_splits)

lemma args_loop_parses:
  "arg_toks s t a i args \<Longrightarrow> calm (cenv w) \<Longrightarrow> describes (name, pre) p \<Longrightarrow> 0 \<le> i \<Longrightarrow> length args < n \<Longrightarrow>
   \<exists>p'. args_loop n s t (int (length t)) a i p w = Inr (Some (i + int (length args)), p',
       c_add (desc_blocks (name, pre @ args) - desc_blocks (name, pre)) w) \<and> describes (name, pre @ args) p'"
proof (induction args arbitrary: i p w n pre)
  case Nil
  obtain m where n: "n = Suc m" using Nil.prems(5) by (cases n) simp_all
  show ?case
  proof (cases "i < int (length t)")
    case True
    then obtain x where "tok_at t i = Inr x" using Nil.prems(4) by (auto simp: tok_at_def nat_less_iff)
    then show ?thesis using True Nil.prems(1,3) by (auto simp: n)
  qed (use Nil.prems(3) in \<open>simp add: n\<close>)
next
  case (Cons arg args)
  obtain m where n: "n = Suc m" using Cons.prems(5) by (cases n) simp_all
  obtain x y where x: "tok_at t i = Inr x" "tok_type x = JSMN_STRING" "parent x = a" "tok_str s x = Inr arg"
    "tok_at t a = Inr y" "tok_end x \<le> tok_end y" and rest: "arg_toks s t a (i + 1) args"
    using Cons.prems(1) by auto
  let ?m = "desc_blocks (name, pre @ [arg]) - desc_blocks (name, pre)"
  have calm: "calm (cenv (c_add ?m w))" using Cons.prems(2) by simp
  have "realloc_args p w = Inr (True, c_add (if pre = [] then 1 else 0) w)"
    using Cons.prems(2,3) by (auto simp: realloc_args_def c_take_calm c_draw_calm)
  then have add: "add_arg s x p w = Inr (True, put_arg (Some arg) p, c_add ?m w)"
    using Cons.prems(2) x(2,4) by (auto simp: add_arg_def c_take_calm)
  obtain p' where p': "args_loop m s t (int (length t)) a (i + 1) (put_arg (Some arg) p) (c_add ?m w) =
      Inr (Some (i + 1 + int (length args)), p', c_add (desc_blocks (name, (pre @ [arg]) @ args) - desc_blocks (name, pre @ [arg])) (c_add ?m w))"
    "describes (name, (pre @ [arg]) @ args) p'"
    using Cons.IH [OF rest calm put_arg_describes [OF Cons.prems(3)], of m] Cons.prems(4,5) n by auto
  have "args_loop n s t (int (length t)) a i p w = args_loop m s t (int (length t)) a (i + 1) (put_arg (Some arg) p) (c_add ?m w)"
    using tok_at_range [OF x(1)] x(3,6) by (simp add: n x(1,5) add)
  then show ?case unfolding p'(1) using p'(2) by (intro exI [of _ p']) simp
qed

lemma one_plugin_parses:
  assumes ok: "conf_ok k w" and x: "pl_inv (cf_pl w) xs ds" "dom (cells (pls (cf_pl w))) = set xs" "live (cenv w) = k + conf_blocks ds w"
    and name: "tok_str s ti = Inr name" and args: "arg_toks s t (i + 1) (i + 2) args" and i: "0 \<le> i" and len: "length args \<le> length t"
  shows "\<exists>w' a. one_plugin c s t (int (length t)) i ti w = Inr (Some (i + 2 + int (length args)), w') \<and> conf_ok k w' \<and>
    pl_inv (cf_pl w') (xs @ [a]) (ds @ [(name, args)]) \<and> dom (cells (pls (cf_pl w'))) = set (xs @ [a]) \<and>
    live (cenv w') = k + conf_blocks (ds @ [(name, args)]) w' \<and> outside (cf_pl w') = outside (cf_pl w) \<and>
    pl_events (cf_pl w') = pl_events (cf_pl w)"
proof -
  let ?w1 = "c_add 1 (with_new (junk_pl c (new_at w)) w)"
  have calm: "calm (cenv ?w1)" using conf_ok_calm [OF ok] by simp
  have "\<exists>p. args_loop (length t + 1) s t (int (length t)) (i + 1) (i + 2) (fresh_pl c name w) ?w1 =
      Inr (Some (i + 2 + int (length args)), p, c_add (desc_blocks (name, [] @ args) - desc_blocks (name, [])) ?w1) \<and>
    describes (name, [] @ args) p"
    by (rule args_loop_parses [OF args calm fresh_pl_describes]) (use i len in simp_all)
  then obtain p where p: "args_loop (length t + 1) s t (int (length t)) (i + 1) (i + 2) (fresh_pl c name w) ?w1 =
      Inr (Some (i + 2 + int (length args)), p, c_add (desc_blocks (name, [] @ args) - desc_blocks (name, [])) ?w1)"
    "describes (name, [] @ args) p"
    by blast
  have m: "1 + (desc_blocks (name, [] @ args) - desc_blocks (name, [])) = desc_blocks (name, args)" by simp
  obtain w' a where "on_plugins (fra_p_pl_add (new_at w)) (c_add (desc_blocks (name, args)) (with_new p w)) = Inr w'" "conf_ok k w'"
    "pl_inv (cf_pl w') (xs @ [a]) (ds @ [(name, args)])" "dom (cells (pls (cf_pl w'))) = set (xs @ [a])"
    "live (cenv w') = k + conf_blocks (ds @ [(name, args)]) w'" "outside (cf_pl w') = outside (cf_pl w)" "pl_events (cf_pl w') = pl_events (cf_pl w)"
    using add_new_ok [OF ok x, of "(name, args)" p] p(2) by auto
  with one_plugin_run [OF ok name p(1) _ m] p(2) show ?thesis by (intro exI [of _ w'] exI [of _ a]) simp
qed

lemma arg_toks_length: "arg_toks s t a i args \<Longrightarrow> 0 \<le> i \<Longrightarrow> i + int (length args) \<le> max i (int (length t))"
proof (induction args arbitrary: i)
  case (Cons x args)
  then have "i < int (length t)" using tok_at_range by auto
  then show ?case using Cons.IH [of "i + 1"] Cons.prems by auto
qed simp

lemma plugins_loop_parses:
  "plugin_toks s t ob i es \<Longrightarrow> conf_ok k w \<Longrightarrow> pl_inv (cf_pl w) xs ds \<Longrightarrow> dom (cells (pls (cf_pl w))) = set xs \<Longrightarrow>
   live (cenv w) = k + conf_blocks ds w \<Longrightarrow> 0 \<le> i \<Longrightarrow> length es < n \<Longrightarrow>
   \<exists>w' ys. plugins_loop n c s t (int (length t)) ob i w = Inr (0, w') \<and> conf_ok k w' \<and> pl_inv (cf_pl w') ys (ds @ es) \<and>
     outside (cf_pl w') = outside (cf_pl w) \<and> pl_events (cf_pl w') = pl_events (cf_pl w)"
proof (induction es arbitrary: i w xs ds n)
  case Nil
  obtain m where n: "n = Suc m" using Nil.prems(7) by (cases n) simp_all
  have "plugins_loop n c s t (int (length t)) ob i w = Inr (0, w)"
  proof (cases "i < int (length t) - 1")
    case True
    then obtain x where "tok_at t i = Inr x" using Nil.prems(6) by (auto simp: tok_at_def nat_less_iff)
    then show ?thesis using True Nil.prems(1) by (simp add: n)
  qed (simp add: n)
  then show ?case using Nil.prems(2,3) by auto
next
  case (Cons e es)
  obtain m where n: "n = Suc m" using Cons.prems(7) by (cases n) simp_all
  obtain name args where e: "e = (name, args)" by (cases e)
  obtain x y z where x: "tok_at t i = Inr x" "tok_type x = JSMN_STRING" "parent x = ob" "tok_str s x = Inr name"
    "tok_at t ob = Inr z" "tok_end x \<le> tok_end z" "tok_at t (i + 1) = Inr y" "tok_type y = JSMN_ARRAY" "parent y = i"
    and args: "arg_toks s t (i + 1) (i + 2) args" and rest: "plugin_toks s t ob (i + 2 + int (length args)) es"
    using Cons.prems(1) by (auto simp: e)
  have i: "i + 1 < int (length t)" using tok_at_range [OF x(7)] by simp
  have "length args \<le> length t" using arg_toks_length [OF args] Cons.prems(6) i by (simp add: max_def split: if_splits)
  from one_plugin_parses [OF Cons.prems(2-5) x(4) args Cons.prems(6) this, of c]
  obtain w1 a where 1: "one_plugin c s t (int (length t)) i x w = Inr (Some (i + 2 + int (length args)), w1)" "conf_ok k w1"
    "pl_inv (cf_pl w1) (xs @ [a]) (ds @ [(name, args)])" "dom (cells (pls (cf_pl w1))) = set (xs @ [a])"
    "live (cenv w1) = k + conf_blocks (ds @ [(name, args)]) w1" "outside (cf_pl w1) = outside (cf_pl w)"
    "pl_events (cf_pl w1) = pl_events (cf_pl w)"
    by blast
  have nn: "0 \<le> i + 2 + int (length args)" "length es < m" using Cons.prems(6,7) by (simp_all add: n)
  obtain w' ys where "plugins_loop m c s t (int (length t)) ob (i + 2 + int (length args)) w1 = Inr (0, w')" "conf_ok k w'"
    "pl_inv (cf_pl w') ys ((ds @ [(name, args)]) @ es)" "outside (cf_pl w') = outside (cf_pl w1)" "pl_events (cf_pl w') = pl_events (cf_pl w1)"
    using Cons.IH [OF rest 1(2-5) nn] by blast
  moreover have "plugins_loop n c s t (int (length t)) ob i w = plugins_loop m c s t (int (length t)) ob (i + 2 + int (length args)) w1"
    using i x 1(1) by (simp add: n)
  ultimately show ?case using 1(6,7) by (auto simp: e)
qed

lemma plugin_toks_length: "plugin_toks s t ob i es \<Longrightarrow> 0 \<le> i \<Longrightarrow> es \<noteq> [] \<Longrightarrow> i + int (length es) < int (length t)"
proof (induction es arbitrary: i)
  case (Cons e es)
  obtain name args where e: "e = (name, args)" by (cases e)
  have i: "i + 1 < int (length t)" using Cons.prems(1) tok_at_range [of t "i + 1"] by (auto simp: e)
  show ?case
  proof (cases "es = []")
    case False
    have "plugin_toks s t ob (i + 2 + int (length args)) es" using Cons.prems(1) by (simp add: e)
    then show ?thesis using Cons.IH [of "i + 2 + int (length args)"] Cons.prems(2) False by simp
  qed (use i in simp)
qed simp

lemma set_plugins_parses:
  assumes ok: "conf_ok k w" and none: "g_first (cf_pl w) = 0" and z: "tok_at t ob = Inr z" "tok_type z = JSMN_OBJECT"
    and es: "plugin_toks s t ob (ob + 1) es"
  shows "\<exists>w' ys. set_plugins c s t (int (length t)) ob w = Inr (0, w') \<and> conf_ok k w' \<and> pl_inv (cf_pl w') ys es \<and>
    outside (cf_pl w') = outside (cf_pl w) \<and> pl_events (cf_pl w') = pl_events (cf_pl w)"
proof -
  obtain xs ds where x: "pl_inv (cf_pl w) xs ds" "dom (cells (pls (cf_pl w))) = set xs" "live (cenv w) = k + conf_blocks ds w"
    using ok by (auto simp: conf_ok_def)
  have "ds = []" using x(1) none by (auto simp: pl_inv_def)
  have ob: "0 \<le> ob + 1" using tok_at_range [OF z(1)] by simp
  have "length es < length t + 1" using plugin_toks_length [OF es ob] ob by (cases "es = []") auto
  from plugins_loop_parses [OF es ok x ob this, of c] \<open>ds = []\<close> show ?thesis
    by (simp add: set_plugins_def z)
qed

lemma c_drop_pl: "pl_inv (cf_pl (c_drop w)) ys es = pl_inv (cf_pl w) ys es" "outside (cf_pl (c_drop w)) = outside (cf_pl w)"
  "pl_events (cf_pl (c_drop w)) = pl_events (cf_pl w)" "g_first (cf_pl (c_add n w)) = g_first (cf_pl w)"
  "outside (cf_pl (c_add n w)) = outside (cf_pl w)"
  by (simp_all add: c_drop_add c_add_def with_cenv_def)

text \<open>A file whose only entry enables plugins.\<close>

lemma load_plugins_file:
  assumes out: "outer_ok c" and f: "read_file c f = Some s" "0 < fst (tokens_of c s)" and js: "jsonpath c s (toks c s) ''$.*'' = Some [i]"
    and x: "tok_at (toks c s) i = Inr x" "tok_type x = JSMN_OBJECT" "tok_at (toks c s) (parent x) = Inr y" "tok_str s y = Inr ''enabled plugins''"
    and es: "plugin_toks s (toks c s) i (i + 1) es" and ok: "conf_ok k w" and none: "g_first (cf_pl w) = 0"
  shows "\<exists>w' ys. load_body c rec f w = Inr (0, w') \<and> conf_ok k w' \<and> pl_inv (cf_pl w') ys es \<and> outside (cf_pl w') = outside (cf_pl w)"
proof -
  let ?w3 = "c_add 1 (c_add 1 (c_add 1 w))"
  have ok3: "conf_ok (k + 1 + 1 + 1) ?w3" by (intro conf_ok_add ok)
  have b: "bstr_ok (cbs c)" using out by (simp add: outer_ok_def)
  obtain w1 ys where 1: "set_plugins c s (toks c s) (int (length (toks c s))) i (c_add 1 ?w3) = Inr (0, w1)" "conf_ok (k + 1 + 1 + 1 + 1) w1"
    "pl_inv (cf_pl w1) ys es" "outside (cf_pl w1) = outside (cf_pl (c_add 1 ?w3))"
    using set_plugins_parses [OF conf_ok_add [OF ok3, of 1] _ x(1,2) es, of c] none by (fastforce simp: c_drop_pl simp del: c_add_simps)
  have run: "entries_loop c rec s (toks c s) (int (length (toks c s))) [i] (c_add 1 ?w3) = Inr (True, w1)"
    using 1(1) by (simp add: one_entry_def x(1,3,4) b del: c_add_simps)
  let ?w' = "c_drop (c_drop (c_drop (c_drop w1)))"
  have "load_body c rec f w = Inr (0, ?w')"
    unfolding load_body_tokens [OF ok f(1)] load_tokens_entries [OF out f ok3 js run 1(2)] by simp
  moreover have "conf_ok k ?w'" by (intro conf_ok_drop 1(2))
  ultimately show ?thesis using 1(3,4) by (intro exI [of _ ?w'] exI [of _ ys]) (simp add: c_drop_pl del: c_add_simps)
qed

section \<open>Properties\<close>


text \<open>When the memory for the name of a plugin runs out, the new object is freed although its
  other fields were never set: if the fresh memory says that there are arguments and has a stray
  pointer for them, that pointer is followed.\<close>

theorem plugin_cleanup_reads_uninitialised:
  assumes sched: "sched (cenv w) = True # False # bs" and ok: "heap_ok (pls (cf_pl w))" and i: "i + 1 < int (length t)" "i = ob + 1"
    and z: "tok_at t ob = Inr z" "tok_type z = JSMN_OBJECT" "tok_at t i = Inr x" "tok_type x = JSMN_STRING" "parent x = ob" "tok_end x \<le> tok_end z"
    and y: "tok_at t (i + 1) = Inr y" "tok_type y = JSMN_ARRAY" "parent y = i" and name: "tok_str s x = Inr name"
    and junk: "0 < argc (junk_pl c (new_at w))" "argv (junk_pl c (new_at w)) = Freed"
  shows "set_plugins c s t (int (length t)) ob w = Inl (Undef Use_after_free)"
proof -
  let ?j = "junk_pl c (new_at w)" and ?v = "(cenv w)\<lparr>sched := bs\<rparr>"
  let ?w1 = "with_cenv ((cenv w)\<lparr>sched := False # bs\<rparr>) w"
  have d: "c_draw w = (True, ?w1)" by (simp add: c_draw_def draw_def sched)
  have t: "c_take (with_new ?j ?w1) = (False, with_cenv ?v (with_new ?j ?w1))"
    by (simp add: c_take_def take_block_def draw_def)
  let ?p = "?j\<lparr>pl_name := None\<rparr>"
  have cell: "cells (pls (cf_pl (with_cenv ?v (with_new q ?w1)))) (new_at w) = Some q" for q by (simp add: with_new_def with_cenv_def)
  have at: "new_at w \<noteq> 0" using ok by (simp add: heap_ok_def)
  have "hupd (new_at w) (\<lambda>_. ?p) (pls (cf_pl (with_cenv ?v (with_new ?j ?w1)))) = Inr (pls (cf_pl (with_cenv ?v (with_new ?p ?w1))))"
    using cell [of ?j] at by (simp add: hupd_def hget_def hput_def) (simp add: with_new_def with_cenv_def)
  then have upd: "on_plugins (upd_pl (new_at w) (\<lambda>_. ?p)) (with_cenv ?v (with_new ?j ?w1)) = Inr (with_cenv ?v (with_new ?p ?w1))"
    by (simp add: on_plugins_def upd_pl_def) (simp add: with_new_def with_cenv_def)
  have free: "on_plugins (fra_p_pl_free (new_at w)) (with_cenv ?v (with_new ?p ?w1)) = Inl (Undef Use_after_free)"
    using cell [of ?p] at junk by (simp add: on_plugins_def fra_p_pl_free_def hget_def free_args_def del: with_cenv_simps)
  have "one_plugin c s t (int (length t)) i x w = Inl (Undef Use_after_free)"
    unfolding one_plugin_def d Let_def case_prod_conv new_plugin_eq name bindo_Inr by (simp add: t pl_cleanup_def upd free)
  then show ?thesis using i z y by (simp add: set_plugins_def)
qed

section \<open>Witnesses\<close>

text \<open>Two files and their tokens: the first sets the switch and includes the second.\<close>

definition demo_main :: string where
  "demo_main = ''{\"thread safe\":true,\"include\":\"p\"}''"

definition demo_main_toks :: "jsmntok list" where
  "demo_main_toks = [\<lparr>tok_type = JSMN_OBJECT, tok_start = 0, tok_end = 34, parent = - 1\<rparr>,
     \<lparr>tok_type = JSMN_STRING, tok_start = 2, tok_end = 13, parent = 0\<rparr>,
     \<lparr>tok_type = JSMN_PRIMITIVE, tok_start = 15, tok_end = 19, parent = 1\<rparr>,
     \<lparr>tok_type = JSMN_STRING, tok_start = 21, tok_end = 28, parent = 0\<rparr>,
     \<lparr>tok_type = JSMN_STRING, tok_start = 31, tok_end = 32, parent = 3\<rparr>]"

definition demo_plugins_text :: string where
  "demo_plugins_text = ''{\"enabled plugins\":{\"a.so\":[\"init\",\"-v\"],\"b.so\":[\"go\"]}}''"

definition demo_plugins_toks :: "jsmntok list" where
  "demo_plugins_toks = [\<lparr>tok_type = JSMN_OBJECT, tok_start = 0, tok_end = 56, parent = - 1\<rparr>,
     \<lparr>tok_type = JSMN_STRING, tok_start = 2, tok_end = 17, parent = 0\<rparr>,
     \<lparr>tok_type = JSMN_OBJECT, tok_start = 19, tok_end = 55, parent = 1\<rparr>,
     \<lparr>tok_type = JSMN_STRING, tok_start = 21, tok_end = 25, parent = 2\<rparr>,
     \<lparr>tok_type = JSMN_ARRAY, tok_start = 27, tok_end = 40, parent = 3\<rparr>,
     \<lparr>tok_type = JSMN_STRING, tok_start = 29, tok_end = 33, parent = 4\<rparr>,
     \<lparr>tok_type = JSMN_STRING, tok_start = 36, tok_end = 38, parent = 4\<rparr>,
     \<lparr>tok_type = JSMN_STRING, tok_start = 42, tok_end = 46, parent = 2\<rparr>,
     \<lparr>tok_type = JSMN_ARRAY, tok_start = 48, tok_end = 54, parent = 7\<rparr>,
     \<lparr>tok_type = JSMN_STRING, tok_start = 50, tok_end = 52, parent = 8\<rparr>]"

definition demo_outer :: outer where
  "demo_outer = \<lparr>cbs = plain_bstr, read_file = [''m'' \<mapsto> demo_main, ''p'' \<mapsto> demo_plugins_text], list_dir = (\<lambda>_. None),
     jsmn_parse = (\<lambda>s n. if s = demo_main then (int (length demo_main_toks), demo_main_toks)
       else if s = demo_plugins_text then (int (length demo_plugins_toks), demo_plugins_toks) else (- 2, [])),
     jsonpath = (\<lambda>s t p. if t = demo_main_toks then Some [2, 4] else if t = demo_plugins_toks then Some [2] else None),
     junk_pl = (\<lambda>a. \<lparr>pl_next = 77, pl_name = None, argv = Freed, argc = 5, pl_h = 88\<rparr>)\<rparr>"

lemma demo_texts: "demo_plugins_text \<noteq> demo_main" "demo_plugins_toks \<noteq> demo_main_toks"
  by (simp_all add: demo_main_def demo_plugins_text_def demo_main_toks_def demo_plugins_toks_def)

lemma demo_toks:
  "fst (tokens_of demo_outer demo_main) = 5" "toks demo_outer demo_main = demo_main_toks"
  "fst (tokens_of demo_outer demo_plugins_text) = 10" "toks demo_outer demo_plugins_text = demo_plugins_toks"
  using demo_texts
  by (simp_all add: toks_def tokens_of_def demo_outer_def JSMN_ERROR_NOMEM_def) (simp_all add: demo_main_toks_def demo_plugins_toks_def)

lemma demo_files: "read_file demo_outer f = Some s \<Longrightarrow> f = ''m'' \<and> s = demo_main \<or> f = ''p'' \<and> s = demo_plugins_text"
  by (auto simp: demo_outer_def split: if_splits)

lemma demo_good: "toks_good demo_main demo_main_toks" "toks_good demo_plugins_text demo_plugins_toks"
  by (simp_all add: toks_good_def tok_good_def demo_main_toks_def demo_plugins_toks_def demo_main_def demo_plugins_text_def)

lemma demo_paths: "jsonpath demo_outer s demo_main_toks p = Some [2, 4]" "jsonpath demo_outer s demo_plugins_toks p = Some [2]"
  using demo_texts by (simp_all add: demo_outer_def)

lemma demo_at:
  "tok_at demo_main_toks 2 = Inr \<lparr>tok_type = JSMN_PRIMITIVE, tok_start = 15, tok_end = 19, parent = 1\<rparr>"
  "tok_at demo_main_toks 4 = Inr \<lparr>tok_type = JSMN_STRING, tok_start = 31, tok_end = 32, parent = 3\<rparr>"
  "tok_at demo_main_toks 1 = Inr \<lparr>tok_type = JSMN_STRING, tok_start = 2, tok_end = 13, parent = 0\<rparr>"
  "tok_at demo_main_toks 3 = Inr \<lparr>tok_type = JSMN_STRING, tok_start = 21, tok_end = 28, parent = 0\<rparr>"
  by (simp_all add: tok_at_def demo_main_toks_def nth_Cons')

lemma demo_plugins_at:
  "tok_at demo_plugins_toks 2 = Inr \<lparr>tok_type = JSMN_OBJECT, tok_start = 19, tok_end = 55, parent = 1\<rparr>"
  "tok_at demo_plugins_toks 1 = Inr \<lparr>tok_type = JSMN_STRING, tok_start = 2, tok_end = 17, parent = 0\<rparr>"
  by (simp_all add: tok_at_def demo_plugins_toks_def nth_Cons')

lemma demo_keys:
  "tok_str demo_plugins_text \<lparr>tok_type = JSMN_STRING, tok_start = 2, tok_end = 17, parent = 0\<rparr> = Inr ''enabled plugins''"
  "tok_str demo_main \<lparr>tok_type = JSMN_STRING, tok_start = 2, tok_end = 13, parent = 0\<rparr> = Inr ''thread safe''"
  "tok_str demo_main \<lparr>tok_type = JSMN_STRING, tok_start = 21, tok_end = 28, parent = 0\<rparr> = Inr ''include''"
  "tok_str demo_main \<lparr>tok_type = JSMN_STRING, tok_start = 31, tok_end = 32, parent = 3\<rparr> = Inr ''p''"
  by (simp_all add: tok_str_def substr_def demo_plugins_text_def demo_main_def)

lemma demo_outer_ok: "outer_ok demo_outer"
  unfolding outer_ok_def
proof (intro conjI allI impI)
  show "bstr_ok (cbs demo_outer)" by (simp add: demo_outer_def)
  fix f s assume "read_file demo_outer f = Some s"
  then have s: "s = demo_main \<or> s = demo_plugins_text" using demo_files by blast
  then show "int (length (toks demo_outer s)) = fst (tokens_of demo_outer s)"
    by (auto simp: demo_toks demo_main_toks_def demo_plugins_toks_def)
  from s show "toks_good s (toks demo_outer s)" by (auto simp: demo_toks demo_good)
  fix js assume js: "jsonpath demo_outer s (toks demo_outer s) ''$.*'' = Some js"
  have len: "length demo_main_toks = 5" "length demo_plugins_toks = 10" by (simp_all add: demo_main_toks_def demo_plugins_toks_def)
  from s show "\<forall>i \<in> set js. 0 \<le> i \<and> i < int (length (toks demo_outer s)) \<and>
      (\<forall>x. tok_at (toks demo_outer s) i = Inr x \<longrightarrow> 0 \<le> parent x \<and> parent x < int (length (toks demo_outer s)))"
    using js by (auto simp: demo_toks demo_paths demo_at demo_plugins_at len)
qed

lemma demo_loads: "loads demo_outer f f' \<Longrightarrow> f = ''m'' \<and> f' = ''p''"
  unfolding loads_def
proof (elim exE conjE)
  fix s js i x y v
  assume f: "read_file demo_outer f = Some s" and js: "jsonpath demo_outer s (toks demo_outer s) ''$.*'' = Some js" "i \<in> set js"
    and x: "tok_at (toks demo_outer s) i = Inr x" "tok_at (toks demo_outer s) (parent x) = Inr y" "tok_str s x = Inr v"
    and key: "tok_str s y = Inr ''include'' \<and> f' = v \<or> tok_str s y = Inr ''include directory'' \<and>
      (\<exists>names n. list_dir demo_outer v = Some names \<and> n \<in> set names \<and> f' = v @ ''/'' @ n)"
  have dir: "list_dir demo_outer v = None" by (simp add: demo_outer_def)
  from demo_files [OF f] show "f = ''m'' \<and> f' = ''p''"
    using js x key by (auto simp: demo_toks demo_paths demo_at demo_plugins_at demo_keys dir)
qed

definition demo_config :: "nat config" where
  "demo_config = \<lparr>cf_pl = \<lparr>pls = heap_empty, g_first = 0, g_last = 0, pl_env = quiet_env, pl_events = [], outside = 0\<rparr>,
     num_or_bools = [0], g_strings = [None], str_arrs = [\<lparr>arr_v = Null, arr_l = 0\<rparr>]\<rparr>"

lemma demo_conf_start: "conf_start demo_config"
  by (simp add: conf_start_def demo_config_def pl_inv_def) (simp add: heap_empty_def)

lemma demo_conf_ok: "\<exists>w. fra_p_conf_init demo_outer demo_config = Inr (0, w) \<and> conf_ok 0 w"
proof -
  have "bstr_ok (cbs demo_outer)" "live (cenv demo_config) = 0" by (simp_all add: demo_outer_def demo_config_def quiet_env_def)
  then show ?thesis using conf_init_ok [OF demo_conf_start] by auto
qed

lemma demo_rank: "\<forall>f f'. loads demo_outer f f' \<longrightarrow> (if f' = ''m'' then 1 else 0 :: nat) < (if f = ''m'' then 1 else 0)"
  using demo_loads by fastforce




theorem plugin_cleanup_reads_uninitialised_witness:
  "set_plugins demo_outer demo_plugins_text demo_plugins_toks 10 2
     (with_cenv (quiet_env\<lparr>sched := [True, False]\<rparr>) demo_config) = Inl (Undef Use_after_free)"
proof -
  have len: "length demo_plugins_toks = 10" by (simp add: demo_plugins_toks_def)
  have at: "tok_at demo_plugins_toks 3 = Inr \<lparr>tok_type = JSMN_STRING, tok_start = 21, tok_end = 25, parent = 2\<rparr>"
    "tok_at demo_plugins_toks (3 + 1) = Inr \<lparr>tok_type = JSMN_ARRAY, tok_start = 27, tok_end = 40, parent = 3\<rparr>"
    by (simp_all add: tok_at_def demo_plugins_toks_def nth_Cons')
  have str: "tok_str demo_plugins_text \<lparr>tok_type = JSMN_STRING, tok_start = 21, tok_end = 25, parent = 2\<rparr> = Inr ''a.so''"
    by (simp add: tok_str_def substr_def demo_plugins_text_def)
  let ?w = "with_cenv (quiet_env\<lparr>sched := [True, False]\<rparr>) demo_config"
  have "set_plugins demo_outer demo_plugins_text demo_plugins_toks (int (length demo_plugins_toks)) 2 ?w = Inl (Undef Use_after_free)"
  proof (rule plugin_cleanup_reads_uninitialised [OF _ _ _ _ demo_plugins_at(1) _ at(1) _ _ _ at(2) _ _ str])
    show "sched (cenv ?w) = True # False # []" "heap_ok (pls (cf_pl ?w))" by (simp_all add: demo_config_def)
    show "0 < argc (junk_pl demo_outer (new_at ?w))" "argv (junk_pl demo_outer (new_at ?w)) = Freed"
      by (simp_all add: demo_outer_def)
  qed (simp_all add: len)
  then show ?thesis by (simp only: len of_nat_numeral)
qed

end
