(* ===== verification/Conf_Cycle.thy ===== *)
theory Conf_Cycle
  imports Conf_Plugins
begin

text \<open>
  Configuration files that include each other in a cycle: the counterpart of \<open>config_load_safe\<close> of
  \<open>Conf_Safe\<close>, which assumes that there is none.
\<close>

text \<open>The first value of the file \<open>f\<close> is that of an \<open>include\<close> of \<open>f'\<close>.\<close>

definition first_include :: "outer \<Rightarrow> string \<Rightarrow> string \<Rightarrow> bool" where
  "first_include c f f' \<longleftrightarrow> (\<exists>s i is x y. read_file c f = Some s \<and> 0 < fst (tokens_of c s) \<and>
     jsonpath c s (toks c s) ''$.*'' = Some (i # is) \<and> tok_at (toks c s) i = Inr x \<and> tok_at (toks c s) (parent x) = Inr y \<and>
     tok_str s y = Inr ''include'' \<and> tok_type x = JSMN_STRING \<and> tok_str s x = Inr f')"

lemma load_body_include:
  assumes b: "bstr_ok (cbs c)" and calm: "calm (cenv w)" and inc: "first_include c f f'" and rec: "\<And>w. calm (cenv w) \<Longrightarrow> rec f' w = Inl stop"
  shows "load_body c rec f w = Inl stop"
proof -
  obtain s i js x y where f: "read_file c f = Some s" "0 < fst (tokens_of c s)" "jsonpath c s (toks c s) ''$.*'' = Some (i # js)"
    "tok_at (toks c s) i = Inr x" "tok_at (toks c s) (parent x) = Inr y" "tok_str s y = Inr ''include''" "tok_type x = JSMN_STRING"
    "tok_str s x = Inr f'"
    using inc by (auto simp: first_include_def)
  obtain m ts where p: "tokens_of c s = (m, ts)" by (cases "tokens_of c s")
  have t: "take (nat m) ts = toks c s" and m: "0 < m" using f(2) by (simp_all add: p toks_def)
  have "include_file rec s x w = Inl stop" if "calm (cenv w)" for w
    using that f(7,8) rec by (simp add: include_file_def c_take_calm)
  then have "one_entry c rec s (toks c s) m i w = Inl stop" if "calm (cenv w)" for w
    using that f(4-6) b by (simp add: one_entry_def)
  then have "load_tokens c rec s (m, ts) w = Inl stop" if "calm (cenv w)" for w
    using that m f(3) by (simp add: load_tokens_def t c_take_calm)
  then show ?thesis
    using calm f(1) p by (auto simp: load_body_def tokens_of_def c_take_calm c_draw_calm Let_def split: if_splits)
qed


text \<open>The file \<open>m\<close> includes \<open>p\<close>, and \<open>p\<close> includes \<open>m\<close>.\<close>

definition cycle_text :: "char \<Rightarrow> string" where
  "cycle_text f = ''{\"include\":\"'' @ [f] @ ''\"}''"

definition cycle_toks :: "jsmntok list" where
  "cycle_toks = [\<lparr>tok_type = JSMN_OBJECT, tok_start = 0, tok_end = 15, parent = - 1\<rparr>,
     \<lparr>tok_type = JSMN_STRING, tok_start = 2, tok_end = 9, parent = 0\<rparr>,
     \<lparr>tok_type = JSMN_STRING, tok_start = 12, tok_end = 13, parent = 1\<rparr>]"

definition cycle_outer :: outer where
  "cycle_outer = demo_outer\<lparr>read_file := [''m'' \<mapsto> cycle_text CHR ''p'', ''p'' \<mapsto> cycle_text CHR ''m''],
     jsmn_parse := (\<lambda>s n. (3, cycle_toks)), jsonpath := (\<lambda>s t p. Some [2])\<rparr>"


end
