(* ===== verification/Store_Fault.thy ===== *)
theory Store_Fault
  imports Routing
begin

text \<open>
  What happens when a hook for a new store of an endpoint fails (\<open>end.c\<close>, label \<open>cur_cleanup\<close>): the store is
  freed, but the request keeps the pointer to it, and the end of the request follows it.
\<close>

text \<open>A callback that always fails.\<close>

definition fails :: "'u ctx \<Rightarrow> fnptr \<Rightarrow> bool" where
  "fails c f \<longleftrightarrow> (\<forall>r w. \<exists>rc u. call c f r w = Inr (rc, w\<lparr>user := u\<rparr>) \<and> rc \<noteq> 0)"

lemma run_hooks_fails:
  assumes "tame c True fs r w" and "f \<in> set fs" and "fails c f"
  shows "\<exists>w'. run_hooks c True fs r w = Inr (- 1, w') \<and> same_lib w w'"
  using assms(1,2)
proof (induction fs arbitrary: w)
  case (Cons g fs)
  have t: "tame c True [g] r w" "tame c True fs r w" using Cons.prems(1) tame_Cons by blast+
  obtain rc1 w1 where 1: "call_hook c True g r w = Inr (rc1, w1)" "same_lib w w1"
    using call_hook_tame [OF t(1)] by blast
  show ?case
  proof (cases "rc1 = 0")
    case True
    then have "g \<noteq> f" using assms(3) 1(1) by (auto simp: fails_def call_hook_def) (metis Pair_inject sum.inject(2))
    then have "f \<in> set fs" using Cons.prems by simp
    from Cons.IH [OF tame_same_lib [OF t(2) 1(2)] this] show ?thesis using 1 True same_lib_trans [OF 1(2)] by auto
  qed (use 1 in auto)
qed simp


section \<open>The store\<close>

lemma end_store_set_fails:
  assumes b: "benign c" and st: "steady c w"
    and q: "cells (reqs w) r = Some q" and n: "cells (ends w) (endpoint q) = Some n" "store_empty n = 0"
    and f: "f \<in> set (req_fns w (endpoint q) FRA_END_STORE_CREATED)" "fails c f"
  shows "\<exists>w'. fra_p_end_store_set c r w = Inr (- 1, w') \<and> frame w w' \<and>
    cells (reqs w') r = Some (q\<lparr>endpoint_store := brk (stores w)\<rparr>) \<and> brk (stores w) \<noteq> 0 \<and>
    cells (stores w') (brk (stores w)) = None \<and> heap_ok (reqs w') \<and> ends w' = ends w \<and> empty_req_lock w' = empty_req_lock w"
proof -
  define e where "e = endpoint q"
  note n = n [folded e_def]
  note calm = steadyD(1) [OF st] and hr = steadyD(3) [OF st] and he = steadyD(4) [OF st]
    and hs = steadyD(5) [OF st] and lk = steadyD(6) [OF st n(1)] and size = steadyD(7) [OF st n(1)]
  have nz: "r \<noteq> 0" "e \<noteq> 0" using heap_ok_nonnull [OF hr q] heap_ok_nonnull [OF he n(1)] by simp_all
  define n1 where "n1 = n\<lparr>end_lock := pthreads (w_env w)\<rparr>"
  define w1 where "w1 = with_end e n1 w"
  have lock: "lock_end e w = Inr (0, w1)"
    unfolding w1_def n1_def by (rule lock_end_calm [OF calm he n(1) lk])
  define cur where "cur = brk (stores w)"
  define k where "k = \<lparr>s_next = 0, s_bytes = unat (sizeof_end_store + store_size n) - unat sizeof_end_store\<rparr>"
  define h where "h = (stores w)\<lparr>cells := (cells (stores w))(cur \<mapsto> k), brk := Suc cur\<rparr>"
  define w3 where "w3 = with_req r (q\<lparr>endpoint_store := cur\<rparr>) (w1\<lparr>stores := h\<rparr>)"
  have f1: "frame w w1" unfolding w1_def by (rule frame_with_end [OF n(1)]) (simp add: end_core_def n1_def)
  have f3: "frame w w3"
    using f1 by (auto simp: w3_def intro!: frame_trans [OF _ frame_with(1)] frame_trans [OF _ frame_with(4)])
  have he1: "heap_ok (ends w1)" using he n by (simp add: w1_def)
  have he3: "heap_ok (ends w3)" and hr3: "heap_ok (reqs w3)"
    using he1 hr q by (auto simp: w3_def w1_def with_req_def with_end_def intro: heap_ok_upd)
  have q3: "cells (reqs w3) r = Some (q\<lparr>endpoint_store := cur\<rparr>)" by (simp add: w3_def)
  have n3: "cells (ends w3) e = Some n1" by (simp add: w3_def w1_def)
  have "\<exists>w4. run_hooks c True (req_fns w3 e FRA_END_STORE_CREATED) r w3 = Inr (- 1, w4) \<and> same_lib w3 w4"
    by (rule run_hooks_fails [OF benign_tame [OF b] _ f(2)]) (use f(1) frame_hooks [OF f3] in \<open>simp add: e_def\<close>)
  moreover have "fra_p_req_hook_execute c r FRA_END_STORE_CREATED w3 = run_hooks c True (req_fns w3 e FRA_END_STORE_CREATED) r w3"
    using req_hook_execute_runs [OF benign_tame [OF b] steady_mid(1) [OF st f3 he3] he3 nz(1) q3, of FRA_END_STORE_CREATED] n3
    by (simp add: e_def FRA_END_STORE_CREATED_def FRA_HOOK_COUNT_def)
  ultimately obtain w4 where hooks: "fra_p_req_hook_execute c r FRA_END_STORE_CREATED w3 = Inr (- 1, w4)" and s4: "same_lib w3 w4"
    by auto
  note same4 = same_lib_fields [OF s4]
  define w5 where "w5 = w4\<lparr>stores := h\<lparr>cells := (cells h)(cur := None)\<rparr>\<rparr>"
  have cur: "cur \<noteq> 0" using hs by (simp add: cur_def heap_ok_def)
  have fr: "free_store cur w4 = Inr w5"
    using cur same4 by (simp add: free_store_def hfree_def w5_def w3_def w1_def h_def)
  define w6 where "w6 = with_end e n w5"
  have "n1\<lparr>end_lock := False\<rparr> = n" using lk by (simp add: n1_def)
  then have un: "fail_unlock_end e w5 = Inr (- 1, w6)"
    using unlock_end_calm [of w5 e n1] calm he3 n3 same4 by (simp add: fail_unlock_end_def w5_def w6_def n1_def w3_def w1_def)
  have g1: "hget e (ends w1) = Inr n1" using he1 by (intro hget_ok) (simp_all add: w1_def)
  have d1: "w_draw w1 = (True, w1)" using calm by (simp add: w_draw_def draw_calm w1_def)
  have m1: "malloc_bytes sizeof_end_store (store_size n) = Inr (s_bytes k)" using size by (simp add: malloc_bytes_def k_def)
  have new1: "hnew \<lparr>s_next = 0, s_bytes = s_bytes k\<rparr> (stores w1) = (cur, h)"
    by (simp add: hnew_def h_def cur_def k_def w1_def)
  have r1: "upd_req r (endpoint_store_update (\<lambda>_. cur)) (w1\<lparr>stores := h\<rparr>) = Inr w3"
    using upd_req_ok [of "w1\<lparr>stores := h\<rparr>" r q] hr q by (simp add: w3_def w1_def)
  have "fra_p_end_store_set c r w = Inr (- 1, w6)"
    using nz n(2) by (simp add: fra_p_end_store_set_def hget_ok [OF hr q] lock g1 d1 m1 new1 r1 hooks fr un n1_def
      flip: e_def)
  moreover have "frame w w6"
  proof -
    have "frame w4 w5" unfolding w5_def by (rule frame_with(4))
    moreover have "frame w5 w6" unfolding w6_def
      by (rule frame_with_end [where n = n1]) (use n3 same4 in \<open>simp_all add: end_core_def n1_def w5_def\<close>)
    ultimately show ?thesis using f3 same_lib_frame [OF s4] frame_trans by blast
  qed
  moreover have "ends w6 = ends w"
    using same4 n(1) by (simp add: w6_def w5_def w3_def w1_def with_end_def fun_upd_idem)
  ultimately show ?thesis
    using cur same4 hr3 by (intro exI [of _ w6]) (simp add: w6_def w5_def w3_def w1_def h_def flip: cur_def)
qed


lemma maybe_free_dangling:
  assumes "calm (w_env w)" and hr: "heap_ok (reqs w)" and he: "heap_ok (ends w)"
    and q: "cells (reqs w) r = Some q" and n: "cells (ends w) (endpoint q) = Some n" and lk: "\<not> end_lock n"
    and "\<not> over_growth (store_all_count n) (store_empty_count n)"
    and dangling: "endpoint_store q \<noteq> 0" "cells (stores w) (endpoint_store q) = None"
  shows "fra_p_end_store_maybe_free c r w = Inl (Undef Use_after_free)"
proof -
  have nz: "r \<noteq> 0" "endpoint q \<noteq> 0" using heap_ok_nonnull [OF hr q] heap_ok_nonnull [OF he n] by simp_all
  have "hget (endpoint q) (ends (with_end (endpoint q) (n\<lparr>end_lock := pthreads (w_env w)\<rparr>) w)) =
      Inr (n\<lparr>end_lock := pthreads (w_env w)\<rparr>)"
    using he n by (intro hget_ok) simp_all
  then show ?thesis
    using nz assms(7) dangling
    by (simp add: fra_p_end_store_maybe_free_def hget_ok [OF hr q] lock_end_calm [OF assms(1) he n lk] upd_store_def hupd_def)
      (simp add: hget_def)
qed

section \<open>The request\<close>

text \<open>C39: a failing hook for a new store breaks the library. A request for a routed endpoint without
  a cached store one of whose hooks FRA_END_STORE_CREATED fails is not answered with an error:
  \<open>fra_p_end_store_set\<close> frees the new store and leaves \<open>endpoint_store\<close> pointing to it, and
  \<open>fra_p_end_store_maybe_free\<close>, called to finish the request, writes to the freed store.\<close>

theorem failed_store_hook:
  assumes "benign c" and "idle c w" and "hooks_pass c 0 w" and "\<forall>a. endpoint (junk c a) = 0"
    and "accepts w = (arc, env) # rest" and "0 \<le> arc" and "revs AND POLLIN \<noteq> 0"
    and "get_param c ''REQUEST_METHOD'' env = Some verb" and "length verb < 50"
    and "get_param c ''REQUEST_URI'' env = Some uri" and "length uri \<le> 512"
    and route: "routes (urls (w_urls w)) (path_of uri, verb) = Some e"
    and n: "cells (ends w) e = Some n" "store_empty n = 0"
    and f: "f \<in> set (req_fns w e FRA_END_STORE_CREATED)" "fails c f"
  shows "fra_p_req_handle_new c revs w = Inl (Undef Use_after_free)"
proof -
  obtain r q w1 where 1: "fra_p_req_handle_new c revs w = after_split c r w1"
    and b1: "busy c r q w1" and q: "filled 0 verb uri env q"
    and f1: "evolves w w1" "accepts w1 = rest" "ends w1 = ends w"
    and ev1: "events w1 = events w @ accept_events w r arc @ calls r (req_fns w 0 FRA_REQ_BEFORE_ENDPOINT)"
    by (rule up_to_routing [OF assms(2-11)])
  have busy: "busy c r q w1" "endpoint q = 0" using b1 q by (simp_all add: filled_def)
  let ?q2 = "q\<lparr>endpoint := e\<rparr>"
  define w2 where "w2 = with_req r ?q2 w1"
  have "routes (urls (w_urls w1)) (bstr_content (base_url q), bstr_content (req_verb q)) = Some e"
    using route evolves_frame [OF f1(1)] q by (simp add: frame_def filled_def)
  note 2 = find_endpoint_pass [OF busy this, folded w2_def]
  from 2(2) have st: "steady c w2" and q2: "cells (reqs w2) r = Some ?q2" and lk: "\<not> empty_req_lock w2"
    and "store_pool (\<lambda>_. {}) w2" by (simp_all add: routed_def)
  then obtain Y where Y: "store_lists Y (\<lambda>_. {}) (cells (ends w2)) (cells (stores w2))" by (auto simp: store_pool_def)
  have n2: "cells (ends w2) (endpoint ?q2) = Some n" using n(1) f1(3) by (simp add: w2_def)
  have f2: "frame w w2" unfolding w2_def by (rule frame_trans [OF evolves_frame [OF f1(1)] frame_with(1)])
  have "f \<in> set (req_fns w2 (endpoint ?q2) FRA_END_STORE_CREATED)" using f(1) frame_hooks [OF f2] by simp
  from end_store_set_fails [OF assms(1) st q2 n2 n(2) this f(2)] obtain w3 where
    3: "fra_p_end_store_set c r w2 = Inr (- 1, w3)" "frame w2 w3"
    "cells (reqs w3) r = Some (?q2\<lparr>endpoint_store := brk (stores w2)\<rparr>)" "brk (stores w2) \<noteq> 0"
    "cells (stores w3) (brk (stores w2)) = None" "heap_ok (reqs w3)" "ends w3 = ends w2" "empty_req_lock w3 = empty_req_lock w2"
    by blast
  let ?w4 = "say (FCGX_Finish_r (Some r)) (say (FCGX_FPrintF (Some r) error_page) w3)"
  have calm: "calm (w_env w3)" using steadyD(1) [OF st] 3(2) by (simp add: frame_def)
  let ?w5 = "?w4\<lparr>empty_req_lock := pthreads (w_env ?w4)\<rparr>"
  have l: "lock_empty_req ?w4 = Inr (0, ?w5)"
    using calm lk 3(8) by (intro lock_empty_req_calm) (simp_all add: say_def)
  have "fra_p_end_store_maybe_free c r ?w5 = Inl (Undef Use_after_free)"
    using calm 3 n2 steadyD(4) [OF st] steadyD(6) [OF st n2] store_lists_counts [OF Y n2]
    by (intro maybe_free_dangling [where q = "?q2\<lparr>endpoint_store := brk (stores w2)\<rparr>" and n = n]) (simp_all add: say_def)
  then show ?thesis
    using 2(1) 3(1) l by (simp add: 1 w2_def or_fcgx_cleanup_def fcgx_cleanup_def req_cleanup_def req_maybe_free_def)
qed


section \<open>Witness\<close>

text \<open>The sample program with a hook for new stores that fails.\<close>

definition stubborn_hooks :: hook_globals where
  "stubborn_hooks = one_hook \<lparr>h_next = 0, h_callback = 13, h_priority = Fin 10\<rparr> [0, 0, 0, 0, 0, 0, 0]"

definition stubborn_world :: "url_globals \<Rightarrow> nat world" where
  "stubborn_world = sample_world stubborn_hooks [0, 1, 0, 0, 0, 0, 0]"

lemma stubborn_idle:
  assumes "routes_ready plain_bstr g" and "routes (urls g) = [(''/a'', ''GET'') \<mapsto> 1]"
  shows "idle demo_ctx (stubborn_world g)"
  unfolding stubborn_world_def by (rule sample_idle [OF assms]) (unfold stubborn_hooks_def, rule sample_hooks_ok, simp_all)

theorem failed_store_hook_witness:
  "\<exists>g. routes (urls g) = [(''/a'', ''GET'') \<mapsto> 1] \<and> idle demo_ctx (stubborn_world g) \<and>
    fra_p_req_handle_new demo_ctx POLLIN (stubborn_world g) = Inl (Undef Use_after_free)"
proof -
  obtain g where g: "routes_ready plain_bstr g" "routes (urls g) = [(''/a'', ''GET'') \<mapsto> 1]"
    using demo_routes by blast
  let ?w = "stubborn_world g"
  have w: "accepts ?w = [(0, demo_env)]" "urls (w_urls ?w) = urls g" "cells (ends ?w) 1 = Some (demo_end\<lparr>hooks := Live [0, 1, 0, 0, 0, 0, 0]\<rparr>)"
    "store_empty (demo_end\<lparr>hooks := Live [0, 1, 0, 0, 0, 0, 0]\<rparr>) = 0"
    by (simp_all add: stubborn_world_def sample_world_def demo_world_def demo_end_def)
  have params: "get_param demo_ctx ''REQUEST_METHOD'' demo_env = Some ''GET''"
    "get_param demo_ctx ''REQUEST_URI'' demo_env = Some ''/a?x=1''"
    by (simp_all add: demo_ctx_def demo_env_def)
  have pass: "hooks_pass demo_ctx 0 ?w"
  proof -
    have "req_fns ?w 0 type = []" if "0 \<le> type" and "type < FRA_REQ_NEW" for type
    proof -
      from that have "type \<in> {0, 1, 2, 3}" by (auto simp: FRA_REQ_NEW_def)
      then show ?thesis
        by (auto simp: req_fns_def array_fns_def stubborn_world_def sample_world_def demo_world_def stubborn_hooks_def one_hook_def numeral_eq_Suc)
    qed
    moreover have "glob_fns ?w FRA_REQ_INCOMING = []"
      by (simp add: glob_fns_def array_fns_def stubborn_world_def sample_world_def demo_world_def stubborn_hooks_def one_hook_def FRA_REQ_INCOMING_def numeral_eq_Suc)
    ultimately show ?thesis by (simp add: hooks_pass_def)
  qed
  have f: "13 \<in> set (req_fns ?w 1 FRA_END_STORE_CREATED)" "fails demo_ctx 13"
    by (simp add: req_fns_def array_fns_def stubborn_world_def sample_world_def demo_world_def stubborn_hooks_def one_hook_def
        FRA_END_STORE_CREATED_def eval_nat_numeral) (auto simp: fails_def demo_ctx_def)
  have "fra_p_req_handle_new demo_ctx POLLIN ?w = Inl (Undef Use_after_free)"
    using failed_store_hook [OF demo_benign stubborn_idle [OF g] pass _ w(1) _ _ params(1) _ params(2) _ _ w(3,4) f, of POLLIN] g(2)
    by (simp add: POLLIN_def w(2)) (simp add: demo_ctx_def)
  with g stubborn_idle show ?thesis by blast
qed

end
