(* ===== verification/Macros.thy ===== *)
theory Macros
  imports Access
begin

text \<open>
  The macros of \<open>src/include/fra/core.h\<close> by which a program registers and reads variables: they
  write the type of the variable next to its name, once as a string for the check in
  \<open>var_get\<close> and once as the type of the access.
\<close>

section \<open>Types\<close>

text \<open>The types with a macro of their own, their spelling and their size on x86-64.\<close>

datatype ctype = C_char | C_signed_char | C_unsigned_char | C_short | C_unsigned_short | C_int | C_unsigned_int
  | C_long | C_unsigned_long | C_long_long | C_unsigned_long_long | C_float | C_double | C_long_double | C_char_ptr

fun ctype_name :: "ctype \<Rightarrow> string" where
  "ctype_name C_char = ''char''"
| "ctype_name C_signed_char = ''signed char''"
| "ctype_name C_unsigned_char = ''unsigned char''"
| "ctype_name C_short = ''short''"
| "ctype_name C_unsigned_short = ''unsigned short''"
| "ctype_name C_int = ''int''"
| "ctype_name C_unsigned_int = ''unsigned int''"
| "ctype_name C_long = ''long''"
| "ctype_name C_unsigned_long = ''unsigned long''"
| "ctype_name C_long_long = ''long long''"
| "ctype_name C_unsigned_long_long = ''unsigned long long''"
| "ctype_name C_float = ''float''"
| "ctype_name C_double = ''double''"
| "ctype_name C_long_double = ''long double''"
| "ctype_name C_char_ptr = ''char *''"

fun ctype_size :: "ctype \<Rightarrow> nat" where
  "ctype_size C_char = 1"
| "ctype_size C_signed_char = 1"
| "ctype_size C_unsigned_char = 1"
| "ctype_size C_short = 2"
| "ctype_size C_unsigned_short = 2"
| "ctype_size C_int = 4"
| "ctype_size C_unsigned_int = 4"
| "ctype_size C_float = 4"
| "ctype_size C_long_double = 16"
| "ctype_size _ = 8"

section \<open>Registration and access\<close>

definition fra_reg :: "bstrlib \<Rightarrow> addr \<Rightarrow> string \<Rightarrow> ctype \<Rightarrow> 'u op" where
  "fra_reg b e name type w = fra_end_var_reg b e name (ctype_name type) (of_nat (ctype_size type)) w"

definition fra_req_reg :: "bstrlib \<Rightarrow> string \<Rightarrow> ctype \<Rightarrow> 'u op" where
  "fra_req_reg b name type w =
     bindo (fra_req_var_reg b name (ctype_name type) (of_nat (ctype_size type)) (w_vars w) (w_env w)) (\<lambda>(rc, g, v).
       Inr (rc, w\<lparr>w_vars := g, w_env := v\<rparr>))"

text \<open>The bytes behind a pointer that belong to the same block.\<close>

definition in_bounds :: "var_ptr \<Rightarrow> nat \<Rightarrow> 'u world \<Rightarrow> bool" where
  "in_bounds p n w = (case p of
     In_request r pos \<Rightarrow> (case cells (reqs w) r of None \<Rightarrow> False | Some q \<Rightarrow> unat pos + n \<le> req_store q)
   | In_store s pos \<Rightarrow> (case cells (stores w) s of None \<Rightarrow> False | Some k \<Rightarrow> unat pos + n \<le> s_bytes k))"

text \<open>\<open>*( (type *)p )\<close> as a place in memory.\<close>

definition lvalue :: "ctype \<Rightarrow> var_ptr option \<Rightarrow> 'u world \<Rightarrow> var_ptr outcome" where
  "lvalue type p w = (case p of None \<Rightarrow> Inl (Undef Null_deref)
     | Some p \<Rightarrow> if in_bounds p (ctype_size type) w then Inr p else Inl (Undef Out_of_bounds))"

definition fra_ds :: "'u ctx \<Rightarrow> addr \<Rightarrow> string \<Rightarrow> int \<Rightarrow> ctype \<Rightarrow> 'u world \<Rightarrow> var_ptr outcome" where
  "fra_ds c req name name_len type w =
     bindo (fra_var_get c req name name_len (ctype_name type) (int (length (ctype_name type)) + 1) w) (\<lambda>p. lvalue type p w)"

text \<open>\<open>sizeof\<close> of a literal counts the terminator.\<close>

definition fra :: "'u ctx \<Rightarrow> addr \<Rightarrow> string \<Rightarrow> ctype \<Rightarrow> 'u world \<Rightarrow> var_ptr outcome" where
  "fra c req name type w =
     bindo (fra_var_get c req name (int (length name) + 1) (ctype_name type) (int (length (ctype_name type)) + 1) w)
       (\<lambda>p. lvalue type p w)"

definition fra_c :: "'u ctx \<Rightarrow> addr \<Rightarrow> string \<Rightarrow> 'u world \<Rightarrow> var_ptr outcome" where
  "fra_c c req name = fra c req name C_char"
definition fra_sc :: "'u ctx \<Rightarrow> addr \<Rightarrow> string \<Rightarrow> 'u world \<Rightarrow> var_ptr outcome" where
  "fra_sc c req name = fra c req name C_signed_char"
definition fra_uc :: "'u ctx \<Rightarrow> addr \<Rightarrow> string \<Rightarrow> 'u world \<Rightarrow> var_ptr outcome" where
  "fra_uc c req name = fra c req name C_unsigned_char"
definition fra_s :: "'u ctx \<Rightarrow> addr \<Rightarrow> string \<Rightarrow> 'u world \<Rightarrow> var_ptr outcome" where
  "fra_s c req name = fra c req name C_short"
definition fra_us :: "'u ctx \<Rightarrow> addr \<Rightarrow> string \<Rightarrow> 'u world \<Rightarrow> var_ptr outcome" where
  "fra_us c req name = fra c req name C_unsigned_short"
definition fra_i :: "'u ctx \<Rightarrow> addr \<Rightarrow> string \<Rightarrow> 'u world \<Rightarrow> var_ptr outcome" where
  "fra_i c req name = fra c req name C_int"
definition fra_ui :: "'u ctx \<Rightarrow> addr \<Rightarrow> string \<Rightarrow> 'u world \<Rightarrow> var_ptr outcome" where
  "fra_ui c req name = fra c req name C_unsigned_int"
definition fra_l :: "'u ctx \<Rightarrow> addr \<Rightarrow> string \<Rightarrow> 'u world \<Rightarrow> var_ptr outcome" where
  "fra_l c req name = fra c req name C_long"
definition fra_ul :: "'u ctx \<Rightarrow> addr \<Rightarrow> string \<Rightarrow> 'u world \<Rightarrow> var_ptr outcome" where
  "fra_ul c req name = fra c req name C_unsigned_long"
definition fra_ll :: "'u ctx \<Rightarrow> addr \<Rightarrow> string \<Rightarrow> 'u world \<Rightarrow> var_ptr outcome" where
  "fra_ll c req name = fra c req name C_long_long"
definition fra_ull :: "'u ctx \<Rightarrow> addr \<Rightarrow> string \<Rightarrow> 'u world \<Rightarrow> var_ptr outcome" where
  "fra_ull c req name = fra c req name C_unsigned_long_long"
definition fra_f :: "'u ctx \<Rightarrow> addr \<Rightarrow> string \<Rightarrow> 'u world \<Rightarrow> var_ptr outcome" where
  "fra_f c req name = fra c req name C_float"
definition fra_d :: "'u ctx \<Rightarrow> addr \<Rightarrow> string \<Rightarrow> 'u world \<Rightarrow> var_ptr outcome" where
  "fra_d c req name = fra c req name C_double"
definition fra_ld :: "'u ctx \<Rightarrow> addr \<Rightarrow> string \<Rightarrow> 'u world \<Rightarrow> var_ptr outcome" where
  "fra_ld c req name = fra c req name C_long_double"
definition fra_cp :: "'u ctx \<Rightarrow> addr \<Rightarrow> string \<Rightarrow> 'u world \<Rightarrow> var_ptr outcome" where
  "fra_cp c req name = fra c req name C_char_ptr"

section \<open>Agreement of the two\<close>

lemma ctype_name_inj: "ctype_name s = ctype_name t \<Longrightarrow> s = t"
  by (cases s; cases t) simp_all

lemma ctype_size_small: "unat (of_nat (ctype_size t) :: u64) = ctype_size t"
  by (cases t) simp_all

lemma fra_ok:
  assumes "readable c r q w" and "name \<noteq> []"
  shows "fra c r name type w = (case find_var r q name w of None \<Rightarrow> Inl (Undef Null_deref)
    | Some (p, x) \<Rightarrow> if var_type x = ctype_name type then lvalue type (Some p) w else Inl (Undef Null_deref))"
  using fra_var_get_ok [OF assms(1), of "length name" name] assms(2)
  by (auto simp: fra_def lvalue_def split: option.splits)


section \<open>Properties\<close>

lemma fra_req_reg_ok:
  assumes lib: "lib c n w" and room: "glob_store_size (w_vars w) < SIZE_MAX - of_nat (ctype_size ty)"
    and fresh: "map_of_ptr (glob_store_map (w_vars w)) name = None"
  shows "\<exists>w1 m. fra_req_reg (bs c) name ty w = Inr (0, w1) \<and> glob_store_map (w_vars w1) = Live m \<and> map_ok m \<and>
    (\<exists>m0. glob_store_map (w_vars w) = Live m0 \<and>
       ht_map m = (ht_map m0)(name \<mapsto> \<lparr>var_type = ctype_name ty, position = glob_store_size (w_vars w)\<rparr>)) \<and>
    glob_store_size (w_vars w1) = glob_store_size (w_vars w) + of_nat (ctype_size ty) \<and>
    (\<exists>g v. w1 = w\<lparr>w_vars := g, w_env := v\<rparr>) \<and>
    (unat (sizeof_req c) \<le> unat (sizeof_req c + glob_store_size (w_vars w1)) \<longrightarrow> lib c n w1)"
proof -
  let ?sz = "of_nat (ctype_size ty) :: u64"
  obtain rc g v m0 m where r: "fra_req_var_reg (bs c) name (ctype_name ty) ?sz (w_vars w) (w_env w) = Inr (rc, g, v)"
    and l: "unat (sizeof_req c) \<le> unat (sizeof_req c + glob_store_size g) \<longrightarrow> lib c n (w\<lparr>w_vars := g, w_env := v\<rparr>)"
    and ok: "rc = 0" "glob_store_size g = glob_store_size (w_vars w) + ?sz" "glob_store_map (w_vars w) = Live m0"
      "glob_store_map g = Live m" "map_ok m"
      "ht_map m = first_wins (ht_map m0) name \<lparr>var_type = ctype_name ty, position = glob_store_size (w_vars w)\<rparr>"
    using lib_req_var [OF lib, of name "ctype_name ty" ?sz] room by blast
  have "ht_map m = (ht_map m0)(name \<mapsto> \<lparr>var_type = ctype_name ty, position = glob_store_size (w_vars w)\<rparr>)"
    using fresh ok(3,6) by (simp add: map_of_ptr_def first_wins_def)
  with r l ok show ?thesis
    by (intro exI [of _ "w\<lparr>w_vars := g, w_env := v\<rparr>"] exI [of _ m]) (auto simp: fra_req_reg_def)
qed

lemma room_fits:
  fixes s sz :: u64
  assumes "s < SIZE_MAX - sz"
  shows "unat (s + sz) = unat s + unat sz"
proof -
  have "unat (SIZE_MAX - sz) = unat SIZE_MAX - unat sz"
    by (simp add: SIZE_MAX_def unat_sub_if' word_le_nat_alt [symmetric])
  then have "unat s < unat SIZE_MAX - unat sz" using assms by (simp add: word_less_nat_alt)
  then have "unat s + unat sz < 2 ^ LENGTH(64)" by (simp add: unat_SIZE_MAX)
  then show ?thesis by (simp add: unat_plus_if')
qed

text \<open>C29: the macros agree with each other. A variable with a new name that is registered with
  \<open>fra_req_reg\<close> for one of the types is found by \<open>fra\<close> through every request that has room for the
  registered variables: with the same type it gives the place behind the variables registered before, all of whose
  bytes lie within the block of the request, and with any other type it dereferences \<open>NULL\<close>.\<close>

theorem macros_agree:
  assumes "lib c n w" and room: "glob_store_size (w_vars w) < SIZE_MAX - of_nat (ctype_size ty)"
    and "map_of_ptr (glob_store_map (w_vars w)) name = None" and name: "name \<noteq> []"
  shows "\<exists>w1. fra_req_reg (bs c) name ty w = Inr (0, w1) \<and>
    (\<forall>r q w2. w_vars w2 = w_vars w1 \<longrightarrow> readable c r q w2 \<longrightarrow> unat (glob_store_size (w_vars w2)) \<le> req_store q \<longrightarrow>
       fra c r name ty w2 = Inr (In_request r (glob_store_size (w_vars w))) \<and>
       unat (glob_store_size (w_vars w)) + ctype_size ty \<le> req_store q \<and>
       (\<forall>ty'. ty' \<noteq> ty \<longrightarrow> fra c r name ty' w2 = Inl (Undef Null_deref)))"
proof -
  let ?s = "glob_store_size (w_vars w)"
  obtain w1 m where 1: "fra_req_reg (bs c) name ty w = Inr (0, w1)" "glob_store_map (w_vars w1) = Live m"
    "ht_map m name = Some \<lparr>var_type = ctype_name ty, position = ?s\<rparr>"
    "glob_store_size (w_vars w1) = ?s + of_nat (ctype_size ty)"
    using fra_req_reg_ok [OF assms(1-3)] by fastforce
  have "fra c r name ty w2 = Inr (In_request r ?s) \<and> unat ?s + ctype_size ty \<le> req_store q \<and>
      (\<forall>ty'. ty' \<noteq> ty \<longrightarrow> fra c r name ty' w2 = Inl (Undef Null_deref))"
    if v: "w_vars w2 = w_vars w1" and rd: "readable c r q w2" and sz: "unat (glob_store_size (w_vars w2)) \<le> req_store q" for r q w2
  proof -
    have find: "find_var r q name w2 = Some (In_request r ?s, \<lparr>var_type = ctype_name ty, position = ?s\<rparr>)"
      using v 1(2,3) by (simp add: find_var_def map_of_ptr_def)
    have fits: "unat ?s + ctype_size ty \<le> req_store q"
      using sz v 1(4) room_fits [OF room] by (simp add: ctype_size_small)
    moreover have "cells (reqs w2) r = Some q" using rd by (simp add: readable_def)
    ultimately have "lvalue ty (Some (In_request r ?s)) w2 = Inr (In_request r ?s)"
      by (simp add: lvalue_def in_bounds_def)
    then show ?thesis using fra_ok [OF rd name] find fits ctype_name_inj by (auto split: if_splits)
  qed
  with 1(1) show ?thesis by blast
qed


section \<open>Witness\<close>

theorem macros_agree_witness:
  "\<exists>w w1 w2. lib demo_ctx 0 w \<and> fra_req_reg plain_bstr ''n'' C_int w = Inr (0, w1) \<and> w_vars w2 = w_vars w1 \<and>
    fra demo_ctx 1 ''n'' C_int w2 = Inr (In_request 1 0) \<and> fra demo_ctx 1 ''n'' C_long w2 = Inl (Undef Null_deref)"
proof -
  obtain w m0 where w: "lib demo_ctx 0 w" "glob_store_size (w_vars w) = 0" "glob_store_map (w_vars w) = Live m0" "ht_map m0 = Map.empty"
    using init_ok [OF demo_unborn demo_fuel demo_bs demo_fn] by (auto simp: demo_start_def quiet_env_def)
  have room: "glob_store_size (w_vars w) < SIZE_MAX - of_nat (ctype_size C_int)"
    by (simp add: w(2) SIZE_MAX_def word_less_nat_alt)
  have fresh: "map_of_ptr (glob_store_map (w_vars w)) ''n'' = None" by (simp add: w(3,4) map_of_ptr_def)
  obtain w1 m where 1: "fra_req_reg (bs demo_ctx) ''n'' C_int w = Inr (0, w1)" "glob_store_map (w_vars w1) = Live m" "map_ok m"
    "glob_store_size (w_vars w1) = 4"
    using fra_req_reg_ok [OF w(1) room fresh] by (auto simp: w(2))
  define w2 where "w2 = w1\<lparr>reqs := \<lparr>cells = [1 \<mapsto> var_req 4], brk = 2\<rparr>\<rparr>"
  have "readable demo_ctx 1 (var_req 4) w2"
    using 1(2,3) demo_bs by (simp add: readable_def w2_def) (simp add: var_req_def demo_ctx_def)
  moreover have "w_vars w2 = w_vars w1" "unat (glob_store_size (w_vars w2)) \<le> req_store (var_req 4)"
    by (simp_all add: w2_def 1(4))
  ultimately have "fra demo_ctx 1 ''n'' C_int w2 = Inr (In_request 1 0) \<and> fra demo_ctx 1 ''n'' C_long w2 = Inl (Undef Null_deref)"
    using macros_agree [OF w(1) room fresh] 1(1) w(2) by auto
  with w(1) 1(1) show ?thesis
    by (intro exI [of _ w] exI [of _ w1] exI [of _ w2]) (simp add: w2_def)
qed

end
