(* ===== verification/Example.thy ===== *)
theory Example
  imports Macros
begin

text \<open>
  The example program \<open>src/example/fra-server-example.c\<close> as a whole: its callbacks, its
  \<open>main\<close>, and what it answers. It is the build with \<open>NDEBUG\<close>, as in the Makefile, in which the
  calls of \<open>debug\<close> are empty. The two calls of \<open>freopen\<close> for its log files are left out.
\<close>

section \<open>The program\<close>

text \<open>What belongs to the program: the contents of its variables, by their places, and what it has
  written to the output streams of requests.\<close>

record client =
  mem :: "var_ptr \<Rightarrow> int option"
  out :: "(addr \<times> string) list"

definition hello_world_fn :: fnptr where "hello_world_fn = 101"
definition hello_world2_fn :: fnptr where "hello_world2_fn = 102"
definition hello_world3_fn :: fnptr where "hello_world3_fn = 103"
definition hello_world4_fn :: fnptr where "hello_world4_fn = 104"
definition hello_world5_fn :: fnptr where "hello_world5_fn = 105"
definition handle_fn :: fnptr where "handle_fn = 106"
definition say_bye_fn :: fnptr where "say_bye_fn = 107"

lemmas example_fns = hello_world_fn_def hello_world2_fn_def hello_world3_fn_def hello_world4_fn_def hello_world5_fn_def
  handle_fn_def say_bye_fn_def

definition hello_world :: "addr \<Rightarrow> client op" where
  "hello_world req w = Inr (0, w)"

definition hello_world2 :: "client ctx \<Rightarrow> addr \<Rightarrow> client op" where
  "hello_world2 c req w =
     bindo (fra c req ''buhu'' C_int w) (\<lambda>p.
       Inr (0, w\<lparr>user := (user w)\<lparr>mem := (mem (user w))(p \<mapsto> 188)\<rparr>\<rparr>))"

definition hello_world3 :: "client op" where "hello_world3 w = Inr (0, w)"
definition hello_world4 :: "client op" where "hello_world4 w = Inr (0, w)"
definition hello_world5 :: "client op" where "hello_world5 w = Inr (0, w)"

text \<open>\<open>FCGX_FPrintF( fra_req_fcgx( req )->out, ... )\<close>\<close>

definition print_page :: "string \<Rightarrow> addr \<Rightarrow> client op" where
  "print_page page req w =
     bindo (fra_req_fcgx req w) (\<lambda>f.
       if f = 0 then Inl (Undef Null_deref)
       else Inr (0, w\<lparr>user := (user w)\<lparr>out := out (user w) @ [(req, page)]\<rparr>\<rparr>))"

definition hello_page :: string where
  "hello_page = ''Status: 200 OK'' @ crlf @ ''Content-type: application/json; charset=utf-8'' @ crlf @ crlf @
     ''{ \"msg\": \"Hello world :)\" }'' @ crlf"

definition bye_page :: string where
  "bye_page = ''Status: 200 OK'' @ crlf @ ''Content-type: application/json; charset=utf-8'' @ crlf @ crlf @
     ''{ \"msg\": \"Bye bye :(\" }'' @ crlf"

definition handle :: "addr \<Rightarrow> client op" where "handle = print_page hello_page"
definition say_bye :: "addr \<Rightarrow> client op" where "say_bye = print_page bye_page"

definition example_call :: "client ctx \<Rightarrow> fnptr \<Rightarrow> addr \<Rightarrow> client op" where
  "example_call c f r w =
     (if f = hello_world_fn then hello_world r w
      else if f = hello_world2_fn then hello_world2 c r w
      else if f = handle_fn then handle r w
      else if f = say_bye_fn then say_bye r w
      else Inl (Undef Wild_call))"

definition example_call_glob :: "fnptr \<Rightarrow> client op" where
  "example_call_glob f w =
     (if f = hello_world3_fn then hello_world3 w
      else if f = hello_world4_fn then hello_world4 w
      else if f = hello_world5_fn then hello_world5 w
      else Inl (Undef Wild_call))"

text \<open>The program linked with the outside \<open>c\<close>.\<close>

definition example_ctx :: "client ctx \<Rightarrow> client ctx" where
  "example_ctx c = c\<lparr>call := example_call c, call_glob := example_call_glob\<rparr>"

definition reg_req_hook :: "int \<Rightarrow> fnptr \<Rightarrow> cfloat \<Rightarrow> client op" where
  "reg_req_hook type cb prio w = bindo (fra_req_hook_reg type cb prio (w_hooks w) (w_env w)) (\<lambda>(rc, g, v).
     Inr (rc, w\<lparr>w_hooks := g, w_env := v\<rparr>))"

definition reg_glob_hook :: "int \<Rightarrow> fnptr \<Rightarrow> cfloat \<Rightarrow> client op" where
  "reg_glob_hook type cb prio w = bindo (fra_glob_hook_reg type cb prio (w_hooks w) (w_env w)) (\<lambda>(rc, g, v).
     Inr (rc, w\<lparr>w_hooks := g, w_env := v\<rparr>))"

definition add_url :: "client ctx \<Rightarrow> addr \<Rightarrow> string \<Rightarrow> string \<Rightarrow> client op" where
  "add_url c e verb url w = bindo (fra_end_url_add (bs c) e verb url (w_urls w) (w_env w)) (\<lambda>(rc, g, v).
     Inr (rc, w\<lparr>w_urls := g, w_env := v\<rparr>))"

text \<open>One endpoint with its callback and its url.\<close>

definition make_end :: "client ctx \<Rightarrow> fnptr \<Rightarrow> string \<Rightarrow> client op" where
  "make_end c cb url w =
     (let (e, w) = fra_end_new 20 w in
      if e = 0 then Inr (- 1, w)
      else
        or_fail (fra_end_callback_set e cb w) (\<lambda>w.
        or_fail (add_url c e ''GET'' url w) (\<lambda>w. Inr (0, w))))"

text \<open>The values of the priorities are the \<open>float\<close> nearest to the literals.\<close>

definition hooks_setup :: "client op" where
  "hooks_setup w =
     or_fail (reg_req_hook FRA_REQ_NEW hello_world_fn (Fin (13421773 / 134217728)) w) (\<lambda>w.
     or_fail (reg_glob_hook FRA_REQ_INCOMING hello_world3_fn (Fin (5471539 / 1024)) w) (\<lambda>w.
     or_fail (reg_glob_hook FRA_REQ_INCOMING hello_world4_fn (Fin (8901427 / 16384)) w) (\<lambda>w.
     or_fail (reg_req_hook FRA_REQ_NEW hello_world2_fn (Fin (13287555 / 134217728)) w) (\<lambda>w.
     or_fail (reg_glob_hook FRA_REQ_INCOMING hello_world5_fn (Fin (5471539 / 1024)) w) (\<lambda>w. Inr (0, w))))))"

definition example_setup :: "client ctx \<Rightarrow> client op" where
  "example_setup c w =
     or_fail (fra_glob_init (example_ctx c) w) (\<lambda>w.
     or_fail (hooks_setup w) (\<lambda>w.
     or_fail (fra_req_reg (bs c) ''buhu'' C_int w) (\<lambda>w.
     or_fail (make_end c handle_fn ''/say/hello'' w) (\<lambda>w.
     or_fail (make_end c say_bye_fn ''/say/bye'' w) (\<lambda>w. Inr (0, w))))))"

definition example_main :: "client ctx \<Rightarrow> client op" where
  "example_main c w = or_fail (example_setup c w) (\<lambda>w. bindo (fra_glob_poll (example_ctx c) w) (\<lambda>(rc, w). Inr (0, w)))"


section \<open>The hooks\<close>

definition example_hooks :: hook_globals where
  "example_hooks = \<lparr>hookmem = \<lparr>cells = [
       1 \<mapsto> \<lparr>h_next = 0, h_callback = hello_world_fn, h_priority = Fin (13421773 / 134217728)\<rparr>,
       2 \<mapsto> \<lparr>h_next = 5, h_callback = hello_world3_fn, h_priority = Fin (5471539 / 1024)\<rparr>,
       3 \<mapsto> \<lparr>h_next = 2, h_callback = hello_world4_fn, h_priority = Fin (8901427 / 16384)\<rparr>,
       4 \<mapsto> \<lparr>h_next = 1, h_callback = hello_world2_fn, h_priority = Fin (13287555 / 134217728)\<rparr>,
       5 \<mapsto> \<lparr>h_next = 0, h_callback = hello_world5_fn, h_priority = Fin (5471539 / 1024)\<rparr>], brk = 6\<rparr>,
     glob_hooks = Live [3], req_hooks = Live [0, 0, 0, 0, 4, 0, 0], glob_hooks_lock = False, req_hooks_lock = False\<rparr>"

lemma example_fns_nonnull [simp]: "hello_world_fn \<noteq> 0" "hello_world2_fn \<noteq> 0" "hello_world3_fn \<noteq> 0" "hello_world4_fn \<noteq> 0"
  "hello_world5_fn \<noteq> 0" "handle_fn \<noteq> 0" "say_bye_fn \<noteq> 0"
  "0 < hello_world_fn" "0 < hello_world2_fn" "0 < hello_world3_fn" "0 < hello_world4_fn" "0 < hello_world5_fn"
  by (simp_all add: example_fns)

lemma hooks_setup_run:
  assumes "w_hooks w = hooks0" and "calm (w_env w)" and "\<not> pthreads (w_env w)"
  shows "hooks_setup w = Inr (0, w\<lparr>w_hooks := example_hooks\<rparr>)"
  using assms
  by (simp add: hooks_setup_def reg_req_hook_def reg_glob_hook_def fra_req_hook_reg_def fra_glob_hook_reg_def hook_reg_def hooks0_def
      no_hooks_def heap_empty_def draw_calm hnew_def lock_opt_def unlock_opt_def fra_p_lock_def fra_p_unlock_def hook_link_def
      set_next_def hget_def hput_def FRA_REQ_NEW_def FRA_REQ_INCOMING_def FRA_HOOK_COUNT_def FRA_GLOB_HOOK_COUNT_def
      Let_def eval_nat_numeral)
    (simp add: example_hooks_def eval_nat_numeral fun_eq_iff)


lemma example_hooks_inv:
  assumes "w_hooks w = example_hooks" and "ends w = heap_empty"
  shows "hooks_inv w"
proof -
  let ?h = "hookmem example_hooks"
  define X :: "hook_key \<Rightarrow> addr list list" where
    "X k = (case k of Inl Glob_hooks_lock \<Rightarrow> [[3, 2, 5]] | Inl Req_hooks_lock \<Rightarrow> [[], [], [], [], [4, 1], [], []] | Inr e \<Rightarrow> [])" for k
  have heap: "heap_ok ?h" by (auto simp: heap_ok_def example_hooks_def split: if_splits)
  have glob: "hook_tab ?h (glob_hooks example_hooks) FRA_GLOB_HOOK_COUNT [[3, 2, 5]]"
    unfolding hook_tab_def hook_table_def using heap
    by (simp add: example_hooks_def hook_val_def hook_addrs_def FRA_GLOB_HOOK_COUNT_def)
  have req: "hook_tab ?h (req_hooks example_hooks) FRA_HOOK_COUNT [[], [], [], [], [4, 1], [], []]"
    unfolding hook_tab_def hook_table_def using heap
    by (simp add: example_hooks_def hook_val_def hook_addrs_def FRA_HOOK_COUNT_def numeral_eq_Suc All_less_Suc)
  have "hook_tab ?h arr (hook_cnt k) (X k)" if "hook_arr example_hooks (cells (ends w)) k = Some arr" for k arr
    using that glob req assms(2)
    by (cases "(example_hooks, cells (ends w), k)" rule: hook_arr.cases) (auto simp: X_def heap_empty_def)
  moreover have "hook_addrs (X k) \<inter> hook_addrs (X k') = {}"
    if "k \<noteq> k'" "hook_arr example_hooks (cells (ends w)) k = Some arr" "hook_arr example_hooks (cells (ends w)) k' = Some arr'" for k k' arr arr'
    using that assms(2)
    by (cases "(example_hooks, cells (ends w), k)" rule: hook_arr.cases;
        cases "(example_hooks, cells (ends w), k')" rule: hook_arr.cases) (auto simp: X_def heap_empty_def hook_addrs_def)
  moreover have "\<exists>k. hook_arr example_hooks (cells (ends w)) k \<noteq> None \<and> x \<in> hook_addrs (X k)" if "cells ?h x \<noteq> None" for x
  proof -
    have "x \<in> {3, 2, 5} \<or> x \<in> {4, 1}" using that by (simp add: example_hooks_def split: if_splits)
    then show ?thesis
    proof
      assume "x \<in> {3, 2, 5}"
      then show ?thesis by (intro exI [of _ "Inl Glob_hooks_lock"]) (simp add: X_def hook_addrs_def)
    next
      assume "x \<in> {4, 1}"
      then show ?thesis by (intro exI [of _ "Inl Req_hooks_lock"]) (simp add: X_def hook_addrs_def)
    qed
  qed
  ultimately have "hook_tabs ?h (hook_arr example_hooks (cells (ends w))) X"
    using heap unfolding hook_tabs_def by blast
  then show ?thesis using assms(1) by (auto simp: hooks_inv_def)
qed

section \<open>Before the loop\<close>

lemma example_ctx_simps [simp]:
  "bs (example_ctx c) = bs c" "fuel (example_ctx c) = fuel c" "junk (example_ctx c) = junk c"
  "get_param (example_ctx c) = get_param c" "sizeof_req (example_ctx c) = sizeof_req c"
  "handle_new_fn (example_ctx c) = handle_new_fn c" "call (example_ctx c) = example_call c"
  "call_glob (example_ctx c) = example_call_glob"
  by (simp_all add: example_ctx_def)

text \<open>An endpoint of the program.\<close>

definition end_with :: "fnptr \<Rightarrow> fra_end \<Rightarrow> bool" where
  "end_with cb k \<longleftrightarrow> callback k = cb \<and> hooks k = Live (replicate (nat FRA_HOOK_COUNT) 0)"

lemma make_end_ok:
  assumes lib: "lib (example_ctx c) n w" and url: "length url < FRA_CORE_MAX_ENDPOINT_LENGTH"
  shows "\<exists>e k w'. make_end c cb url w = Inr (0, w') \<and> lib (example_ctx c) n w' \<and> cells (ends w) e = None \<and>
    cells (ends w') = (cells (ends w))(e \<mapsto> k) \<and> end_with cb k \<and>
    routes (urls (w_urls w')) = first_wins (routes (urls (w_urls w))) (url, ''GET'') e \<and>
    (\<exists>h v g. w' = w\<lparr>ends := h, w_env := v, w_urls := g\<rparr>)"
proof -
  have cnt: "0 < (20 :: int)" "(20 :: int) < 2 ^ 31" by simp_all
  obtain e w1 k where 1: "fra_end_new 20 w = (e, w1)" "e \<noteq> 0" "cells (ends w) e = None" "cells (ends w1) e = Some k"
      "hooks k = Live (replicate (nat FRA_HOOK_COUNT) 0)" "w_urls w1 = w_urls w" "lib (example_ctx c) n w1"
      "ends w1 = (ends w)\<lparr>cells := (cells (ends w))(e \<mapsto> k), brk := Suc e\<rparr>" and w1: "\<exists>h v. w1 = w\<lparr>ends := h, w_env := v\<rparr>"
    using lib_end_new [OF lib cnt] by blast
  let ?k = "k\<lparr>callback := cb\<rparr>" and ?w2 = "with_end e (k\<lparr>callback := cb\<rparr>) w1"
  have 2: "fra_end_callback_set e cb w1 = Inr (0, ?w2)" "lib (example_ctx c) n ?w2"
    using lib_callback_set [OF 1(7,4)] by auto
  have e2: "cells (ends ?w2) e \<noteq> None" by simp
  obtain g v where 3: "add_url c e ''GET'' url ?w2 = Inr (0, ?w2\<lparr>w_urls := g, w_env := v\<rparr>)"
    "lib (example_ctx c) n (?w2\<lparr>w_urls := g, w_env := v\<rparr>)"
    "routes (urls g) = first_wins (routes (urls (w_urls ?w2))) (url, ''GET'') e"
    using lib_url_add [OF 2(2) e2, of "''GET''" url] url by (auto simp: add_url_def)
  let ?w3 = "?w2\<lparr>w_urls := g, w_env := v\<rparr>"
  have "make_end c cb url w = Inr (0, ?w3)" by (simp add: make_end_def or_fail_def 1(1,2) 2(1) 3(1))
  moreover have "cells (ends ?w3) = (cells (ends w))(e \<mapsto> ?k)" by (simp add: 1(8))
  moreover have "end_with cb ?k" by (simp add: end_with_def 1(5))
  moreover have "\<exists>h v g. ?w3 = w\<lparr>ends := h, w_env := v, w_urls := g\<rparr>"
  proof -
    obtain h v1 where "w1 = w\<lparr>ends := h, w_env := v1\<rparr>" using w1 by blast
    then show ?thesis
      by (intro exI [of _ "h\<lparr>cells := (cells h)(e \<mapsto> ?k)\<rparr>"] exI [of _ v] exI [of _ g]) (simp add: with_end_def)
  qed
  ultimately show ?thesis using 1(3,6) 3(2,3) by (intro exI [of _ e] exI [of _ ?k] exI [of _ ?w3]) simp
qed


text \<open>\<open>ready\<close>: the program between two requests, with its two endpoints \<open>e1\<close> and \<open>e2\<close>, its
  variable and its hooks; \<open>m\<close> is the table of the registered variables. Every request object has
  room for the variable.\<close>

definition ready :: "client ctx \<Rightarrow> addr \<Rightarrow> addr \<Rightarrow> client world \<Rightarrow> bool" where
  "ready c e1 e2 w \<longleftrightarrow> idle (example_ctx c) w \<and> w_hooks w = example_hooks \<and>
     (\<exists>m. glob_store_map (w_vars w) = Live m \<and> map_ok m \<and> ht_map m = [''buhu'' \<mapsto> \<lparr>var_type = ''int'', position = 0\<rparr>]) \<and>
     glob_store_size (w_vars w) = 4 \<and>
     routes (urls (w_urls w)) = [(''/say/hello'', ''GET'') \<mapsto> e1, (''/say/bye'', ''GET'') \<mapsto> e2] \<and>
     (\<exists>k. cells (ends w) e1 = Some k \<and> end_with handle_fn k) \<and> (\<exists>k. cells (ends w) e2 = Some k \<and> end_with say_bye_fn k) \<and>
     (\<forall>e k. cells (ends w) e = Some k \<longrightarrow> (\<exists>m. end_map k = Live m \<and> map_ok m)) \<and>
     (\<forall>a q. cells (reqs w) a = Some q \<longrightarrow> req_store q = 4)"

lemma example_setup_ready:
  assumes u: "unborn w" and bs: "bstr_ok (bs c)" and fuel: "6 \<le> fuel c" and fn: "handle_new_fn c \<noteq> 0"
    and fits: "unat (sizeof_req c) \<le> unat (sizeof_req c + 4)"
  shows "\<exists>e1 e2 w'. example_setup c w = Inr (0, w') \<and> lib (example_ctx c) (live (w_env w)) w' \<and>
    server_poll (example_ctx c) (w_poll w') \<and> ready c e1 e2 w' \<and> e1 \<noteq> e2 \<and> reqs w' = heap_empty \<and>
    accepts w' = accepts w \<and> polls w' = polls w \<and> events w' = events w \<and> user w' = user w"
proof -
  let ?c = "example_ctx c" and ?n = "live (w_env w)"
  obtain w0 m0 where 0: "fra_glob_init ?c w = Inr (0, w0)" "lib ?c ?n w0" "server_poll ?c (w_poll w0)" "reqs w0 = heap_empty"
    "ends w0 = heap_empty" "events w0 = events w" "accepts w0 = accepts w" "polls w0 = polls w"
    "routes (urls (w_urls w0)) = Map.empty" "w_hooks w0 = hooks0" "user w0 = user w" "glob_store_size (w_vars w0) = 0"
    "glob_store_map (w_vars w0) = Live m0" "ht_map m0 = Map.empty"
    using init_ok [OF u, of ?c] bs fuel fn by auto
  let ?w1 = "w0\<lparr>w_hooks := example_hooks, w_env := w_env w0\<rparr>"
  have 1: "hooks_setup w0 = Inr (0, ?w1)"
    using hooks_setup_run [OF 0(10)] libD(3,4) [OF 0(2)] by simp
  have "hooks_inv ?w1" by (rule example_hooks_inv) (simp_all add: 0(5))
  then have l1: "lib ?c ?n ?w1"
    by (rule lib_hooks [OF 0(2)]) (use libD(3) [OF 0(2)] fuel in \<open>simp_all add: example_hooks_def\<close>)
  have room: "glob_store_size (w_vars ?w1) < SIZE_MAX - of_nat (ctype_size C_int)"
    by (simp add: 0(12) SIZE_MAX_def word_less_nat_alt)
  have fresh: "map_of_ptr (glob_store_map (w_vars ?w1)) ''buhu'' = None" by (simp add: 0(13,14) map_of_ptr_def)
  obtain w2 m2 where 2: "fra_req_reg (bs c) ''buhu'' C_int ?w1 = Inr (0, w2)" "glob_store_map (w_vars w2) = Live m2" "map_ok m2"
    "ht_map m2 = [''buhu'' \<mapsto> \<lparr>var_type = ''int'', position = 0\<rparr>]" "glob_store_size (w_vars w2) = 4" "lib ?c ?n w2"
    and w2: "\<exists>g v. w2 = ?w1\<lparr>w_vars := g, w_env := v\<rparr>"
    using fra_req_reg_ok [OF l1 room fresh] fits by (auto simp: 0(12-14))
  have short: "length ''/say/hello'' < FRA_CORE_MAX_ENDPOINT_LENGTH" "length ''/say/bye'' < FRA_CORE_MAX_ENDPOINT_LENGTH"
    by (simp_all add: FRA_CORE_MAX_ENDPOINT_LENGTH_def)
  obtain e1 k1 w3 where 3: "make_end c handle_fn ''/say/hello'' w2 = Inr (0, w3)" "lib ?c ?n w3" "cells (ends w2) e1 = None"
    "cells (ends w3) = (cells (ends w2))(e1 \<mapsto> k1)" "end_with handle_fn k1"
    "routes (urls (w_urls w3)) = first_wins (routes (urls (w_urls w2))) (''/say/hello'', ''GET'') e1"
    and w3: "\<exists>h v g. w3 = w2\<lparr>ends := h, w_env := v, w_urls := g\<rparr>"
    using make_end_ok [OF 2(6) short(1), of handle_fn] by blast
  obtain e2 k2 w4 where 4: "make_end c say_bye_fn ''/say/bye'' w3 = Inr (0, w4)" "lib ?c ?n w4" "cells (ends w3) e2 = None"
    "cells (ends w4) = (cells (ends w3))(e2 \<mapsto> k2)" "end_with say_bye_fn k2"
    "routes (urls (w_urls w4)) = first_wins (routes (urls (w_urls w3))) (''/say/bye'', ''GET'') e2"
    and w4: "\<exists>h v g. w4 = w3\<lparr>ends := h, w_env := v, w_urls := g\<rparr>"
    using make_end_ok [OF 3(2) short(2), of say_bye_fn] by blast
  have run: "example_setup c w = Inr (0, w4)"
    using 0(1) 1 2(1) 3(1) 4(1) by (simp add: example_setup_def or_fail_def)
  have same: "w_hooks w4 = example_hooks" "w_vars w4 = w_vars w2" "reqs w4 = heap_empty" "w_poll w4 = w_poll w0"
    "accepts w4 = accepts w" "polls w4 = polls w" "events w4 = events w" "user w4 = user w" "w_urls w2 = w_urls w0" "ends w2 = heap_empty"
    using w2 w3 w4 0(4-8,11) by auto
  have ne: "e1 \<noteq> e2" using 3(4) 4(3) by auto
  have "routes (urls (w_urls w4)) = [(''/say/hello'', ''GET'') \<mapsto> e1, (''/say/bye'', ''GET'') \<mapsto> e2]"
    by (simp add: 4(6) 3(6) same(9) 0(9) first_wins_def)
  then have "ready c e1 e2 w4"
    using 4(2,4,5) 3(4,5) 2(2,3,4,5) ne same by (auto simp: ready_def lib_def heap_empty_def)
  then show ?thesis using run 4(2) same 0(3) ne by (intro exI [of _ e1] exI [of _ e2] exI [of _ w4]) simp
qed


section \<open>Serving\<close>

lemma example_fns_at:
  assumes "w_hooks w = example_hooks"
  shows "glob_fns w FRA_REQ_INCOMING = [hello_world4_fn, hello_world3_fn, hello_world5_fn]"
    and "\<lbrakk>\<And>k. cells (ends w) e = Some k \<Longrightarrow> \<exists>cb. end_with cb k; 0 \<le> type; type < FRA_HOOK_COUNT\<rbrakk> \<Longrightarrow>
      req_fns w e type = (if type = FRA_REQ_NEW then [hello_world2_fn, hello_world_fn] else [])"
proof -
  show "glob_fns w FRA_REQ_INCOMING = [hello_world4_fn, hello_world3_fn, hello_world5_fn]"
    using assms by (simp add: glob_fns_def array_fns_def example_hooks_def FRA_REQ_INCOMING_def numeral_eq_Suc)
  assume k: "\<And>k. cells (ends w) e = Some k \<Longrightarrow> \<exists>cb. end_with cb k" and "0 \<le> type" "type < FRA_HOOK_COUNT"
  then have ty: "type \<in> {0, 1, 2, 3, 4, 5, 6}" by (auto simp: FRA_HOOK_COUNT_def)
  have none: "hook_fns n h 0 = []" for n h by (cases n) (simp_all split: option.splits)
  have "array_fns (hookmem example_hooks) (Live (replicate (nat FRA_HOOK_COUNT) 0)) type = []"
    using ty none by (auto simp: array_fns_def FRA_HOOK_COUNT_def)
  moreover have "array_fns (hookmem example_hooks) (req_hooks example_hooks) type =
      (if type = FRA_REQ_NEW then [hello_world2_fn, hello_world_fn] else [])"
    using ty by (auto simp: array_fns_def example_hooks_def FRA_REQ_NEW_def numeral_eq_Suc)
  ultimately show "req_fns w e type = (if type = FRA_REQ_NEW then [hello_world2_fn, hello_world_fn] else [])"
    using assms k by (auto simp: req_fns_def end_with_def split: option.splits)
qed

lemma ready_step:
  assumes rd: "ready c e1 e2 w" and "idle (example_ctx c) w'" and ev: "evolves w w'"
  shows "ready c e1 e2 w'"
proof -
  note f = evolves_frame [OF ev]
  have ends: "\<exists>k0. cells (ends w) e = Some k0 \<and> end_core k = end_core k0" if "cells (ends w') e = Some k" for e k
    using frame_live [OF frame_sym [OF f] that] by auto
  have "\<exists>k. cells (ends w') e = Some k \<and> end_with cb k" if "cells (ends w) e = Some k0" "end_with cb k0" for e cb k0
    using frame_live [OF f that(1)] that(2) by (auto simp: end_with_def end_core_def)
  moreover have "\<exists>m. end_map k = Live m \<and> map_ok m" if "cells (ends w') e = Some k" for e k
    using ends [OF that] rd by (auto simp: ready_def end_core_def)
  moreover have "req_store q' = 4" if "cells (reqs w') a = Some q'" for a q'
    using ev that rd unfolding evolves_def ready_def by fastforce
  ultimately show ?thesis using rd f assms(2) unfolding ready_def frame_def by auto
qed

lemma held_readable:
  assumes rd: "ready c e1 e2 w" and bs: "bstr_ok (bs c)" and h: "handed (example_ctx c) w e verb uri env r q w1"
  shows "readable c r q w1" and "req_store q = 4" and "fra_req_fcgx r w1 = Inr r"
proof -
  have ev: "evolves w w1" and b: "busy (example_ctx c) r q w1" and fl: "filled e verb uri env q"
    using h by (simp_all add: handed_def)
  from b have q: "cells (reqs w1) r = Some q" and st: "steady (example_ctx c) w1" and hd: "held q w1" by (simp_all add: busy_def)
  note f = evolves_frame [OF ev]
  show "req_store q = 4" using ev q rd unfolding evolves_def ready_def by fastforce
  have "cells (stores w1) (endpoint_store q) \<noteq> None" if "endpoint q \<noteq> 0"
  proof -
    obtain Y where "store_lists Y ((\<lambda>_. {})(endpoint q := {endpoint_store q})) (cells (ends w1)) (cells (stores w1))"
      using hd \<open>endpoint q \<noteq> 0\<close> by (auto simp: held_def store_pool_def)
    from store_listsD(8) [OF this, of "endpoint_store q"] show ?thesis by (auto simp: mine_def)
  qed
  moreover have "\<exists>k m. cells (ends w1) (endpoint q) = Some k \<and> end_map k = Live m \<and> map_ok m" if "endpoint q \<noteq> 0"
  proof -
    obtain k where k: "cells (ends w1) (endpoint q) = Some k" using hd \<open>endpoint q \<noteq> 0\<close> by (auto simp: held_def)
    obtain k0 where "cells (ends w) (endpoint q) = Some k0" "end_core k0 = end_core k"
      using frame_live [OF frame_sym [OF f] k] by auto
    moreover from this obtain m where "end_map k0 = Live m" "map_ok m" using rd unfolding ready_def by blast
    ultimately show ?thesis using k by (intro exI [of _ k] exI [of _ m]) (simp add: end_core_def)
  qed
  moreover have "w_vars w1 = w_vars w" using f by (simp add: frame_def)
  ultimately show "readable c r q w1"
    using bs q rd heap_ok_nonnull [OF steadyD(3) [OF st] q] by (auto simp: readable_def ready_def)
  show "fra_req_fcgx r w1 = Inr r"
    using fl hget_ok [OF steadyD(3) [OF st] q] by (simp add: fra_req_fcgx_def filled_def)
qed

lemma frame_find:
  assumes "ready c e1 e2 w" and "w_vars w1 = w_vars w"
  shows "find_var r q ''buhu'' w1 = Some (In_request r 0, \<lparr>var_type = ''int'', position = 0\<rparr>)"
  using assms by (auto simp: ready_def find_var_def map_of_ptr_def)

lemma readable_same_lib: "readable c r q w \<Longrightarrow> same_lib w w' \<Longrightarrow> readable c r q w'"
  using same_lib_fields [of w w'] by (simp add: readable_def)

lemma buhu_place:
  assumes rd: "ready c e1 e2 w" and bs: "bstr_ok (bs c)" and h: "handed (example_ctx c) w e verb uri env r q w1"
    and s: "same_lib w1 w2"
  shows "fra c r ''buhu'' C_int w2 = Inr (In_request r 0)"
proof -
  note h1 = held_readable [OF rd bs h]
  have v: "w_vars w2 = w_vars w"
    using h same_lib_fields(2) [OF s] by (auto simp: handed_def frame_def dest: evolves_frame)
  have r: "readable c r q w2" by (rule readable_same_lib [OF h1(1) s])
  then have q: "cells (reqs w2) r = Some q" by (simp add: readable_def)
  show ?thesis using fra_ok [OF r, of "''buhu''" C_int] frame_find [OF rd v, of r q] h1(2) q by (simp add: lvalue_def in_bounds_def)
qed

lemma hello_world2_runs:
  "fra c r ''buhu'' C_int w = Inr p \<Longrightarrow> hello_world2 c r w = Inr (0, w\<lparr>user := (user w)\<lparr>mem := (mem (user w))(p \<mapsto> 188)\<rparr>\<rparr>)"
  by (simp add: hello_world2_def)

lemma new_hooks_pass:
  assumes "\<And>w'. same_lib w w' \<Longrightarrow> fra c r ''buhu'' C_int w' = Inr p"
  shows "pass_at (example_ctx c) [hello_world2_fn, hello_world_fn] r w"
    and "\<exists>w'. run_hooks (example_ctx c) True [hello_world2_fn, hello_world_fn] r w = Inr (0, w') \<and>
      user w' = (user w)\<lparr>mem := (mem (user w))(p \<mapsto> 188)\<rparr>"
proof -
  have fns: "example_call c hello_world2_fn r w' = hello_world2 c r w'" "example_call c hello_world_fn r w' = Inr (0, w')" for w'
    by (simp_all add: example_call_def hello_world_def) (simp_all add: example_fns)
  show "pass_at (example_ctx c) [hello_world2_fn, hello_world_fn] r w"
    unfolding pass_at_def
  proof (intro ballI allI impI)
    fix f w' assume f: "f \<in> set [hello_world2_fn, hello_world_fn]" and s: "same_lib w w'"
    show "\<exists>u. call (example_ctx c) f r w' = Inr (0, w'\<lparr>user := u\<rparr>)"
    proof (cases "f = hello_world2_fn")
      case True
      then show ?thesis using fns(1) [of w'] hello_world2_runs [OF assms [OF s]]
        by (intro exI [of _ "(user w')\<lparr>mem := (mem (user w'))(p \<mapsto> 188)\<rparr>"]) simp
    next
      case False
      then show ?thesis using f fns(2) [of w'] by (intro exI [of _ "user w'"]) simp
    qed
  qed
  show "\<exists>w'. run_hooks (example_ctx c) True [hello_world2_fn, hello_world_fn] r w = Inr (0, w') \<and>
      user w' = (user w)\<lparr>mem := (mem (user w))(p \<mapsto> 188)\<rparr>"
    using fns hello_world2_runs [OF assms [OF same_lib_say]] by (simp add: call_hook_def say_def)
qed

lemma handler_writes:
  assumes "fra_req_fcgx r w = Inr r" and "r \<noteq> 0" and fp: "(f, page) \<in> {(handle_fn, hello_page), (say_bye_fn, bye_page)}"
  shows "call (example_ctx c) f r w = Inr (0, w\<lparr>user := (user w)\<lparr>out := out (user w) @ [(r, page)]\<rparr>\<rparr>)"
proof -
  have ne: "handle_fn \<noteq> hello_world_fn" "handle_fn \<noteq> hello_world2_fn" "say_bye_fn \<noteq> hello_world_fn"
    "say_bye_fn \<noteq> hello_world2_fn" "say_bye_fn \<noteq> handle_fn"
    by (simp_all add: example_fns)
  have print: "print_page p r w = Inr (0, w\<lparr>user := (user w)\<lparr>out := out (user w) @ [(r, p)]\<rparr>\<rparr>)" for p
    using assms(1,2) by (simp add: print_page_def)
  consider "f = handle_fn" "page = hello_page" | "f = say_bye_fn" "page = bye_page" using fp by blast
  then show ?thesis
  proof cases
    case 1
    then show ?thesis using ne print [of hello_page] by (simp add: example_call_def handle_def)
  next
    case 2
    then show ?thesis using ne print [of bye_page] by (simp add: example_call_def say_bye_def)
  qed
qed

lemma fcgx_same_lib: "fra_req_fcgx r w = Inr f \<Longrightarrow> same_lib w w' \<Longrightarrow> fra_req_fcgx r w' = Inr f"
  using same_lib_fields [of w w'] by (simp add: fra_req_fcgx_def)

lemma handler_tame:
  assumes f: "fra_req_fcgx r w = Inr r" and r: "r \<noteq> 0" and fp: "(f, page) \<in> {(handle_fn, hello_page), (say_bye_fn, bye_page)}"
  shows "tame (example_ctx c) True [f] r w"
  unfolding tame_def
proof (intro ballI allI impI)
  fix g w' assume "g \<in> set [f]" and s: "same_lib w w'"
  then have g: "g = f" by simp
  have "call (example_ctx c) f r w' = Inr (0, w'\<lparr>user := (user w')\<lparr>out := out (user w') @ [(r, page)]\<rparr>\<rparr>)"
    by (rule handler_writes [OF fcgx_same_lib [OF f s] r fp])
  then show "\<exists>rc u. (if True then call (example_ctx c) g r w' else call_glob (example_ctx c) g w') = Inr (rc, w'\<lparr>user := u\<rparr>)"
    unfolding g if_True by blast
qed

lemma ready_quiet:
  assumes rd: "ready c e1 e2 w" and k: "\<exists>k. cells (ends w) e = Some k \<and> end_with cb k"
  shows "hooks_pass (example_ctx c) e w" and "silent (example_ctx c) e w"
    and "glob_fns w FRA_REQ_INCOMING = [hello_world4_fn, hello_world3_fn, hello_world5_fn]"
    and "0 \<le> type \<Longrightarrow> type < FRA_HOOK_COUNT \<Longrightarrow> req_fns w 0 type = (if type = FRA_REQ_NEW then [hello_world2_fn, hello_world_fn] else [])"
    and "0 \<le> type \<Longrightarrow> type < FRA_HOOK_COUNT \<Longrightarrow> req_fns w e type = (if type = FRA_REQ_NEW then [hello_world2_fn, hello_world_fn] else [])"
proof -
  have hk: "w_hooks w = example_hooks" and "idle (example_ctx c) w" using rd by (simp_all add: ready_def)
  then have "heap_ok (ends w)" by (auto simp: idle_def steady_def)
  then have no0: "cells (ends w) 0 = None" using heap_ok_nonnull [of "ends w" 0] by (cases "cells (ends w) 0") auto
  note fns = example_fns_at [OF hk]
  show req: "req_fns w e type = (if type = FRA_REQ_NEW then [hello_world2_fn, hello_world_fn] else [])"
    if "0 \<le> type" "type < FRA_HOOK_COUNT" for type
    by (rule fns(2) [OF _ that]) (use k in auto)
  show "req_fns w 0 type = (if type = FRA_REQ_NEW then [hello_world2_fn, hello_world_fn] else [])"
    if "0 \<le> type" "type < FRA_HOOK_COUNT"
    by (rule fns(2) [OF _ that]) (use no0 in auto)
  show "glob_fns w FRA_REQ_INCOMING = [hello_world4_fn, hello_world3_fn, hello_world5_fn]" by (rule fns(1))
  have glob: "call_glob (example_ctx c) f w' = Inr (0, w')" if "f \<in> set (glob_fns w FRA_REQ_INCOMING)" for f w'
    using that by (auto simp: fns(1) example_call_glob_def hello_world3_def hello_world4_def hello_world5_def)
  have none: "req_fns w e type = []" if "type \<in> {0..<FRA_REQ_NEW}" for type
    using req [of type] that by (auto simp: FRA_REQ_NEW_def FRA_HOOK_COUNT_def)
  show "silent (example_ctx c) e w" using glob none by (simp add: silent_def)
  have "succeeds_glob (example_ctx c) f" if "f \<in> set (glob_fns w FRA_REQ_INCOMING)" for f
    unfolding succeeds_glob_def 
  proof
    fix w' show "\<exists>u. call_glob (example_ctx c) f w' = Inr (0, w'\<lparr>user := u\<rparr>)"
      using glob [OF that] by (intro exI [of _ "user w'"]) simp
  qed
  then show "hooks_pass (example_ctx c) e w" using none by (simp add: hooks_pass_def)
qed


lemma handler_output:
  assumes h: "handed (example_ctx c) w e verb uri env r q w2" and n: "cells (ends w) e = Some n" "end_with f n" and f: "f \<noteq> 0"
    and r: "fra_req_fcgx r w2 = Inr r \<and> r \<noteq> 0" and fp: "(f, page) \<in> {(handle_fn, hello_page), (say_bye_fn, bye_page)}"
    and run: "call_handler (example_ctx c) r w2 = Inr (rc, w3)"
  shows "user w3 = (user w2)\<lparr>out := out (user w2) @ [(r, page)]\<rparr>"
proof -
  have b: "busy (example_ctx c) r q w2" and e: "endpoint q = e" and fr: "frame w w2"
    using h evolves_frame by (auto simp: handed_def filled_def)
  then have q: "cells (reqs w2) r = Some q" and st: "steady (example_ctx c) w2" by (simp_all add: busy_def)
  obtain n2 where n2: "cells (ends w2) (endpoint q) = Some n2" "end_core n2 = end_core n"
    using frame_live [OF fr n(1)] e by auto
  then have cb: "callback n2 = f" using n(2) by (simp add: end_core_def end_with_def)
  have call: "call (example_ctx c) f r (say (Called f r) w2) = Inr (0, (say (Called f r) w2)\<lparr>user :=
      (user (say (Called f r) w2))\<lparr>out := out (user (say (Called f r) w2)) @ [(r, page)]\<rparr>\<rparr>)"
    by (rule handler_writes [OF fcgx_same_lib [OF conjunct1 [OF r] same_lib_say] conjunct2 [OF r] fp])
  have "call_handler (example_ctx c) r w2 = call (example_ctx c) f r (say (Called f r) w2)"
    using hget_ok [OF steadyD(3) [OF st] q] hget_ok [OF steadyD(4) [OF st] n2(1)] f cb by (simp add: call_handler_def)
  with run call show ?thesis by (auto simp: say_def)
qed

lemma example_serves:
  assumes rd: "ready c e1 e2 w" and bs: "bstr_ok (bs c)" and jk: "\<forall>a. endpoint (junk c a) = 0"
    and acc: "accepts w = (arc, env) # rest" "0 \<le> arc" and revs: "revs AND POLLIN \<noteq> 0"
    and verb: "get_param c ''REQUEST_METHOD'' env = Some ''GET''"
    and uri: "get_param c ''REQUEST_URI'' env = Some uri" "length uri \<le> 512"
    and path: "(path_of uri, f, page) \<in> {(''/say/hello'', handle_fn, hello_page), (''/say/bye'', say_bye_fn, bye_page)}"
  shows "\<exists>r w'. fra_p_req_handle_new (example_ctx c) revs w = Inr (0, w') \<and> evolves w w' \<and> ready c e1 e2 w' \<and> accepts w' = rest \<and>
    user w' = \<lparr>mem = (mem (user w))(In_request r 0 \<mapsto> 188), out = out (user w) @ [(r, page)]\<rparr> \<and>
    events w' = events w @ [Called_glob hello_world4_fn, Called_glob hello_world3_fn, Called_glob hello_world5_fn,
      FCGX_InitRequest (Some r), FCGX_Accept_r (Some r) arc,
      Called hello_world2_fn r, Called hello_world_fn r, Called f r, FCGX_Finish_r (Some r)]"
proof -
  let ?c = "example_ctx c"
  obtain e n where route: "routes (urls (w_urls w)) (path_of uri, ''GET'') = Some e" and n: "cells (ends w) e = Some n" "end_with f n"
    using rd path by (auto simp: ready_def)
  have k: "\<exists>k. cells (ends w) e = Some k \<and> end_with f k" using n by blast
  note quiet = ready_quiet [OF rd k]
  have idle: "idle ?c w" using rd by (simp add: ready_def)
  have fp: "(f, page) \<in> {(handle_fn, hello_page), (say_bye_fn, bye_page)}" using path by blast
  then have f: "f \<noteq> 0" using example_fns_nonnull(6,7) by blast
  have fns: "handler_fns n = [f]" using n(2) f by (simp add: handler_fns_def end_with_def)
  have new: "req_fns w e FRA_REQ_NEW = [hello_world2_fn, hello_world_fn]"
    using quiet(5) [of FRA_REQ_NEW] by (simp add: FRA_REQ_NEW_def FRA_HOOK_COUNT_def)
  have place: "fra c r ''buhu'' C_int w2 = Inr (In_request r 0)"
    if "handed ?c w e ''GET'' uri env r q w1" "same_lib w1 w2" for r q w1 w2
    by (rule buhu_place [OF rd bs that])
  have run: "fra_req_fcgx r w1 = Inr r \<and> r \<noteq> 0" if "handed ?c w e ''GET'' uri env r q w1" for r q w1
    using held_readable [OF rd bs that] by (simp add: readable_def)
  have ok: "pass_at ?c (req_fns w e FRA_REQ_NEW) r w1 \<and> tame ?c True (handler_fns n) r w1"
    if "handed ?c w e ''GET'' uri env r q w1" for r q w1
    using new_hooks_pass(1) [OF place [OF that]] handler_tame [OF _ _ fp] run [OF that] by (simp add: new fns)
  have out: "\<forall>a. endpoint (junk ?c a) = 0" "get_param ?c ''REQUEST_METHOD'' env = Some ''GET''" "length ''GET'' < 50"
    "get_param ?c ''REQUEST_URI'' env = Some uri"
    using jk verb uri(1) by simp_all
  obtain r q w1 w2 rc w3 w' where h1: "handed ?c w e ''GET'' uri env r q w1" and us1: "silent ?c e w \<longrightarrow> user w1 = user w"
    and 2: "run_hooks ?c True (req_fns w e FRA_REQ_NEW) r w1 = Inr (0, w2)" and h2: "handed ?c w e ''GET'' uri env r q w2"
    and 3: "call_handler ?c r w2 = Inr (rc, w3)" and "fra_p_req_handle_new ?c revs w = finish_req ?c r w3"
    and us3: "user w' = user w3" and fin: "fra_p_req_handle_new ?c revs w = Inr (0, w')" "idle ?c w'" "evolves w w'"
    "accepts w' = rest" "events w' = events w @ served_events w r arc e n"
    by (rule served [OF idle quiet(1) out(1) acc revs out(2,3,4) uri(2) route n(1) ok])
  have us2: "user w2 = (user w)\<lparr>mem := (mem (user w))(In_request r 0 \<mapsto> 188)\<rparr>"
  proof -
    have us1: "user w1 = user w" using us1 quiet(2) by blast
    obtain w2' where "run_hooks ?c True [hello_world2_fn, hello_world_fn] r w1 = Inr (0, w2')"
      and us2: "user w2' = (user w1)\<lparr>mem := (mem (user w1))(In_request r 0 \<mapsto> 188)\<rparr>"
      using new_hooks_pass(2) [of w1, OF place [OF h1]] by blast
    then have "w2' = w2" using 2 unfolding new by simp
    then show ?thesis using us1 us2 by simp
  qed
  have us: "user w3 = (user w2)\<lparr>out := out (user w2) @ [(r, page)]\<rparr>"
    by (rule handler_output [OF h2 n f run [OF h2] fp 3])
  have "user w' = \<lparr>mem = (mem (user w))(In_request r 0 \<mapsto> 188), out = out (user w) @ [(r, page)]\<rparr>"
    by (simp add: us3 us us2)
  moreover have "served_events w r arc e n = [Called_glob hello_world4_fn, Called_glob hello_world3_fn, Called_glob hello_world5_fn,
      FCGX_InitRequest (Some r), FCGX_Accept_r (Some r) arc,
      Called hello_world2_fn r, Called hello_world_fn r, Called f r, FCGX_Finish_r (Some r)]"
    using quiet(4,5) by (simp add: served_events_def fns new quiet(3) FRA_REQ_CREATED_def FRA_REQ_BEFORE_FCGX_def
        FRA_REQ_BEFORE_ENDPOINT_def FRA_END_STORE_CREATED_def FRA_REQ_NEW_def FRA_HOOK_COUNT_def)
  ultimately show ?thesis using fin ready_step [OF rd fin(2,3)] by (intro exI [of _ r] exI [of _ w']) simp
qed

text \<open>The requests the program knows, and the page for each.\<close>

definition say_request :: "client ctx \<Rightarrow> int \<times> string list \<Rightarrow> bool" where
  "say_request c x = (case x of (arc, env) \<Rightarrow> 0 \<le> arc \<and> get_param c ''REQUEST_METHOD'' env = Some ''GET'' \<and>
     (case get_param c ''REQUEST_URI'' env of None \<Rightarrow> False
      | Some uri \<Rightarrow> length uri \<le> 512 \<and> path_of uri \<in> {''/say/hello'', ''/say/bye''}))"

definition page_for :: "client ctx \<Rightarrow> string list \<Rightarrow> string" where
  "page_for c env = (case get_param c ''REQUEST_URI'' env of None \<Rightarrow> ''''
     | Some uri \<Rightarrow> if path_of uri = ''/say/hello'' then hello_page else bye_page)"

lemma example_handles:
  assumes bs: "bstr_ok (bs c)" and jk: "\<forall>a. endpoint (junk c a) = 0"
  shows "handles (example_ctx c) (\<lambda>w. ready c e1 e2 w \<and> (\<forall>x \<in> set (accepts w). say_request c x)) (\<lambda>w. map snd (out (user w)))
    (\<lambda>(arc, env) a. a = [page_for c env])"
  unfolding handles_def
proof (intro conjI allI impI)
  fix w arc env rest and revs :: short
  assume P: "ready c e1 e2 w \<and> (\<forall>x \<in> set (accepts w). say_request c x)" and acc: "accepts w = (arc, env) # rest"
    and revs: "revs AND POLLIN \<noteq> 0"
  from P acc obtain uri where uri: "0 \<le> arc" "get_param c ''REQUEST_METHOD'' env = Some ''GET''"
    "get_param c ''REQUEST_URI'' env = Some uri" "length uri \<le> 512" and path: "path_of uri \<in> {''/say/hello'', ''/say/bye''}"
    by (auto simp: say_request_def split: option.splits)
  obtain f where f: "(path_of uri, f, page_for c env) \<in> {(''/say/hello'', handle_fn, hello_page), (''/say/bye'', say_bye_fn, bye_page)}"
    using path uri(3) by (auto simp: page_for_def)
  obtain r w' where r: "fra_p_req_handle_new (example_ctx c) revs w = Inr (0, w')" "ready c e1 e2 w'" "accepts w' = rest"
    "user w' = \<lparr>mem = (mem (user w))(In_request r 0 \<mapsto> 188), out = out (user w) @ [(r, page_for c env)]\<rparr>"
    and v: "evolves w w'"
    using example_serves [OF conjunct1 [OF P] bs jk acc uri(1) revs uri(2-4) f] by blast
  have "w_poll w' = w_poll w" "polls w' = polls w" using evolves_frame [OF v] by (simp_all add: frame_def)
  then show "\<exists>rc w' a. fra_p_req_handle_new (example_ctx c) revs w = Inr (rc, w') \<and>
      (ready c e1 e2 w' \<and> (\<forall>x \<in> set (accepts w'). say_request c x)) \<and> accepts w' = rest \<and> polls w' = polls w \<and>
      w_poll w' = w_poll w \<and> (case (arc, env) of (arc, env) \<Rightarrow> \<lambda>a. a = [page_for c env]) a \<and>
      map snd (out (user w')) = map snd (out (user w)) @ a"
    using r P acc by (intro exI [of _ 0] exI [of _ w'] exI [of _ "[page_for c env]"]) simp
next
  fix w assume "ready c e1 e2 w \<and> (\<forall>x \<in> set (accepts w). say_request c x)"
  then show "calm (w_env w)" by (simp add: ready_def idle_def steady_def)
qed (simp_all add: ready_def)

lemma list_all2_pages: "list_all2 (\<lambda>(arc, env) a. a = [g env]) xs ans \<Longrightarrow> concat ans = map (\<lambda>(arc, env). g env) xs"
  by (induction xs ans rule: list_all2_induct) auto

section \<open>Properties\<close>

text \<open>C10: the example program answers. After its start, and after every request it has answered, a \<open>GET\<close> for
  \<open>/say/hello\<close> or \<open>/say/bye\<close>, with or without a query, makes it call the hooks of the whole
  library by their priority (the one with 543.3 before the two with 5343.3, which stay in the
  order of their registration), then accept the request, then the hooks of requests (0.099 before
  0.1), then the handler of that url, and finish the request. It returns 0, exactly the page of
  that handler has been written to the output of this request, the variable \<open>buhu\<close> of the request
  has its value, and the program is ready for the next request.\<close>

theorem example_answers:
  assumes rd: "ready c e1 e2 w" and bs: "bstr_ok (bs c)" and jk: "\<forall>a. endpoint (junk c a) = 0"
    and acc: "accepts w = (arc, env) # rest" "0 \<le> arc" and revs: "revs AND POLLIN \<noteq> 0"
    and verb: "get_param c ''REQUEST_METHOD'' env = Some ''GET''"
    and uri: "get_param c ''REQUEST_URI'' env = Some uri" "length uri \<le> 512"
    and path: "(path_of uri, f, page) \<in> {(''/say/hello'', handle_fn, hello_page), (''/say/bye'', say_bye_fn, bye_page)}"
  shows "\<exists>r w'. fra_p_req_handle_new (example_ctx c) revs w = Inr (0, w') \<and> ready c e1 e2 w' \<and> accepts w' = rest \<and>
    user w' = \<lparr>mem = (mem (user w))(In_request r 0 \<mapsto> 188), out = out (user w) @ [(r, page)]\<rparr> \<and>
    events w' = events w @ [Called_glob hello_world4_fn, Called_glob hello_world3_fn, Called_glob hello_world5_fn,
      FCGX_InitRequest (Some r), FCGX_Accept_r (Some r) arc,
      Called hello_world2_fn r, Called hello_world_fn r, Called f r, FCGX_Finish_r (Some r)]"
  using example_serves [OF assms] by blast

text \<open>C6: the example program does what it is for. Started on a fresh process, \<open>main\<close> sets everything up and
  serves: for any sequence of \<open>GET\<close> requests for its two urls it writes, in the order of the
  requests, the page of each, nothing else and nothing twice, until \<open>poll\<close> fails; then it
  returns 0.\<close>

theorem example_main_answers:
  assumes u: "unborn w" and bs: "bstr_ok (bs c)" and fn: "handle_new_fn c \<noteq> 0" and jk: "\<forall>a. endpoint (junk c a) = 0"
    and fits: "unat (sizeof_req c) \<le> unat (sizeof_req c + 4)" and fuel: "6 \<le> fuel c" "Suc (length rs) < fuel c"
    and ps: "polls w = rs @ (erc, erevs) # rest" and erc: "erc \<le> 0" and len: "length rs = length (accepts w)"
    and rs: "\<forall>(rc, revs) \<in> set rs. 0 < rc \<and> revs 0 AND POLLIN \<noteq> 0" and acc: "\<forall>x \<in> set (accepts w). say_request c x"
  shows "\<exists>w'. example_main c w = Inr (0, w') \<and> accepts w' = [] \<and> \<not> main_poll_lock (w_poll w') \<and>
    map snd (out (user w')) = map snd (out (user w)) @ map (\<lambda>(arc, env). page_for c env) (accepts w)"
proof -
  obtain e1 e2 w1 where 1: "example_setup c w = Inr (0, w1)" "lib (example_ctx c) (live (w_env w)) w1"
    "server_poll (example_ctx c) (w_poll w1)" "ready c e1 e2 w1" "accepts w1 = accepts w" "polls w1 = polls w" "user w1 = user w"
    using example_setup_ready [OF u bs fuel(1) fn fits] by blast
  have lk: "\<not> main_poll_lock (w_poll w1)" using 1(2) by (simp add: lib_def)
  have P: "ready c e1 e2 w1 \<and> (\<forall>x \<in> set (accepts w1). say_request c x)" using 1(4,5) acc by simp
  have f: "Suc (length rs) < fuel (example_ctx c)" and ps1: "polls w1 = rs @ (erc, erevs) # rest" and len1: "length rs = length (accepts w1)"
    using fuel ps 1(5,6) len by simp_all
  obtain w' ans where "fra_glob_poll (example_ctx c) w1 = Inr (- 1, w')" "\<not> main_poll_lock (w_poll w')" "accepts w' = []"
    "list_all2 (\<lambda>(arc, env) a. a = [page_for c env]) (accepts w1) ans" "map snd (out (user w')) = map snd (out (user w1)) @ concat ans"
    using loop_handles [OF example_handles [OF bs jk] P 1(3) lk f ps1 erc len1 rs] by blast
  then show ?thesis
    using 1(1,5,7) list_all2_pages [of "page_for c"] by (intro exI [of _ w']) (simp add: example_main_def or_fail_def)
qed

section \<open>Witnesses\<close>

text \<open>A surrounding for the program: it finds two requests and then an error of \<open>poll\<close>.\<close>

definition outside :: "client ctx" where
  "outside = \<lparr>bs = plain_bstr, call = (\<lambda>f r w. Inr (0, w)), call_glob = (\<lambda>f w. Inr (0, w)), call_fd = (\<lambda>f r ev w. Inr (0, w)),
     get_param = env_param,
     junk = (\<lambda>a. \<lparr>fcgx_defined = False, envp = [], req_next = 0, req_store = 0, endpoint = 0, endpoint_store = 0,
       req_url = blank, base_url = blank, query_url = blank, req_verb = blank\<rparr>),
     sizeof_req = 400, handle_new_fn = 7, fuel = 10\<rparr>"

definition say_env :: "string \<Rightarrow> string list" where
  "say_env url = [''REQUEST_METHOD=GET'', ''REQUEST_URI='' @ url]"

definition fresh_process :: "client world" where
  "fresh_process = \<lparr>w_env = quiet_env, w_vars = \<lparr>glob_store_map = Null, glob_store_size = 0, glob_store_map_lock = False\<rparr>,
     w_urls = no_urls, w_hooks = no_hooks, reqs = heap_empty, ends = heap_empty, stores = heap_empty,
     empty_req = 0, empty_count = 0, all_count = 0, empty_req_lock = False,
     w_poll = \<lparr>initialized = False, main_poll = Null, main_poll_len = 0, main_poll_max_len = 0,
       callbacks = Null, main_poll_lock = False, should_stop = False\<rparr>,
     accepts = [(0, say_env ''/say/hello''), (0, say_env ''/say/bye?to=all'')],
     polls = [(1, \<lambda>_. POLLIN), (1, \<lambda>_. POLLIN)] @ [(- 1, \<lambda>_. 0)], events = [], user = \<lparr>mem = Map.empty, out = []\<rparr>\<rparr>"

lemma outside_ok:
  "bstr_ok (bs outside)" "handle_new_fn outside \<noteq> 0" "\<forall>a. endpoint (junk outside a) = 0"
  "unat (sizeof_req outside) \<le> unat (sizeof_req outside + 4)" "6 \<le> fuel outside"
  by (simp_all add: outside_def)

lemma fresh_unborn: "unborn fresh_process"
  by (simp add: unborn_def fresh_process_def) (simp add: quiet_env_def)

lemma outside_params:
  "get_param outside ''REQUEST_METHOD'' (say_env url) = Some ''GET''" "get_param outside ''REQUEST_URI'' (say_env url) = Some url"
  by (simp_all add: outside_def say_env_def)

theorem example_answers_witness:
  "\<exists>w r w'. example_setup outside fresh_process = Inr (0, w) \<and>
    fra_p_req_handle_new (example_ctx outside) POLLIN w = Inr (0, w') \<and> out (user w') = [(r, hello_page)]"
proof -
  obtain e1 e2 w where w: "example_setup outside fresh_process = Inr (0, w)" "ready outside e1 e2 w"
    "accepts w = accepts fresh_process" "user w = user fresh_process"
    using example_setup_ready [OF fresh_unborn outside_ok(1,5,2,4)] by blast
  have acc: "accepts w = (0, say_env ''/say/hello'') # [(0, say_env ''/say/bye?to=all'')]"
    and us: "out (user w) = []" by (simp_all add: w(3,4) fresh_process_def)
  have len: "length ''/say/hello'' \<le> 512" and pol: "POLLIN AND POLLIN \<noteq> 0" and z: "0 \<le> (0 :: int)" by (simp_all add: POLLIN_def)
  have path: "(path_of ''/say/hello'', handle_fn, hello_page) \<in>
      {(''/say/hello'', handle_fn, hello_page), (''/say/bye'', say_bye_fn, bye_page)}" by simp
  obtain r w' where "fra_p_req_handle_new (example_ctx outside) POLLIN w = Inr (0, w')"
    "user w' = \<lparr>mem = (mem (user w))(In_request r 0 \<mapsto> 188), out = out (user w) @ [(r, hello_page)]\<rparr>"
    using example_answers [OF w(2) outside_ok(1,3) acc z pol outside_params len path] by blast
  with w(1) us show ?thesis by (intro exI [of _ w] exI [of _ r] exI [of _ w']) simp
qed

theorem example_main_answers_witness:
  "\<exists>w'. example_main outside fresh_process = Inr (0, w') \<and> map snd (out (user w')) = [hello_page, bye_page]"
proof -
  let ?rs = "[(1, \<lambda>_. POLLIN), (1, \<lambda>_. POLLIN)] :: (int \<times> (nat \<Rightarrow> short)) list"
  have f: "Suc (length ?rs) < fuel outside" by (simp add: outside_def)
  have ps: "polls fresh_process = ?rs @ (- 1, \<lambda>_. 0) # []" and acc: "accepts fresh_process = [(0, say_env ''/say/hello''), (0, say_env ''/say/bye?to=all'')]"
    and us: "out (user fresh_process) = []" by (simp_all add: fresh_process_def)
  have rs: "\<forall>(rc, revs) \<in> set ?rs. 0 < rc \<and> revs 0 AND POLLIN \<noteq> 0" by (simp add: POLLIN_def)
  have known: "\<forall>x \<in> set (accepts fresh_process). say_request outside x" by (simp add: acc say_request_def outside_params)
  have len: "length ?rs = length (accepts fresh_process)" by (simp add: acc)
  have pages: "map (\<lambda>(arc, env). page_for outside env) (accepts fresh_process) = [hello_page, bye_page]"
    by (simp add: acc page_for_def outside_params)
  have neg: "(- 1 :: int) \<le> 0" by simp
  obtain w' where "example_main outside fresh_process = Inr (0, w')"
    and "map snd (out (user w')) = map snd (out (user fresh_process)) @ map (\<lambda>(arc, env). page_for outside env) (accepts fresh_process)"
    using example_main_answers [OF fresh_unborn outside_ok(1,2,3,4,5) f ps neg len rs known] by (elim exE conjE) (rule that)
  then show ?thesis unfolding pages us by (intro exI [of _ w']) simp
qed

end
