(* ===== verification/Thread.thy ===== *)
theory Thread
  imports Poll
begin

text \<open>
  Handling a request as a sequence of steps, so that several threads can take turns. The library
  is written for threads, with its caches under locks that are taken when \<open>fra_p_pthreads\<close>
  is set, though no code of it starts one. \<open>fra_p_req_handle_new\<close> (\<open>src/req.c\<close>) is cut into its
  calls: a call of a shared operation is one step, as it holds the lock of what it changes from
  beginning to end, and between two steps any other thread may go on. A thread alone does
  exactly what the function does; a step beside other threads changes its own request only.
\<close>

section \<open>Handling a request in steps\<close>

text \<open>Where a thread stands in \<open>fra_p_req_handle_new\<close>: before the global hooks, \<open>get_req\<close>, the hooks
  before FastCGI, the accept, the verb, the url, the hooks before routing, the routing, the
  store, the hooks of the request, the callback and the end; at the labels \<open>fcgx_cleanup\<close>,
  \<open>req_cleanup\<close> and \<open>final_cleanup\<close>; behind the return.\<close>

datatype pc = Start | Getting | Fresh addr | Taken addr | Accepted addr | Verbed addr | Split addr | Hooked addr | Found addr
  | Stored addr | Ready addr | Handled addr | Fcgx_cleanup addr | Req_cleanup addr | Final_cleanup | Done int

text \<open>\<open>rc = m; check( rc == 0, bad )\<close>, otherwise on to \<open>ok\<close>.\<close>

definition go :: "(int \<times> 'u world) outcome \<Rightarrow> pc \<Rightarrow> pc \<Rightarrow> (pc \<times> 'u world) outcome" where
  "go m ok bad = bindo m (\<lambda>(rc, w). Inr (if rc \<noteq> 0 then bad else ok, w))"

fun thread_step :: "'u ctx \<Rightarrow> short \<Rightarrow> pc \<Rightarrow> 'u world \<Rightarrow> (pc \<times> 'u world) outcome" where
  "thread_step c revs Start w =
     (if revs AND POLLIN = 0 then Inr (Final_cleanup, w)
      else go (fra_p_glob_hook_execute c FRA_REQ_INCOMING w) Getting Final_cleanup)"
| "thread_step c revs Getting w =
     bindo (get_req c w) (\<lambda>(r, w).
       if r = 0 then Inr (Final_cleanup, w) else bindo (reset_req r w) (\<lambda>w. Inr (Fresh r, w)))"
| "thread_step c revs (Fresh r) w = go (fra_p_req_hook_execute c r FRA_REQ_BEFORE_FCGX w) (Taken r) (Req_cleanup r)"
| "thread_step c revs (Taken r) w = go (accept_req c r w) (Accepted r) (Fcgx_cleanup r)"
| "thread_step c revs (Accepted r) w = go (set_verb c r w) (Verbed r) (Fcgx_cleanup r)"
| "thread_step c revs (Verbed r) w = go (set_urls c r w) (Split r) (Fcgx_cleanup r)"
| "thread_step c revs (Split r) w = go (fra_p_req_hook_execute c r FRA_REQ_BEFORE_ENDPOINT w) (Hooked r) (Fcgx_cleanup r)"
| "thread_step c revs (Hooked r) w = go (find_endpoint c r w) (Found r) (Fcgx_cleanup r)"
| "thread_step c revs (Found r) w = go (fra_p_end_store_set c r w) (Stored r) (Fcgx_cleanup r)"
| "thread_step c revs (Stored r) w = go (fra_p_req_hook_execute c r FRA_REQ_NEW w) (Ready r) (Fcgx_cleanup r)"
| "thread_step c revs (Ready r) w = bindo (call_handler c r w) (\<lambda>(rc, w). Inr (Handled r, w))"
| "thread_step c revs (Handled r) w = go (req_maybe_free c r (say (FCGX_Finish_r (Some r)) w)) (Done 0) Final_cleanup"
| "thread_step c revs (Fcgx_cleanup r) w = bindo (fcgx_cleanup c r w) (\<lambda>(rc, w). Inr (Done rc, w))"
| "thread_step c revs (Req_cleanup r) w = bindo (req_maybe_free c r w) (\<lambda>(rc, w). Inr (Final_cleanup, w))"
| "thread_step c revs Final_cleanup w = bindo (exit_request w) (\<lambda>w. Inr (Done (- 1), w))"
| "thread_step c revs (Done rc) w = Inr (Done rc, w)"

text \<open>One thread alone, for at most \<open>n\<close> steps.\<close>

fun thread_run :: "'u ctx \<Rightarrow> short \<Rightarrow> nat \<Rightarrow> pc \<Rightarrow> 'u op" where
  "thread_run c revs 0 p w = Inl Out_of_fuel"
| "thread_run c revs (Suc n) p w =
     (case p of Done rc \<Rightarrow> Inr (rc, w)
      | _ \<Rightarrow> bindo (thread_step c revs p w) (\<lambda>(p, w). thread_run c revs n p w))"

lemma bindo_go: "bindo (go m ok bad) (\<lambda>(p, w). f p w) = bindo m (\<lambda>(rc, w). if rc \<noteq> 0 then f bad w else f ok w)"
  by (cases m) (auto simp: go_def)

lemma bindo_pure: "bindo (bindo m (\<lambda>w. Inr (p, w))) (\<lambda>(p, w). f p w) = bindo m (\<lambda>w. f p w)"
  by (cases m) auto

declare thread_run.simps(2) [simp del]

lemma run_Done: "thread_run c revs (Suc n) (Done rc) w = Inr (rc, w)"
  by (simp add: thread_run.simps(2))

lemma run_step:
  assumes "\<And>rc. p \<noteq> Done rc"
  shows "thread_run c revs (Suc n) p w = bindo (thread_step c revs p w) (\<lambda>(p, w). thread_run c revs n p w)"
proof (cases p)
  case (Done rc)
  then show ?thesis using assms by blast
qed (simp_all add: thread_run.simps(2))

lemma run_Final: "thread_run c revs (Suc (Suc n)) Final_cleanup w = final_cleanup True w"
  by (cases "exit_request w") (auto simp: run_step run_Done final_cleanup_def)

lemma run_Fcgx: "thread_run c revs (Suc (Suc n)) (Fcgx_cleanup r) w = fcgx_cleanup c r w"
  by (cases "fcgx_cleanup c r w") (auto simp: run_step run_Done)

lemma run_Req: "thread_run c revs (Suc (Suc (Suc n))) (Req_cleanup r) w = req_cleanup c True r w"
  by (cases "req_maybe_free c r w") (auto simp: run_step req_cleanup_def run_Final)

lemma run_Handled: "thread_run c revs (Suc (Suc (Suc n))) (Handled r) w = finish_req c r w"
  by (cases "req_maybe_free c r (say (FCGX_Finish_r (Some r)) w)") (auto simp: run_step bindo_go finish_req_def run_Final run_Done)

lemma run_Ready:
  "thread_run c revs (Suc (Suc (Suc (Suc n)))) (Ready r) w = bindo (call_handler c r w) (\<lambda>(rc, w). finish_req c r w)"
  by (cases "call_handler c r w") (auto simp: run_step run_Handled)

text \<open>A step of the middle part, with what follows it.\<close>

lemma run_or_cleanup:
  assumes "thread_step c revs p w = go m ok (Fcgx_cleanup r)" and "\<And>rc. p \<noteq> Done rc"
    and "\<And>w. thread_run c revs (Suc (Suc n)) ok w = k w"
  shows "thread_run c revs (Suc (Suc (Suc n))) p w = or_fcgx_cleanup c r m k"
  using assms(3) by (cases m) (auto simp: run_step [OF assms(2)] assms(1) bindo_go or_fcgx_cleanup_def run_Fcgx)

lemma run_Taken:
  "thread_run c revs (11 + n) (Taken r) w =
     or_fcgx_cleanup c r (accept_req c r w) (\<lambda>w.
     or_fcgx_cleanup c r (set_verb c r w) (\<lambda>w.
     or_fcgx_cleanup c r (set_urls c r w) (\<lambda>w.
     or_fcgx_cleanup c r (fra_p_req_hook_execute c r FRA_REQ_BEFORE_ENDPOINT w) (\<lambda>w.
     or_fcgx_cleanup c r (find_endpoint c r w) (\<lambda>w.
     or_fcgx_cleanup c r (fra_p_end_store_set c r w) (\<lambda>w.
     or_fcgx_cleanup c r (fra_p_req_hook_execute c r FRA_REQ_NEW w) (\<lambda>w.
     bindo (call_handler c r w) (\<lambda>(rc, w). finish_req c r w))))))))"
proof -
  have "11 + n = Suc (Suc (Suc (Suc (Suc (Suc (Suc (Suc (Suc (Suc (Suc n))))))))))" by simp
  then show ?thesis by (simp only:) ((rule run_or_cleanup, simp, simp)+, rule run_Ready)
qed

lemma run_Fresh:
  "thread_run c revs (12 + n) (Fresh r) w =
     bindo (fra_p_req_hook_execute c r FRA_REQ_BEFORE_FCGX w) (\<lambda>(rc, w).
       if rc \<noteq> 0 then req_cleanup c True r w else thread_run c revs (11 + n) (Taken r) w)"
proof -
  have req: "thread_run c revs (11 + n) (Req_cleanup r) w = req_cleanup c True r w" for w
    using run_Req [of c revs "8 + n" r w] by (simp add: numeral_eq_Suc)
  have "thread_run c revs (Suc (11 + n)) (Fresh r) w = bindo (thread_step c revs (Fresh r) w) (\<lambda>(p, w). thread_run c revs (11 + n) p w)"
    by (rule run_step) simp
  then show ?thesis
    by (cases "fra_p_req_hook_execute c r FRA_REQ_BEFORE_FCGX w") (auto simp: bindo_go req)
qed

lemma run_Getting:
  "thread_run c revs (13 + n) Getting w =
     bindo (get_req c w) (\<lambda>(r, w).
       if r = 0 then final_cleanup True w else bindo (reset_req r w) (\<lambda>w. thread_run c revs (12 + n) (Fresh r) w))"
proof -
  have final: "thread_run c revs (12 + n) Final_cleanup w = final_cleanup True w" for w
    using run_Final [of c revs "10 + n" w] by (simp add: numeral_eq_Suc)
  have "thread_run c revs (Suc (12 + n)) Getting w = bindo (thread_step c revs Getting w) (\<lambda>(p, w). thread_run c revs (12 + n) p w)"
    by (rule run_step) simp
  then show ?thesis by (cases "get_req c w") (auto simp: final bindo_pure)
qed



section \<open>Turns of one thread while others are in use\<close>

text \<open>Between two steps of any threads; \<open>R\<close> are the requests in use, \<open>B e\<close> the stores of \<open>e\<close> in use.\<close>

definition shared :: "'u ctx \<Rightarrow> addr set \<Rightarrow> (addr \<Rightarrow> addr set) \<Rightarrow> 'u world \<Rightarrow> bool" where
  "shared c R B w \<longleftrightarrow> steady c w \<and> \<not> empty_req_lock w \<and> req_pool R w \<and> store_pool B w"

lemma idle_shared: "idle c w \<longleftrightarrow> shared c {} (\<lambda>_. {}) w"
  by (simp add: idle_def shared_def)

text \<open>The thread with the request \<open>r\<close> has changed nothing but this request.\<close>

definition own_change :: "addr \<Rightarrow> 'u world \<Rightarrow> fra_req \<Rightarrow> 'u world \<Rightarrow> bool" where
  "own_change r w q w' \<longleftrightarrow> frame w w' \<and> cells (reqs w') = (cells (reqs w))(r \<mapsto> q)"

definition turn :: "'u ctx \<Rightarrow> addr set \<Rightarrow> (addr \<Rightarrow> addr set) \<Rightarrow> addr \<Rightarrow> fra_req \<Rightarrow> 'u world \<Rightarrow> bool" where
  "turn c R B r q w \<longleftrightarrow> shared c R B w \<and> r \<in> R \<and> cells (reqs w) r = Some q \<and>
     (endpoint q \<noteq> 0 \<longrightarrow> cells (ends w) (endpoint q) \<noteq> None)"

lemma turnD:
  assumes "turn c R B r q w"
  shows "steady c w" "cells (reqs w) r = Some q" "r \<noteq> 0" "\<not> empty_req_lock w" "req_pool R w" "store_pool B w" "r \<in> R"
    "endpoint q \<noteq> 0 \<longrightarrow> cells (ends w) (endpoint q) \<noteq> None"
  using assms heap_ok_nonnull [OF steadyD(3), of c w r q] by (auto simp: turn_def shared_def)

lemma req_pool_live: "req_pool R w \<Longrightarrow> a \<in> R \<Longrightarrow> cells (reqs w) a \<noteq> None"
  by (auto simp: req_pool_def)

lemma shared_same_lib:
  assumes "shared c R B w" and "same_lib w w'"
  shows "shared c R B w'"
proof -
  note same = same_lib_fields [OF assms(2)]
  have "steady c w'"
    using assms(1) same by (intro steady_same [OF _ same_lib_frame [OF assms(2)]]) (auto simp: shared_def steady_def)
  then show ?thesis using assms(1) same by (simp add: shared_def req_pool_def store_pool_def)
qed

lemma shared_accepts: "shared c R B w \<Longrightarrow> shared c R B (w\<lparr>accepts := a\<rparr>)"
proof -
  assume s: "shared c R B w"
  then have st: "steady c w" by (simp add: shared_def)
  have "steady c (w\<lparr>accepts := a\<rparr>)"
    by (rule steady_same [OF st]) (use steadyD(3) [OF st] in \<open>simp_all add: frame_def\<close>)
  with s show ?thesis by (simp add: shared_def req_pool_def store_pool_def)
qed

lemma turn_same_lib: "turn c R B r q w \<Longrightarrow> same_lib w w' \<Longrightarrow> turn c R B r q w' \<and> own_change r w q w'"
  using shared_same_lib [of c R B w w'] same_lib_fields [of w w'] same_lib_frame [of w w']
  by (auto simp: turn_def own_change_def)

lemma turn_with_req:
  assumes t: "turn c R B r q w" and e: "endpoint q' \<noteq> 0 \<longrightarrow> cells (ends w) (endpoint q') \<noteq> None"
  shows "turn c R B r q' (with_req r q' w)" and "own_change r w q' (with_req r q' w)"
proof -
  note d = turnD [OF t]
  have "steady c (with_req r q' w)" using steadyD(3) [OF d(1)] d(2) by (intro steady_same [OF d(1)]) simp_all
  moreover have "req_pool R (with_req r q' w)" using d(2) req_pool_live [OF d(5)] by (intro req_pool_frame [OF d(5)]) (use d(7) in auto)
  ultimately show "turn c R B r q' (with_req r q' w)" using d e by (simp add: turn_def shared_def store_pool_def)
  show "own_change r w q' (with_req r q' w)" by (simp add: own_change_def)
qed

lemma own_change_trans: "own_change r w q1 w1 \<Longrightarrow> own_change r w1 q2 w2 \<Longrightarrow> own_change r w q2 w2"
  by (auto simp: own_change_def intro: frame_trans)

lemma hooks_turn:
  assumes b: "benign c" and t: "turn c R B r q w" and ty: "0 \<le> type" "type < FRA_HOOK_COUNT"
  obtains rc w' where "fra_p_req_hook_execute c r type w = Inr (rc, w')" and "turn c R B r q w'" and "own_change r w q w'"
proof -
  note d = turnD [OF t]
  have run: "fra_p_req_hook_execute c r type w = run_hooks c True (req_fns w (endpoint q) type) r w"
    using ty by (intro req_hook_execute_runs benign_tame [OF b] steadyD [OF d(1)] d)
  obtain rc w' where "run_hooks c True (req_fns w (endpoint q) type) r w = Inr (rc, w')" "same_lib w w'"
    using run_hooks_benign [OF b, of True "req_fns w (endpoint q) type" r w] by auto
  then show ?thesis using that [of rc w'] run turn_same_lib [OF t] by simp
qed

lemma accept_turn:
  assumes t: "turn c R B r q w" and acc: "accepts w = (arc, env) # rest"
  obtains rc q' w' where "accept_req c r w = Inr (rc, w')" and "turn c R B r q' w'" and "own_change r w q' w'"
    and "endpoint q' = endpoint q" and "endpoint_store q' = endpoint_store q"
proof -
  note d = turnD [OF t]
  let ?w0 = "say (FCGX_InitRequest (Some r)) w" and ?q1 = "q\<lparr>envp := []\<rparr>"
  have t0: "turn c R B r q ?w0" and o0: "own_change r w q ?w0" using turn_same_lib [OF t same_lib_say] by auto
  let ?w1 = "with_req r ?q1 ?w0"
  have u1: "upd_req r (envp_update (\<lambda>_. [])) ?w0 = Inr ?w1"
    using upd_req_ok [OF steadyD(3) [OF turnD(1) [OF t0]] turnD(2) [OF t0]] by simp
  have t1: "turn c R B r ?q1 ?w1" and o1: "own_change r ?w0 ?q1 ?w1"
    using turn_with_req [OF t0, of ?q1] turnD(8) [OF t0] by simp_all
  let ?w2 = "say (FCGX_Accept_r (Some r) arc) (?w1\<lparr>accepts := rest\<rparr>)"
  have ta: "turn c R B r ?q1 (?w1\<lparr>accepts := rest\<rparr>)" and oa: "own_change r ?w1 ?q1 (?w1\<lparr>accepts := rest\<rparr>)"
    using t1 shared_accepts [of c R B ?w1 rest] by (auto simp: turn_def own_change_def frame_def)
  from turn_same_lib [OF ta same_lib_say] have t2: "turn c R B r ?q1 ?w2" and o2: "own_change r w ?q1 ?w2"
    using own_change_trans [OF own_change_trans [OF own_change_trans [OF o0 o1] oa]] by auto
  have a2: "accept_r (Some r) ?w1 = Inr (arc, env, ?w2)"
    using acc by (simp add: accept_r_def say_def with_req_def)
  show ?thesis
  proof (cases "arc < 0")
    case True
    have "accept_req c r w = Inr (- 1, ?w2)" using True by (simp add: accept_req_def u1 a2)
    from that [OF this t2 o2] show ?thesis by simp
  next
    case False
    let ?q3 = "?q1\<lparr>envp := env, fcgx_defined := True\<rparr>"
    have "upd_req r (\<lambda>q. q\<lparr>envp := env, fcgx_defined := True\<rparr>) ?w2 = Inr (with_req r ?q3 ?w2)"
      by (rule upd_req_ok [OF steadyD(3) [OF turnD(1) [OF t2]] turnD(2) [OF t2]])
    then have run: "accept_req c r w = Inr (0, with_req r ?q3 ?w2)" using False by (simp add: accept_req_def u1 a2)
    have "turn c R B r ?q3 (with_req r ?q3 ?w2)" "own_change r ?w2 ?q3 (with_req r ?q3 ?w2)"
      using turn_with_req [OF t2, of ?q3] turnD(8) [OF t2] by simp_all
    from that [OF run this(1) own_change_trans [OF o2 this(2)]] show ?thesis by simp
  qed
qed

lemma params_turn:
  assumes t: "turn c R B r q w" and f: "f = set_verb \<or> f = set_urls"
  obtains rc q' w' where "f c r w = Inr (rc, w')" and "turn c R B r q' w'" and "own_change r w q' w'"
    and "endpoint q' = endpoint q" and "endpoint_store q' = endpoint_store q"
proof -
  note d = turnD [OF t]
  note g = hget_ok [OF steadyD(3) [OF d(1)] d(2)] and u = upd_req_ok [OF steadyD(3) [OF d(1)] d(2)]
  have stay: "turn c R B r q w" "own_change r w q w" using t turn_same_lib [OF t same_lib_refl] by simp_all
  obtain rc q' where sq: "set_req_url c q = (rc, q')" by (cases "set_req_url c q")
  have "\<exists>rc q'. f c r w = Inr (rc, with_req r q' w) \<and> endpoint q' = endpoint q \<and> endpoint_store q' = endpoint_store q \<or>
      f c r w = Inr (rc, w)"
    using f
  proof
    assume "f = set_verb"
    then show ?thesis
      by (cases "set_param c ''REQUEST_METHOD'' FRA_CORE_MAX_VERB_LENGTH (envp q)")
        (auto simp: set_verb_def g u intro!: exI [of _ "q\<lparr>req_verb := t\<rparr>" for t])
  next
    assume "f = set_urls"
    then show ?thesis using set_req_url_keeps [OF sq] by (auto simp: set_urls_def g u sq)
  qed
  then show ?thesis using that turn_with_req [OF t] d(8) stay by metis
qed

lemma find_turn:
  assumes t: "turn c R B r q w" and e0: "endpoint q = 0"
  obtains rc q' w' where "find_endpoint c r w = Inr (rc, w')" and "turn c R B r q' w'" and "own_change r w q' w'"
    and "endpoint q' = 0 \<longleftrightarrow> rc \<noteq> 0"
proof -
  note d = turnD [OF t]
  let ?k = "(bstr_content (base_url q), bstr_content (req_verb q))"
  define e where "e = (case routes (urls (w_urls w)) ?k of None \<Rightarrow> 0 | Some e \<Rightarrow> e)"
  have "fra_p_url_to_endpoint (bs c) (bstr_content (req_verb q)) (bstr_content (base_url q)) (w_urls w) (w_env w) =
      Inr (e, w_urls w, w_env w)"
    using to_endpoint_ok [OF steadyD(8) [OF d(1)]] steadyD(1) [OF d(1)] by (simp add: e_def)
  then have run: "find_endpoint c r w = Inr (if e = 0 then - 1 else 0, with_req r (q\<lparr>endpoint := e\<rparr>) w)"
    using upd_req_ok [OF steadyD(3) [OF d(1)] d(2)] e0
    by (simp add: find_endpoint_def hget_ok [OF steadyD(3) [OF d(1)] d(2)])
  have "e \<noteq> 0 \<longrightarrow> cells (ends w) e \<noteq> None"
    using steadyD(9) [OF d(1), of ?k] by (auto simp: e_def split: option.splits)
  then have "turn c R B r (q\<lparr>endpoint := e\<rparr>) (with_req r (q\<lparr>endpoint := e\<rparr>) w)"
    "own_change r w (q\<lparr>endpoint := e\<rparr>) (with_req r (q\<lparr>endpoint := e\<rparr>) w)"
    using turn_with_req [OF t, of "q\<lparr>endpoint := e\<rparr>"] by simp_all
  from that [OF run this] show ?thesis by simp
qed

lemma store_turn:
  assumes t: "turn c R B r q w" and e: "endpoint q \<noteq> 0"
    and hk: "\<forall>f \<in> set (req_fns w (endpoint q) FRA_END_STORE_CREATED). succeeds c f"
  obtains s w' where "fra_p_end_store_set c r w = Inr (0, w')"
    and "turn c R (B(endpoint q := insert s (B (endpoint q)))) r (q\<lparr>endpoint_store := s\<rparr>) w'"
    and "own_change r w (q\<lparr>endpoint_store := s\<rparr>) w'" and "s \<noteq> 0" and "s \<notin> B (endpoint q)"
proof -
  note d = turnD [OF t]
  obtain n where n: "cells (ends w) (endpoint q) = Some n" using d(8) e by auto
  from end_store_set_ok [OF d(1,6,2) refl n hk] obtain s w' where
    run: "fra_p_end_store_set c r w = Inr (0, w')" and f: "store_frame r w w'" and st': "steady c w'"
    and sp': "store_pool (B(endpoint q := insert s (B (endpoint q)))) w'" and s: "s \<noteq> 0" "s \<notin> B (endpoint q)"
    and q': "cells (reqs w') r = Some (q\<lparr>endpoint_store := s\<rparr>)"
    by auto
  have fr: "frame w w'" using f by (simp add: store_frame_def)
  have cells: "cells (reqs w') = (cells (reqs w))(r \<mapsto> q\<lparr>endpoint_store := s\<rparr>)"
    using f q' by (auto simp: store_frame_def fun_eq_iff)
  have "req_pool R w'"
    using f q' req_pool_live [OF d(5)] by (intro req_pool_frame [OF d(5)]) (use d(7) cells in \<open>auto simp: store_frame_def\<close>)
  then have "turn c R (B(endpoint q := insert s (B (endpoint q)))) r (q\<lparr>endpoint_store := s\<rparr>) w'"
    using st' sp' q' d f frame_none [OF fr] by (simp add: turn_def shared_def store_frame_def)
  then show ?thesis using that run fr cells s by (simp add: own_change_def)
qed

lemma handler_turn:
  assumes b: "benign c" and t: "turn c R B r q w" and e: "endpoint q \<noteq> 0"
  obtains rc w' where "call_handler c r w = Inr (rc, w')" and "turn c R B r q w'" and "own_change r w q w'"
proof -
  note d = turnD [OF t]
  obtain n where n: "cells (ends w) (endpoint q) = Some n" using d(8) e by auto
  note g = hget_ok [OF steadyD(3) [OF d(1)] d(2)] hget_ok [OF steadyD(4) [OF d(1)] n]
  have "\<exists>rc w'. call_handler c r w = Inr (rc, w') \<and> same_lib w w'"
  proof (cases "callback n = 0")
    case True
    then show ?thesis by (simp add: call_handler_def g)
  next
    case False
    let ?w1 = "say (Called (callback n) r) w"
    obtain rc u where "call c (callback n) r ?w1 = Inr (rc, ?w1\<lparr>user := u\<rparr>)"
      using b unfolding benign_def by blast
    then show ?thesis using False same_lib_trans [OF same_lib_say same_lib_user] by (auto simp: call_handler_def g)
  qed
  then show ?thesis using that turn_same_lib [OF t] by blast
qed

text \<open>The stores in use without that of the request \<open>q\<close>.\<close>

definition without_store :: "fra_req \<Rightarrow> (addr \<Rightarrow> addr set) \<Rightarrow> addr \<Rightarrow> addr set" where
  "without_store q B = (if endpoint q = 0 then B else B(endpoint q := B (endpoint q) - {endpoint_store q}))"

lemma put_turn:
  assumes t: "turn c R B r q w"
    and s: "endpoint q \<noteq> 0 \<Longrightarrow> endpoint_store q \<noteq> 0 \<and> endpoint_store q \<in> B (endpoint q)"
  obtains w' where "req_maybe_free c r w = Inr (0, w')" and "shared c (R - {r}) (without_store q B) w'"
    and "frame w w'" and "\<And>a. a \<noteq> r \<Longrightarrow> cells (reqs w') a = cells (reqs w) a"
proof -
  note d = turnD [OF t]
  have s': "endpoint q \<noteq> 0 \<Longrightarrow> cells (ends w) (endpoint q) \<noteq> None \<and> endpoint_store q \<noteq> 0 \<and> endpoint_store q \<in> B (endpoint q)"
    using s d(8) by blast
  from req_put_back [OF d(1,4,5,7,2,6) s'] show ?thesis using that by (auto simp: shared_def without_store_def)
qed

lemma get_turn:
  assumes sh: "shared c R B w" and hk: "\<forall>f \<in> set (req_fns w 0 FRA_REQ_CREATED). succeeds c f"
    and jk: "\<forall>a. endpoint (junk c a) = 0"
  obtains r w1 q w' where "get_req c w = Inr (r, w1)" and "r \<noteq> 0" and "reset_req r w1 = Inr w'" and "r \<notin> R"
    and "turn c (insert r R) B r q w'" and "endpoint q = 0" and "frame w w'"
    and "\<And>a. a \<noteq> r \<Longrightarrow> cells (reqs w') a = cells (reqs w) a"
proof -
  from sh have s: "steady c w" "\<not> empty_req_lock w" "req_pool R w" "store_pool B w" by (simp_all add: shared_def)
  from get_req_ok [OF s(1-3) hk jk] obtain r w1 q where 1: "get_req c w = Inr (r, w1)" "r \<noteq> 0" "frame w w1" "steady c w1"
    "\<not> empty_req_lock w1" "req_pool (insert r R) w1" "r \<notin> R" "ends w1 = ends w" "stores w1 = stores w"
    "cells (reqs w1) r = Some q" and others: "\<And>a. a \<noteq> r \<Longrightarrow> cells (reqs w1) a = cells (reqs w) a"
    by blast
  let ?q = "q\<lparr>fcgx_defined := False, endpoint := 0\<rparr>"
  have "steady c (with_req r ?q w1)" using steadyD(3) [OF 1(4)] 1(10) by (intro steady_same [OF 1(4)]) simp_all
  moreover have "req_pool (insert r R) (with_req r ?q w1)"
    using req_pool_live [OF 1(6)] by (intro req_pool_frame [OF 1(6)]) auto
  ultimately have "turn c (insert r R) B r ?q (with_req r ?q w1)"
    using 1(5,8,9) s(4) by (simp add: turn_def shared_def store_pool_def)
  moreover have "reset_req r w1 = Inr (with_req r ?q w1)"
    using upd_req_ok [OF steadyD(3) [OF 1(4)] 1(10)] by (simp add: reset_req_def)
  moreover have "frame w (with_req r ?q w1)" using 1(3) frame_with(1) frame_trans by blast
  ultimately show ?thesis using that 1(1,2,7) others by simp
qed

end
