(* ===== verification/Threads.thy ===== *)
theory Threads
  imports Thread
begin

text \<open>
  Any number of threads that handle requests in any order of their steps (\<open>Thread\<close>): the relation
  \<open>threads\<close>, what the threads use of the pools of requests and stores, the invariant that
  every step keeps, and that every thread can go on.
\<close>

section \<open>All threads\<close>

fun holds :: "pc \<Rightarrow> addr option" where
  "holds (Fresh r) = Some r"
| "holds (Taken r) = Some r"
| "holds (Accepted r) = Some r"
| "holds (Verbed r) = Some r"
| "holds (Split r) = Some r"
| "holds (Hooked r) = Some r"
| "holds (Found r) = Some r"
| "holds (Stored r) = Some r"
| "holds (Ready r) = Some r"
| "holds (Handled r) = Some r"
| "holds (Fcgx_cleanup r) = Some r"
| "holds (Req_cleanup r) = Some r"
| "holds p = None"

text \<open>Does the request \<open>q\<close> of a thread at \<open>p\<close> have an endpoint, and a store?\<close>

fun endpoint_fits :: "pc \<Rightarrow> bool \<Rightarrow> bool" where
  "endpoint_fits (Found r) b = b"
| "endpoint_fits (Stored r) b = b"
| "endpoint_fits (Ready r) b = b"
| "endpoint_fits (Handled r) b = b"
| "endpoint_fits (Fcgx_cleanup r) b = True"
| "endpoint_fits p b = (\<not> b)"

fun is_found :: "pc \<Rightarrow> bool" where
  "is_found (Found r) = True"
| "is_found p = False"

definition store_of :: "pc \<Rightarrow> fra_req \<Rightarrow> (addr \<times> addr) option" where
  "store_of p q = (if endpoint q = 0 \<or> is_found p then None else Some (endpoint q, endpoint_store q))"

text \<open>What the threads at \<open>ps\<close> use.\<close>

definition used_reqs :: "('t \<Rightarrow> pc) \<Rightarrow> addr set" where
  "used_reqs ps = {r. \<exists>i. holds (ps i) = Some r}"

definition thread_store :: "pc \<Rightarrow> 'u world \<Rightarrow> (addr \<times> addr) option" where
  "thread_store p w = (case holds p of None \<Rightarrow> None | Some r \<Rightarrow>
     (case cells (reqs w) r of None \<Rightarrow> None | Some q \<Rightarrow> store_of p q))"

definition used_stores :: "('t \<Rightarrow> pc) \<Rightarrow> 'u world \<Rightarrow> addr \<Rightarrow> addr set" where
  "used_stores ps w e = {s. \<exists>i. thread_store (ps i) w = Some (e, s)}"

definition threads_inv :: "'u ctx \<Rightarrow> ('t \<Rightarrow> pc) \<Rightarrow> 'u world \<Rightarrow> bool" where
  "threads_inv c ps w \<longleftrightarrow> hooks_create c w \<and> shared c (used_reqs ps) (used_stores ps w) w \<and>
     (\<forall>i j r. holds (ps i) = Some r \<longrightarrow> holds (ps j) = Some r \<longrightarrow> i = j) \<and>
     (\<forall>i j x. thread_store (ps i) w = Some x \<longrightarrow> thread_store (ps j) w = Some x \<longrightarrow> i = j) \<and>
     (\<forall>i r q. holds (ps i) = Some r \<longrightarrow> cells (reqs w) r = Some q \<longrightarrow>
        (endpoint q \<noteq> 0 \<longrightarrow> cells (ends w) (endpoint q) \<noteq> None) \<and> endpoint_fits (ps i) (endpoint q \<noteq> 0) \<and>
        (\<forall>e s. store_of (ps i) q = Some (e, s) \<longrightarrow> s \<noteq> 0))"

text \<open>Some thread makes a step; a thread that is done takes the next request.\<close>

inductive threads :: "'u ctx \<Rightarrow> ('t \<Rightarrow> pc) \<times> 'u world \<Rightarrow> ('t \<Rightarrow> pc) \<times> 'u world \<Rightarrow> bool" for c where
  go_on: "thread_step c revs (ps i) w = Inr (p, w') \<Longrightarrow> threads c (ps, w) (ps(i := p), w')"
| again: "ps i = Done rc \<Longrightarrow> threads c (ps, w) (ps(i := Start), w)"

inductive_cases threadsE: "threads c (ps, w) (ps', w')"

lemma threads_invD:
  assumes "threads_inv c ps w"
  shows "hooks_create c w" "shared c (used_reqs ps) (used_stores ps w) w"
    "\<And>i j r. holds (ps i) = Some r \<Longrightarrow> holds (ps j) = Some r \<Longrightarrow> i = j"
    "\<And>i j x. thread_store (ps i) w = Some x \<Longrightarrow> thread_store (ps j) w = Some x \<Longrightarrow> i = j"
    "\<And>i r q. holds (ps i) = Some r \<Longrightarrow> cells (reqs w) r = Some q \<Longrightarrow> (endpoint q \<noteq> 0 \<longrightarrow> cells (ends w) (endpoint q) \<noteq> None) \<and>
       endpoint_fits (ps i) (endpoint q \<noteq> 0) \<and> (\<forall>e s. store_of (ps i) q = Some (e, s) \<longrightarrow> s \<noteq> 0)"
  using assms unfolding threads_inv_def by blast+

lemma inv_turn:
  assumes inv: "threads_inv c ps w" and h: "holds (ps i) = Some r"
  obtains q where "turn c (used_reqs ps) (used_stores ps w) r q w" and "endpoint_fits (ps i) (endpoint q \<noteq> 0)"
    and "thread_store (ps i) w = store_of (ps i) q"
    and "\<And>e s. store_of (ps i) q = Some (e, s) \<Longrightarrow> s \<noteq> 0 \<and> s \<in> used_stores ps w e"
proof -
  note d = threads_invD [OF inv]
  have r: "r \<in> used_reqs ps" using h by (auto simp: used_reqs_def)
  then obtain q where q: "cells (reqs w) r = Some q"
    using d(2) req_pool_live [of "used_reqs ps" w r] by (auto simp: shared_def)
  have ts: "thread_store (ps i) w = store_of (ps i) q" using h q by (simp add: thread_store_def)
  then have "s \<in> used_stores ps w e" if "store_of (ps i) q = Some (e, s)" for e s
    using that by (auto simp: used_stores_def)
  with d(2) d(5) [OF h q] r q ts show ?thesis by (intro that [of q]) (auto simp: turn_def)
qed

lemma thread_store_used:
  assumes inv: "threads_inv c ps w" and s: "thread_store (ps i) w = Some (e, s)"
  shows "s \<noteq> 0 \<and> s \<in> used_stores ps w e"
proof -
  from s obtain r q where r: "holds (ps i) = Some r" "cells (reqs w) r = Some q" "store_of (ps i) q = Some (e, s)"
    by (auto simp: thread_store_def split: option.splits)
  with threads_invD(5) [OF inv r(1,2)] s show ?thesis by (auto simp: used_stores_def)
qed

lemma other_store:
  assumes "\<And>i j r. holds (ps i) = Some r \<Longrightarrow> holds (ps j) = Some r \<Longrightarrow> i = j" and "j \<noteq> i"
    and "\<And>a. holds (ps i) = Some a \<or> a \<notin> used_reqs ps \<or> cells (reqs w') a = cells (reqs w) a"
  shows "thread_store (ps j) w' = thread_store (ps j) w"
proof (cases "holds (ps j)")
  case (Some a)
  then have "a \<in> used_reqs ps" "holds (ps i) \<noteq> Some a" using assms(1,2) by (auto simp: used_reqs_def)
  then show ?thesis using assms(3) [of a] Some by (simp add: thread_store_def)
qed (simp add: thread_store_def)

lemma used_stores_split:
  "used_stores (ps(i := p)) w' e = {s. thread_store p w' = Some (e, s)} \<union> {s. \<exists>j. j \<noteq> i \<and> thread_store (ps j) w' = Some (e, s)}"
  by (auto simp: used_stores_def split: if_splits)

text \<open>The step of thread \<open>i\<close> from \<open>ps i\<close> to \<open>p\<close>, whatever it holds before and afterwards.\<close>

lemma step_inv:
  assumes inv: "threads_inv c ps w" and fr: "frame w w'"
    and sh: "shared c (used_reqs (ps(i := p))) (used_stores (ps(i := p)) w') w'"
    and same: "\<And>a. holds (ps i) = Some a \<or> a \<notin> used_reqs ps \<or> cells (reqs w') a = cells (reqs w) a"
    and own: "\<And>j r. j \<noteq> i \<Longrightarrow> holds p = Some r \<Longrightarrow> holds (ps j) \<noteq> Some r"
    and store: "\<And>j x. j \<noteq> i \<Longrightarrow> thread_store p w' = Some x \<Longrightarrow> thread_store (ps j) w \<noteq> Some x"
    and fits: "\<And>r q. holds p = Some r \<Longrightarrow> cells (reqs w') r = Some q \<Longrightarrow> (endpoint q \<noteq> 0 \<longrightarrow> cells (ends w') (endpoint q) \<noteq> None) \<and>
       endpoint_fits p (endpoint q \<noteq> 0) \<and> (\<forall>e s. store_of p q = Some (e, s) \<longrightarrow> s \<noteq> 0)"
  shows "threads_inv c (ps(i := p)) w'"
proof -
  note d = threads_invD [OF inv]
  have other: "thread_store (ps j) w' = thread_store (ps j) w" if "j \<noteq> i" for j
    by (rule other_store [OF d(3) that same])
  have "hooks_create c w'" using d(1) hooks_create_frame [OF fr] by simp
  moreover have "j = k" if "holds ((ps(i := p)) j) = Some r" "holds ((ps(i := p)) k) = Some r" for j k r
    using that d(3) own by (auto split: if_splits)
  moreover have "j = k" if "thread_store ((ps(i := p)) j) w' = Some x" "thread_store ((ps(i := p)) k) w' = Some x" for j k x
  proof (rule ccontr)
    assume ne: "j \<noteq> k"
    show False
    proof (cases "j = i \<or> k = i")
      case True
      then show False using that ne store other by (auto split: if_splits)
    next
      case False
      then show False using that ne other d(4) by auto
    qed
  qed
  moreover have "(endpoint q \<noteq> 0 \<longrightarrow> cells (ends w') (endpoint q) \<noteq> None) \<and> endpoint_fits ((ps(i := p)) j) (endpoint q \<noteq> 0) \<and>
      (\<forall>e s. store_of ((ps(i := p)) j) q = Some (e, s) \<longrightarrow> s \<noteq> 0)"
    if h: "holds ((ps(i := p)) j) = Some r" and q: "cells (reqs w') r = Some q" for j r q
  proof (cases "j = i")
    case True
    then show ?thesis using fits h q by simp
  next
    case False
    then have hj: "holds (ps j) = Some r" using h by simp
    then have "r \<in> used_reqs ps" "holds (ps i) \<noteq> Some r" using d(3) False by (auto simp: used_reqs_def)
    then have "cells (reqs w) r = Some q" using same [of r] q by simp
    then show ?thesis using d(5) [OF hj] False frame_none [OF fr] by simp
  qed
  ultimately show ?thesis using sh unfolding threads_inv_def by blast
qed

lemma used_reqs_upd:
  "holds p = holds (ps i) \<Longrightarrow> used_reqs (ps(i := p)) = used_reqs ps"
  "holds (ps i) = None \<Longrightarrow> holds p = Some r \<Longrightarrow> used_reqs (ps(i := p)) = insert r (used_reqs ps)"
  by (auto simp: used_reqs_def split: if_splits) (metis option.distinct(1))+

lemma used_reqs_drop:
  assumes "\<And>j k a. holds (ps j) = Some a \<Longrightarrow> holds (ps k) = Some a \<Longrightarrow> j = k" and "holds (ps i) = Some r" and "holds p = None"
  shows "used_reqs (ps(i := p)) = used_reqs ps - {r}"
proof -
  have "(\<exists>j. holds ((ps(i := p)) j) = Some a) \<longleftrightarrow> (\<exists>j. holds (ps j) = Some a) \<and> a \<noteq> r" for a
    using assms(1) [of i a] assms(2,3) by (metis fun_upd_apply option.distinct(1) option.inject)
  then show ?thesis by (auto simp: used_reqs_def)
qed

lemma used_stores_upd:
  assumes "\<And>j. j \<noteq> i \<Longrightarrow> thread_store (ps j) w' = thread_store (ps j) w"
    and "\<And>j k x. thread_store (ps j) w = Some x \<Longrightarrow> thread_store (ps k) w = Some x \<Longrightarrow> j = k"
  shows "thread_store p w' = thread_store (ps i) w \<Longrightarrow> used_stores (ps(i := p)) w' = used_stores ps w"
    and "thread_store (ps i) w = None \<Longrightarrow> thread_store p w' = Some (e, s) \<Longrightarrow>
      used_stores (ps(i := p)) w' = (used_stores ps w)(e := insert s (used_stores ps w e))"
    and "thread_store (ps i) w = Some (e, s) \<Longrightarrow> thread_store p w' = None \<Longrightarrow>
      used_stores (ps(i := p)) w' = (used_stores ps w)(e := used_stores ps w e - {s})"
proof -
  have split: "used_stores (ps(i := p)) w' e' = {s. thread_store p w' = Some (e', s)} \<union> {s. \<exists>j. j \<noteq> i \<and> thread_store (ps j) w = Some (e', s)}" for e'
    unfolding used_stores_split using assms(1) by auto
  have old: "used_stores ps w e' = {s. thread_store (ps i) w = Some (e', s)} \<union> {s. \<exists>j. j \<noteq> i \<and> thread_store (ps j) w = Some (e', s)}" for e'
    by (auto simp: used_stores_def)
  show "thread_store p w' = thread_store (ps i) w \<Longrightarrow> used_stores (ps(i := p)) w' = used_stores ps w"
    by (rule ext) (simp add: split old)
  show "thread_store (ps i) w = None \<Longrightarrow> thread_store p w' = Some (e, s) \<Longrightarrow>
      used_stores (ps(i := p)) w' = (used_stores ps w)(e := insert s (used_stores ps w e))"
    by (rule ext) (auto simp: split old)
  assume i: "thread_store (ps i) w = Some (e, s)" and p: "thread_store p w' = None"
  have out: "s \<notin> {s. \<exists>j. j \<noteq> i \<and> thread_store (ps j) w = Some (e, s)}" using assms(2) i by blast
  show "used_stores (ps(i := p)) w' = (used_stores ps w)(e := used_stores ps w e - {s})"
  proof
    fix e' show "used_stores (ps(i := p)) w' e' = ((used_stores ps w)(e := used_stores ps w e - {s})) e'"
      using out i p by (cases "e' = e") (auto simp: split old)
  qed
qed

lemma not_held:
  assumes "\<And>j k x. f (ps j) = Some x \<Longrightarrow> f (ps k) = Some x \<Longrightarrow> j = k" and "j \<noteq> i" and "f (ps i) = Some x"
  shows "f (ps j) \<noteq> Some x"
  using assms by blast

text \<open>A step on the own request that leaves the store as it is.\<close>

lemma keep_inv:
  assumes inv: "threads_inv c ps w" and h: "holds (ps i) = Some r" "holds p = Some r"
    and t: "turn c (used_reqs ps) (used_stores ps w) r q' w'" and oc: "own_change r w q' w'"
    and s: "store_of p q' = thread_store (ps i) w" and fits: "endpoint_fits p (endpoint q' \<noteq> 0)"
  shows "threads_inv c (ps(i := p)) w'"
proof -
  note d = threads_invD [OF inv]
  have fr: "frame w w'" and cells: "cells (reqs w') = (cells (reqs w))(r \<mapsto> q')" using oc by (simp_all add: own_change_def)
  have same: "holds (ps i) = Some a \<or> a \<notin> used_reqs ps \<or> cells (reqs w') a = cells (reqs w) a" for a
    using h(1) cells by simp
  have ts: "thread_store p w' = thread_store (ps i) w" using h(2) cells s by (simp add: thread_store_def)
  have other: "\<And>j. j \<noteq> i \<Longrightarrow> thread_store (ps j) w' = thread_store (ps j) w" by (rule other_store [OF d(3) _ same])
  show ?thesis
  proof (rule step_inv [OF inv fr _ same])
    show "shared c (used_reqs (ps(i := p))) (used_stores (ps(i := p)) w') w'"
    proof -
      have u: "used_reqs (ps(i := p)) = used_reqs ps" by (rule used_reqs_upd(1)) (simp add: h)
      have v: "used_stores (ps(i := p)) w' = used_stores ps w"
        by (rule used_stores_upd(1) [where ps = ps and i = i and p = p, OF other d(4) ts])
      show ?thesis unfolding u v using t unfolding turn_def by blast
    qed
    show "holds (ps j) \<noteq> Some a" if "j \<noteq> i" "holds p = Some a" for j a
    proof -
      have "a = r" using that(2) h(2) by simp
      then show ?thesis using not_held [where ps = ps and f = holds, OF d(3) that(1) h(1)] by simp
    qed
    show "thread_store (ps j) w \<noteq> Some x" if "j \<noteq> i" "thread_store p w' = Some x" for j x
    proof
      assume a: "thread_store (ps j) w = Some x"
      have "thread_store (ps i) w = Some x" using that(2) unfolding ts .
      then show False using d(4) [OF a] that(1) by blast
    qed
    show "(endpoint q \<noteq> 0 \<longrightarrow> cells (ends w') (endpoint q) \<noteq> None) \<and> endpoint_fits p (endpoint q \<noteq> 0) \<and>
        (\<forall>e s. store_of p q = Some (e, s) \<longrightarrow> s \<noteq> 0)" if "holds p = Some a" "cells (reqs w') a = Some q" for a q
    proof -
      have q: "q = q'" using that h(2) cells by simp
      have "\<forall>e s. store_of p q' = Some (e, s) \<longrightarrow> s \<noteq> 0" using s thread_store_used [OF inv] by metis
      moreover have "endpoint q' \<noteq> 0 \<longrightarrow> cells (ends w') (endpoint q') \<noteq> None" using t unfolding turn_def by blast
      ultimately show ?thesis using fits unfolding q by blast
    qed
  qed
qed

lemma add_inv:
  assumes inv: "threads_inv c ps w" and h: "holds (ps i) = Some r" "holds p = Some r"
    and t: "turn c (used_reqs ps) ((used_stores ps w)(e := insert s (used_stores ps w e))) r q' w'" and oc: "own_change r w q' w'"
    and s: "thread_store (ps i) w = None" "store_of p q' = Some (e, s)" "s \<noteq> 0" "s \<notin> used_stores ps w e"
    and fits: "endpoint_fits p (endpoint q' \<noteq> 0)"
  shows "threads_inv c (ps(i := p)) w'"
proof -
  note d = threads_invD [OF inv]
  have fr: "frame w w'" and cells: "cells (reqs w') = (cells (reqs w))(r \<mapsto> q')" using oc by (simp_all add: own_change_def)
  have same: "holds (ps i) = Some a \<or> a \<notin> used_reqs ps \<or> cells (reqs w') a = cells (reqs w) a" for a
    using h(1) cells by simp
  have ts: "thread_store p w' = Some (e, s)" using h(2) cells s by (simp add: thread_store_def)
  have other: "\<And>j. j \<noteq> i \<Longrightarrow> thread_store (ps j) w' = thread_store (ps j) w" by (rule other_store [OF d(3) _ same])
  show ?thesis
  proof (rule step_inv [OF inv fr _ same])
    show "shared c (used_reqs (ps(i := p))) (used_stores (ps(i := p)) w') w'"
    proof -
      have u: "used_reqs (ps(i := p)) = used_reqs ps" by (rule used_reqs_upd(1)) (simp add: h)
      have v: "used_stores (ps(i := p)) w' = (used_stores ps w)(e := insert s (used_stores ps w e))"
        by (rule used_stores_upd(2) [where ps = ps and i = i and p = p, OF other d(4) s(1) ts])
      show ?thesis unfolding u v using t unfolding turn_def by blast
    qed
    show "holds (ps j) \<noteq> Some a" if "j \<noteq> i" "holds p = Some a" for j a
    proof -
      have "a = r" using that(2) h(2) by simp
      then show ?thesis using not_held [where ps = ps and f = holds, OF d(3) that(1) h(1)] by simp
    qed
    show "thread_store (ps j) w \<noteq> Some x" if "j \<noteq> i" "thread_store p w' = Some x" for j x
    proof -
      have "thread_store (ps j) w \<noteq> Some (e, s)" using s(4) by (simp add: used_stores_def)
      then show ?thesis using that(2) ts by simp
    qed
    show "(endpoint q \<noteq> 0 \<longrightarrow> cells (ends w') (endpoint q) \<noteq> None) \<and> endpoint_fits p (endpoint q \<noteq> 0) \<and>
        (\<forall>e s. store_of p q = Some (e, s) \<longrightarrow> s \<noteq> 0)" if "holds p = Some a" "cells (reqs w') a = Some q" for a q
    proof -
      have q: "q = q'" using that h(2) cells by simp
      have "endpoint q' \<noteq> 0 \<longrightarrow> cells (ends w') (endpoint q') \<noteq> None" using t unfolding turn_def by blast
      moreover have "\<forall>e s. store_of p q' = Some (e, s) \<longrightarrow> s \<noteq> 0" using s(2,3) by simp
      ultimately show ?thesis using fits unfolding q by blast
    qed
  qed
qed

lemma put_inv:
  assumes inv: "threads_inv c ps w" and h: "holds (ps i) = Some r" "holds p = None"
    and q: "thread_store (ps i) w = store_of (ps i) q" "\<not> is_found (ps i)"
    and sh: "shared c (used_reqs ps - {r}) (without_store q (used_stores ps w)) w'" and fr: "frame w w'"
    and others: "\<And>a. a \<noteq> r \<Longrightarrow> cells (reqs w') a = cells (reqs w) a"
  shows "threads_inv c (ps(i := p)) w'"
proof -
  note d = threads_invD [OF inv]
  have same: "holds (ps i) = Some a \<or> a \<notin> used_reqs ps \<or> cells (reqs w') a = cells (reqs w) a" for a
    using h(1) others [of a] by auto
  have ts: "thread_store p w' = None" using h(2) by (simp add: thread_store_def)
  have other: "\<And>j. j \<noteq> i \<Longrightarrow> thread_store (ps j) w' = thread_store (ps j) w" by (rule other_store [OF d(3) _ same])
  have "used_stores (ps(i := p)) w' = without_store q (used_stores ps w)"
  proof (cases "endpoint q = 0")
    case True
    then have "thread_store p w' = thread_store (ps i) w" using q ts by (simp add: store_of_def)
    from used_stores_upd(1) [where ps = ps and i = i and p = p, OF other d(4) this] True show ?thesis by (simp add: without_store_def)
  next
    case False
    then have "thread_store (ps i) w = Some (endpoint q, endpoint_store q)" using q by (simp add: store_of_def)
    from used_stores_upd(3) [where ps = ps and i = i and p = p, OF other d(4) this ts] False show ?thesis by (simp add: without_store_def)
  qed
  then have "shared c (used_reqs (ps(i := p))) (used_stores (ps(i := p)) w') w'"
    using sh used_reqs_drop [where ps = ps and i = i and p = p, OF d(3) h] by simp
  then show ?thesis by (rule step_inv [OF inv fr _ same]) (use h(2) ts in auto)
qed

lemma get_inv:
  assumes inv: "threads_inv c ps w" and h: "holds (ps i) = None" "holds p = Some r" and r: "r \<notin> used_reqs ps"
    and t: "turn c (insert r (used_reqs ps)) (used_stores ps w) r q w'" and e: "endpoint q = 0" "endpoint_fits p False"
    and fr: "frame w w'" and others: "\<And>a. a \<noteq> r \<Longrightarrow> cells (reqs w') a = cells (reqs w) a"
  shows "threads_inv c (ps(i := p)) w'"
proof -
  note d = threads_invD [OF inv]
  have same: "holds (ps i) = Some a \<or> a \<notin> used_reqs ps \<or> cells (reqs w') a = cells (reqs w) a" for a
    using r others [of a] by auto
  have q: "cells (reqs w') r = Some q" using t by (simp add: turn_def)
  have ts: "thread_store p w' = thread_store (ps i) w" using h q e(1) by (simp add: thread_store_def store_of_def)
  have other: "\<And>j. j \<noteq> i \<Longrightarrow> thread_store (ps j) w' = thread_store (ps j) w" by (rule other_store [OF d(3) _ same])
  have "shared c (used_reqs (ps(i := p))) (used_stores (ps(i := p)) w') w'"
    using t used_reqs_upd(2) [of ps i p r, OF h] used_stores_upd(1) [where ps = ps and i = i and p = p, OF other d(4) ts] by (simp add: turn_def)
  then show ?thesis
  proof (rule step_inv [OF inv fr _ same])
    show "holds (ps j) \<noteq> Some a" if "j \<noteq> i" "holds p = Some a" for j a
      using that h r by (auto simp: used_reqs_def)
  qed (use h q e ts in \<open>auto simp: thread_store_def store_of_def\<close>)
qed

lemma free_inv:
  assumes inv: "threads_inv c ps w" and h: "holds (ps i) = None" "holds p = None"
    and sh: "shared c (used_reqs ps) (used_stores ps w) w'" and fr: "frame w w'" and same: "reqs w' = reqs w"
  shows "threads_inv c (ps(i := p)) w'"
proof -
  note d = threads_invD [OF inv]
  have ts: "thread_store p w' = thread_store (ps i) w" using h by (simp add: thread_store_def)
  have other: "thread_store (ps j) w' = thread_store (ps j) w" for j unfolding thread_store_def same ..
  have "shared c (used_reqs (ps(i := p))) (used_stores (ps(i := p)) w') w'"
    using sh used_reqs_upd(1) [of p ps i] used_stores_upd(1) [where ps = ps and i = i and p = p, OF other d(4) ts] h by simp
  then show ?thesis by (rule step_inv [OF inv fr]) (use h same ts in \<open>auto simp: thread_store_def\<close>)
qed

section \<open>Every step\<close>

text \<open>A call on the own request, which succeeds or not.\<close>

lemma keep_go:
  assumes inv: "threads_inv c ps w" and step: "thread_step c revs (ps i) w = go m ok bad" and m: "m = Inr (rc, w')"
    and h: "holds (ps i) = Some r" "holds ok = Some r" "holds bad = Some r"
    and t: "turn c (used_reqs ps) (used_stores ps w) r q' w'" and oc: "own_change r w q' w'"
    and s: "\<And>p. p = ok \<and> rc = 0 \<or> p = bad \<and> rc \<noteq> 0 \<Longrightarrow>
      store_of p q' = thread_store (ps i) w \<and> endpoint_fits p (endpoint q' \<noteq> 0)"
  shows "\<exists>p w'. thread_step c revs (ps i) w = Inr (p, w') \<and> threads_inv c (ps(i := p)) w'"
proof -
  let ?p = "if rc \<noteq> 0 then bad else ok"
  have "threads_inv c (ps(i := ?p)) w'"
    using s [of ?p] h by (intro keep_inv [OF inv h(1) _ t oc]) (simp_all split: if_splits)
  then show ?thesis by (simp add: step m go_def)
qed

lemma inv_turn3:
  assumes inv: "threads_inv c ps w" and h: "holds (ps i) = Some r"
  obtains q where "turn c (used_reqs ps) (used_stores ps w) r q w" and "endpoint_fits (ps i) (endpoint q \<noteq> 0)"
    and "thread_store (ps i) w = store_of (ps i) q"
  by (rule inv_turn [OF inv h]) (rule that)

text \<open>At the points where a thread may only change its request.\<close>

lemma hook_inv:
  assumes inv: "threads_inv c ps w" and b: "benign c"
    and p: "ps i = Fresh r \<and> ty = FRA_REQ_BEFORE_FCGX \<and> ok = Taken r \<and> bad = Req_cleanup r \<or>
      ps i = Split r \<and> ty = FRA_REQ_BEFORE_ENDPOINT \<and> ok = Hooked r \<and> bad = Fcgx_cleanup r \<or>
      ps i = Stored r \<and> ty = FRA_REQ_NEW \<and> ok = Ready r \<and> bad = Fcgx_cleanup r"
  shows "\<exists>p w'. thread_step c revs (ps i) w = Inr (p, w') \<and> threads_inv c (ps(i := p)) w'"
proof -
  have h: "holds (ps i) = Some r" "holds ok = Some r" "holds bad = Some r" using p by auto
  have step: "thread_step c revs (ps i) w = go (fra_p_req_hook_execute c r ty w) ok bad" using p by auto
  have ty: "0 \<le> ty" "ty < FRA_HOOK_COUNT"
    using p by (auto simp: FRA_REQ_BEFORE_FCGX_def FRA_REQ_BEFORE_ENDPOINT_def FRA_REQ_NEW_def FRA_HOOK_COUNT_def)
  obtain q where t: "turn c (used_reqs ps) (used_stores ps w) r q w" and f: "endpoint_fits (ps i) (endpoint q \<noteq> 0)"
    and s: "thread_store (ps i) w = store_of (ps i) q"
    by (rule inv_turn3 [OF inv h(1)])
  obtain rc w' where m: "fra_p_req_hook_execute c r ty w = Inr (rc, w')"
    and t': "turn c (used_reqs ps) (used_stores ps w) r q w'" and oc: "own_change r w q w'"
    by (rule hooks_turn [OF b t ty])
  have "store_of ok q = store_of (ps i) q \<and> endpoint_fits ok (endpoint q \<noteq> 0)"
    "store_of bad q = store_of (ps i) q \<and> endpoint_fits bad (endpoint q \<noteq> 0)"
    using p f by (elim disjE conjE; simp add: store_of_def)+
  then show ?thesis using s by (intro keep_go [OF inv step m h t' oc]) auto
qed

lemma params_inv:
  fixes c :: "'u ctx" and g :: "'u ctx \<Rightarrow> addr \<Rightarrow> 'u op"
  assumes inv: "threads_inv c ps w"
    and p: "ps i = Accepted r \<and> g = set_verb \<and> ok = Verbed r \<or> ps i = Verbed r \<and> g = set_urls \<and> ok = Split r"
  shows "\<exists>p w'. thread_step c revs (ps i) w = Inr (p, w') \<and> threads_inv c (ps(i := p)) w'"
proof -
  have h: "holds (ps i) = Some r" "holds ok = Some r" "holds (Fcgx_cleanup r) = Some r" using p by auto
  have step: "thread_step c revs (ps i) w = go (g c r w) ok (Fcgx_cleanup r)" and g: "g = set_verb \<or> g = set_urls" using p by auto
  obtain q where t: "turn c (used_reqs ps) (used_stores ps w) r q w" and f: "endpoint_fits (ps i) (endpoint q \<noteq> 0)"
    and s: "thread_store (ps i) w = store_of (ps i) q"
    by (rule inv_turn3 [OF inv h(1)])
  obtain rc q' w' where m: "g c r w = Inr (rc, w')" and t': "turn c (used_reqs ps) (used_stores ps w) r q' w'"
    and oc: "own_change r w q' w'" and e: "endpoint q' = endpoint q" "endpoint_store q' = endpoint_store q"
    by (rule params_turn [OF t g])
  have "endpoint q = 0" using f p by auto
  then have "store_of (ps i) q = None" "store_of ok q' = None" "store_of (Fcgx_cleanup r) q' = None"
    "endpoint_fits ok (endpoint q' \<noteq> 0)" using p e by (auto simp: store_of_def)
  then show ?thesis using s by (intro keep_go [OF inv step m h t' oc]) auto
qed

lemma find_inv:
  assumes inv: "threads_inv c ps w" and p: "ps i = Hooked r"
  shows "\<exists>p w'. thread_step c revs (ps i) w = Inr (p, w') \<and> threads_inv c (ps(i := p)) w'"
proof -
  have h: "holds (ps i) = Some r" "holds (Found r) = Some r" "holds (Fcgx_cleanup r) = Some r" using p by simp_all
  have step: "thread_step c revs (ps i) w = go (find_endpoint c r w) (Found r) (Fcgx_cleanup r)" using p by simp
  obtain q where t: "turn c (used_reqs ps) (used_stores ps w) r q w" and f: "endpoint_fits (ps i) (endpoint q \<noteq> 0)"
    and s: "thread_store (ps i) w = store_of (ps i) q"
    by (rule inv_turn3 [OF inv h(1)])
  have e: "endpoint q = 0" using f p by simp
  obtain rc q' w' where m: "find_endpoint c r w = Inr (rc, w')" and t': "turn c (used_reqs ps) (used_stores ps w) r q' w'"
    and oc: "own_change r w q' w'" and rc: "endpoint q' = 0 \<longleftrightarrow> rc \<noteq> 0"
    by (rule find_turn [OF t e])
  have "store_of (ps i) q = None" "store_of (Found r) q' = None" "rc \<noteq> 0 \<Longrightarrow> store_of (Fcgx_cleanup r) q' = None"
    "rc = 0 \<Longrightarrow> endpoint_fits (Found r) (endpoint q' \<noteq> 0)" using e rc by (auto simp: store_of_def)
  then show ?thesis using s by (intro keep_go [OF inv step m h t' oc]) auto
qed

lemma accept_inv:
  assumes inv: "threads_inv c ps w" and p: "ps i = Taken r" and acc: "accepts w = (arc, env) # rest"
  shows "\<exists>p w'. thread_step c revs (ps i) w = Inr (p, w') \<and> threads_inv c (ps(i := p)) w'"
proof -
  have h: "holds (ps i) = Some r" using p by simp
  obtain q where t: "turn c (used_reqs ps) (used_stores ps w) r q w" and f: "endpoint_fits (ps i) (endpoint q \<noteq> 0)"
    and s: "thread_store (ps i) w = store_of (ps i) q"
    by (rule inv_turn3 [OF inv h])
  obtain rc q' w' where m: "accept_req c r w = Inr (rc, w')" and t': "turn c (used_reqs ps) (used_stores ps w) r q' w'"
    and oc: "own_change r w q' w'" and e: "endpoint q' = endpoint q" "endpoint_store q' = endpoint_store q"
    by (rule accept_turn [OF t acc])
  have step: "thread_step c revs (ps i) w = go (accept_req c r w) (Accepted r) (Fcgx_cleanup r)" using p by simp
  show ?thesis by (rule keep_go [OF inv step m h _ _ t' oc]) (use p f s e in \<open>auto simp: store_of_def\<close>)
qed

lemma store_inv:
  assumes inv: "threads_inv c ps w" and p: "ps i = Found r"
  shows "\<exists>p w'. thread_step c revs (ps i) w = Inr (p, w') \<and> threads_inv c (ps(i := p)) w'"
proof -
  have h: "holds (ps i) = Some r" using p by simp
  obtain q where t: "turn c (used_reqs ps) (used_stores ps w) r q w" and f: "endpoint_fits (ps i) (endpoint q \<noteq> 0)"
    and s: "thread_store (ps i) w = store_of (ps i) q"
    by (rule inv_turn3 [OF inv h])
  have e: "endpoint q \<noteq> 0" and none: "thread_store (ps i) w = None" using f s p by (simp_all add: store_of_def)
  have hk: "\<forall>f \<in> set (req_fns w (endpoint q) FRA_END_STORE_CREATED). succeeds c f"
    using threads_invD(1) [OF inv] by (simp add: hooks_create_def)
  obtain s' w' where m: "fra_p_end_store_set c r w = Inr (0, w')"
    and t': "turn c (used_reqs ps) ((used_stores ps w)(endpoint q := insert s' (used_stores ps w (endpoint q)))) r (q\<lparr>endpoint_store := s'\<rparr>) w'"
    and oc: "own_change r w (q\<lparr>endpoint_store := s'\<rparr>) w'" and s': "s' \<noteq> 0" "s' \<notin> used_stores ps w (endpoint q)"
    by (rule store_turn [OF t e hk])
  have "threads_inv c (ps(i := Stored r)) w'"
    by (rule add_inv [OF inv h _ t' oc none _ s']) (use e in \<open>simp_all add: store_of_def\<close>)
  then show ?thesis using p m by (simp add: go_def)
qed

lemma handler_inv:
  assumes inv: "threads_inv c ps w" and b: "benign c" and p: "ps i = Ready r"
  shows "\<exists>p w'. thread_step c revs (ps i) w = Inr (p, w') \<and> threads_inv c (ps(i := p)) w'"
proof -
  have h: "holds (ps i) = Some r" "holds (Handled r) = Some r" using p by simp_all
  obtain q where t: "turn c (used_reqs ps) (used_stores ps w) r q w" and f: "endpoint_fits (ps i) (endpoint q \<noteq> 0)"
    and s: "thread_store (ps i) w = store_of (ps i) q"
    by (rule inv_turn3 [OF inv h(1)])
  have e: "endpoint q \<noteq> 0" using f p by simp
  obtain rc w' where m: "call_handler c r w = Inr (rc, w')"
    and t': "turn c (used_reqs ps) (used_stores ps w) r q w'" and oc: "own_change r w q w'"
    by (rule handler_turn [OF b t e])
  have "store_of (Handled r) q = thread_store (ps i) w" using s p by (simp add: store_of_def)
  then have "threads_inv c (ps(i := Handled r)) w'"
    by (rule keep_inv [OF inv h t' oc]) (use e in simp)
  then show ?thesis using p m by simp
qed

text \<open>The request goes back to the pool, whatever is written to the connection before.\<close>

lemma put_back_inv:
  assumes inv: "threads_inv c ps w" and p: "ps i \<in> {Handled r, Fcgx_cleanup r, Req_cleanup r}" and l: "same_lib w w0"
    and h': "holds p = None"
  shows "\<exists>w'. req_maybe_free c r w0 = Inr (0, w') \<and> threads_inv c (ps(i := p)) w'"
proof -
  have h: "holds (ps i) = Some r" and nf: "\<not> is_found (ps i)" using p by auto
  obtain q where t: "turn c (used_reqs ps) (used_stores ps w) r q w" and s: "thread_store (ps i) w = store_of (ps i) q"
    by (rule inv_turn [OF inv h]) (rule that)
  have t0: "turn c (used_reqs ps) (used_stores ps w) r q w0" and oc: "own_change r w q w0" using turn_same_lib [OF t l] by simp_all
  have st: "endpoint_store q \<noteq> 0 \<and> endpoint_store q \<in> used_stores ps w (endpoint q)" if "endpoint q \<noteq> 0"
    using that nf s by (intro thread_store_used [OF inv]) (simp add: store_of_def)
  obtain w' where run: "req_maybe_free c r w0 = Inr (0, w')"
    and sh: "shared c (used_reqs ps - {r}) (without_store q (used_stores ps w)) w'"
    and fr: "frame w0 w'" and others: "\<And>a. a \<noteq> r \<Longrightarrow> cells (reqs w') a = cells (reqs w0) a"
    by (rule put_turn [OF t0 st], assumption) (rule that)
  have "frame w w'" using oc fr frame_trans unfolding own_change_def by blast
  moreover have "cells (reqs w') a = cells (reqs w) a" if "a \<noteq> r" for a
    using others [OF that] oc that by (simp add: own_change_def)
  ultimately have "threads_inv c (ps(i := p)) w'" by (intro put_inv [OF inv h h' s nf sh])
  then show ?thesis using run by blast
qed

text \<open>A thread at its start, which takes a request from the pool or answers with the error page.\<close>

lemma start_inv:
  assumes inv: "threads_inv c ps w" and b: "benign c" and p: "ps i = Start"
  shows "\<exists>p w'. thread_step c revs (ps i) w = Inr (p, w') \<and> threads_inv c (ps(i := p)) w'"
proof -
  have sh: "shared c (used_reqs ps) (used_stores ps w) w" by (rule threads_invD(2) [OF inv])
  then have st: "steady c w" by (simp add: shared_def)
  have to: "threads_inv c (ps(i := p)) w'" if "holds p = None" "same_lib w w'" for p w'
    using free_inv [OF inv _ that(1) shared_same_lib [OF sh that(2)] same_lib_frame [OF that(2)]] same_lib_fields [OF that(2)] p
    by simp
  obtain rc w' where run: "fra_p_glob_hook_execute c FRA_REQ_INCOMING w = Inr (rc, w')" "same_lib w w'"
    using run_hooks_benign [OF b, of False "glob_fns w FRA_REQ_INCOMING" 0 w]
      glob_hook_execute_runs [OF benign_tame [OF b] steadyD(2) [OF st]] by auto
  show ?thesis using p run to [of _ w] to [of _ w'] by (simp add: go_def)
qed

lemma get_step_inv:
  assumes inv: "threads_inv c ps w" and jk: "\<forall>a. endpoint (junk c a) = 0" and p: "ps i = Getting"
  shows "\<exists>r w'. thread_step c revs (ps i) w = Inr (Fresh r, w') \<and> threads_inv c (ps(i := Fresh r)) w' \<and> frame w w'"
proof -
  have sh: "shared c (used_reqs ps) (used_stores ps w) w" and hk: "\<forall>f \<in> set (req_fns w 0 FRA_REQ_CREATED). succeeds c f"
    using threads_invD(1,2) [OF inv] by (simp_all add: hooks_create_def)
  obtain r w1 q w' where g: "get_req c w = Inr (r, w1)" "r \<noteq> 0" "reset_req r w1 = Inr w'" "r \<notin> used_reqs ps"
    "turn c (insert r (used_reqs ps)) (used_stores ps w) r q w'" "endpoint q = 0" "frame w w'"
    "\<And>a. a \<noteq> r \<Longrightarrow> cells (reqs w') a = cells (reqs w) a"
    by (rule get_turn [OF sh hk jk]) (rule that)
  have "threads_inv c (ps(i := Fresh r)) w'"
    by (rule get_inv [OF inv _ _ g(4,5,6) _ g(7,8)]) (use p in simp_all)
  then show ?thesis using p g(1-3,7) by simp
qed

lemma exit_inv:
  assumes inv: "threads_inv c ps w" and p: "ps i = Final_cleanup" and acc: "accepts w = (arc, env) # rest"
  shows "\<exists>p w'. thread_step c revs (ps i) w = Inr (p, w') \<and> threads_inv c (ps(i := p)) w'"
proof -
  let ?w1 = "say (FCGX_InitRequest None) w"
  let ?w2 = "?w1\<lparr>accepts := rest\<rparr>"
  let ?w' = "say (FCGX_Finish_r None) (say (FCGX_FPrintF None error_page) (say (FCGX_Accept_r None arc) ?w2))"
  have run: "exit_request w = Inr ?w'" using acc by (simp add: exit_request_def accept_r_def say_def)
  have l: "same_lib w ?w1" "same_lib ?w2 ?w'" by (meson same_lib_say same_lib_trans)+
  have "shared c (used_reqs ps) (used_stores ps w) ?w'"
    by (intro shared_same_lib [OF _ l(2)] shared_accepts shared_same_lib [OF threads_invD(2) [OF inv] l(1)])
  moreover have "frame w ?w'" "reqs ?w' = reqs w" by (simp_all add: frame_def say_def)
  ultimately have "threads_inv c (ps(i := Done (- 1))) ?w'" using p by (intro free_inv [OF inv]) simp_all
  then show ?thesis using p run by simp
qed

text \<open>A thread goes on, or waits for the next request of the web server.\<close>

definition waits :: "pc \<Rightarrow> 'u world \<Rightarrow> bool" where
  "waits p w \<longleftrightarrow> accepts w = [] \<and> (p = Final_cleanup \<or> (\<exists>r. p = Taken r))"

lemma step_progress:
  assumes inv: "threads_inv c ps w" and b: "benign c" and jk: "\<forall>a. endpoint (junk c a) = 0" and "\<not> waits (ps i) w"
  shows "\<exists>p w'. thread_step c revs (ps i) w = Inr (p, w') \<and> threads_inv c (ps(i := p)) w'"
proof (cases "ps i")
  case (Taken r)
  with assms(4) obtain arc env rest where "accepts w = (arc, env) # rest" by (cases "accepts w") (auto simp: waits_def)
  then show ?thesis by (rule accept_inv [OF inv Taken])
next
  case Final_cleanup
  with assms(4) obtain arc env rest where "accepts w = (arc, env) # rest" by (cases "accepts w") (auto simp: waits_def)
  then show ?thesis by (rule exit_inv [OF inv Final_cleanup])
next
  case (Handled r)
  then obtain w' where "req_maybe_free c r (say (FCGX_Finish_r (Some r)) w) = Inr (0, w') \<and> threads_inv c (ps(i := Done 0)) w'"
    using put_back_inv [OF inv _ same_lib_say, of i r "Done 0"] by auto
  then show ?thesis using Handled by (simp add: go_def)
next
  case (Fcgx_cleanup r)
  then obtain w' where "req_maybe_free c r (say (FCGX_Finish_r (Some r)) (say (FCGX_FPrintF (Some r) error_page) w)) = Inr (0, w') \<and>
      threads_inv c (ps(i := Done (- 1))) w'"
    using put_back_inv [OF inv _ same_lib_trans [OF same_lib_say same_lib_say], of i r "Done (- 1)"] by auto
  then show ?thesis using Fcgx_cleanup by (simp add: fcgx_cleanup_def req_cleanup_def final_cleanup_def)
next
  case (Req_cleanup r)
  then show ?thesis using put_back_inv [OF inv _ same_lib_refl, of i r Final_cleanup] by auto
next
  case (Done rc)
  then have "ps(i := Done rc) = ps" by (simp add: fun_upd_idem)
  then show ?thesis using inv Done by simp
next
  case Start
  then show ?thesis by (rule start_inv [OF inv b])
next
  case Getting
  show ?thesis using get_step_inv [OF inv jk Getting, of revs] by blast
next
  case (Fresh r)
  then show ?thesis by (intro hook_inv [OF inv b]) simp
next
  case (Accepted r)
  then show ?thesis by (intro params_inv [OF inv]) simp
next
  case (Verbed r)
  then show ?thesis by (intro params_inv [OF inv]) simp
next
  case (Split r)
  then show ?thesis by (intro hook_inv [OF inv b]) simp
next
  case (Hooked r)
  then show ?thesis by (rule find_inv [OF inv])
next
  case (Found r)
  then show ?thesis by (rule store_inv [OF inv])
next
  case (Stored r)
  then show ?thesis by (intro hook_inv [OF inv b]) simp
next
  case (Ready r)
  then show ?thesis by (rule handler_inv [OF inv b])
qed

section \<open>Whatever order the threads run in\<close>

lemma threads_keep_inv:
  assumes b: "benign c" and jk: "\<forall>a. endpoint (junk c a) = 0" and step: "threads c (ps, w) (ps', w')" and inv: "threads_inv c ps w"
  shows "threads_inv c ps' w'"
proof (rule threadsE [OF step])
  fix revs i p
  assume eq: "ps' = ps(i := p)" and st: "thread_step c revs (ps i) w = Inr (p, w')"
  have "\<not> waits (ps i) w"
  proof
    assume "waits (ps i) w"
    then consider "ps i = Final_cleanup" "accepts w = []" | r where "ps i = Taken r" "accepts w = []" by (auto simp: waits_def)
    then show False
    proof cases
      case 1
      then show False using st by (simp add: exit_request_def accept_r_def say_def)
    next
      case 2
      obtain q where t: "turn c (used_reqs ps) (used_stores ps w) r q w"
        by (rule inv_turn [OF inv, of i r]) (use 2 in \<open>simp, blast\<close>)
      let ?w1 = "say (FCGX_InitRequest (Some r)) w"
      have t1: "turn c (used_reqs ps) (used_stores ps w) r q ?w1" using turn_same_lib [OF t same_lib_say] by blast
      have a: "accept_r (Some r) (with_req r (q\<lparr>envp := []\<rparr>) ?w1) = Inl Blocked"
        using 2 by (simp add: accept_r_def say_def with_req_def)
      have "accept_req c r w = Inl Blocked"
        using upd_req_ok [OF steadyD(3) [OF turnD(1) [OF t1]] turnD(2) [OF t1], of "envp_update (\<lambda>_. [])"] a
        by (simp add: accept_req_def)
      then show False using 2 st by (simp add: go_def)
    qed
  qed
  from step_progress [OF inv b jk this, of revs] show ?thesis using st eq by auto
next
  fix i rc
  assume eq: "ps' = ps(i := Start)" "w' = w" and dn: "ps i = Done rc"
  have "reqs w = reqs w" "frame w w" by (simp_all add: frame_refl)
  then show ?thesis unfolding eq using dn by (intro free_inv [OF inv _ _ threads_invD(2) [OF inv]]) simp_all
qed

lemma threads_reach_inv:
  assumes b: "benign c" and jk: "\<forall>a. endpoint (junk c a) = 0" and "(threads c)\<^sup>*\<^sup>* x y" and "threads_inv c (fst x) (snd x)"
  shows "threads_inv c (fst y) (snd y)"
  using assms(3,4)
proof (induction rule: rtranclp_induct)
  case (step y z)
  then show ?case using threads_keep_inv [OF b jk, of "fst y" "snd y" "fst z" "snd z"] by simp
qed

lemma threads_start_inv:
  assumes "idle c w" and "hooks_create c w"
  shows "threads_inv c (\<lambda>_ :: 't. Start) w"
proof -
  have "used_reqs (\<lambda>_ :: 't. Start) = {}" "used_stores (\<lambda>_ :: 't. Start) w = (\<lambda>_. {})"
    by (auto simp: used_reqs_def used_stores_def thread_store_def)
  then show ?thesis using assms by (simp add: threads_inv_def idle_shared thread_store_def)
qed


section \<open>Two threads\<close>

text \<open>The second starts while the first has its request.\<close>

lemma take_request:
  assumes inv: "threads_inv c ps w" and b: "benign c" and jk: "\<forall>a. endpoint (junk c a) = 0" and p: "ps i = Start"
    and none: "glob_fns w FRA_REQ_INCOMING = []"
  shows "\<exists>r w'. (threads c)\<^sup>*\<^sup>* (ps, w) (ps(i := Fresh r), w') \<and> threads_inv c (ps(i := Fresh r)) w' \<and> frame w w'"
proof -
  have "steady c w" using threads_invD(2) [OF inv] by (simp add: shared_def)
  then have "thread_step c POLLIN (ps i) w = Inr (Getting, w)"
    using p none glob_hook_execute_runs [OF benign_tame [OF b] steadyD(2)] by (simp add: go_def POLLIN_def)
  then have one: "threads c (ps, w) (ps(i := Getting), w)" by (rule go_on)
  have "threads_inv c (ps(i := Getting)) w" by (rule threads_keep_inv [OF b jk one inv])
  then obtain r w' where "thread_step c POLLIN ((ps(i := Getting)) i) w = Inr (Fresh r, w')"
    "threads_inv c ((ps(i := Getting))(i := Fresh r)) w'" "frame w w'"
    using get_step_inv [OF _ jk, of "ps(i := Getting)" w i] by auto
  note 2 = this
  have "threads c (ps(i := Getting), w) ((ps(i := Getting))(i := Fresh r), w')" using 2(1) by (rule go_on)
  with one have "(threads c)\<^sup>*\<^sup>* (ps, w) (ps(i := Fresh r), w')" by (simp add: rtranclp.rtrancl_into_rtrancl [OF r_into_rtranclp])
  then show ?thesis using 2(2,3) by auto
qed


end
