(* ===== verification/Lock_Faults.thy ===== *)
theory Lock_Faults
  imports Threads Store_Fault
begin

text \<open>
  The lock of the cache of requests on the error paths of \<open>req.c\<close>: unlocked where it was never
  locked, and kept where a function returns; and the end of a request that fails when the request was
  already answered.
\<close>

section \<open>A hook for new requests fails\<close>

lemma get_req_hook_fails:
  assumes b: "benign c" and st: "steady c w" and lk: "\<not> empty_req_lock w" and np: "\<not> pthreads (w_env w)" and first: "empty_req w = 0"
    and jk: "\<forall>a. endpoint (junk c a) = 0" and f: "f \<in> set (req_fns w 0 FRA_REQ_CREATED)" "fails c f"
  shows "get_req c w = Inl (Undef Bad_unlock)"
proof -
  note calm = steadyD(1) [OF st] and hr = steadyD(3) [OF st] and he = steadyD(4) [OF st]
  have lock: "lock_empty_req w = Inr (0, w)" using lock_empty_req_calm [OF calm lk] np lk by simp
  define g where "g = glob_store_size (w_vars w)"
  have sz: "fra_p_var_store_size_get (w_vars w) (w_env w) = Inr (g, 0, w_vars w, w_env w)"
    using np by (simp add: fra_p_var_store_size_get_def g_def)
  have d1: "w_draw w = (True, w)" using calm by (simp add: w_draw_def draw_calm)
  define k where "k = unat (sizeof_req c + g) - unat (sizeof_req c)"
  have m1: "malloc_bytes (sizeof_req c) g = Inr k" using steadyD(11) [OF st] by (simp add: malloc_bytes_def k_def g_def)
  define r where "r = brk (reqs w)"
  define q where "q = (junk c r)\<lparr>req_store := k\<rparr>"
  define h where "h = (reqs w)\<lparr>cells := (cells (reqs w))(r \<mapsto> q), brk := Suc r\<rparr>"
  have new: "hnew q (reqs w) = (r, h)" by (simp add: hnew_def h_def r_def)
  have r0: "r \<noteq> 0" using hr by (simp add: r_def heap_ok_def)
  define w2 where "w2 = w\<lparr>reqs := h\<rparr>"
  have f2: "frame w w2" by (simp add: frame_def w2_def)
  have q2: "cells (reqs w2) r = Some q" "endpoint q = 0" using jk by (simp_all add: w2_def h_def q_def)
  have he2: "heap_ok (ends w2)" using he by (simp add: w2_def)
  obtain w3 where w3: "run_hooks c True (req_fns w2 0 FRA_REQ_CREATED) r w2 = Inr (- 1, w3)" "same_lib w2 w3"
    using run_hooks_fails [OF benign_tame [OF b] _ f(2), of "req_fns w2 0 FRA_REQ_CREATED" r w2] f(1) frame_hooks [OF f2] by auto
  have "fra_p_req_hook_execute c r FRA_REQ_CREATED w2 = Inr (- 1, w3)"
    using req_hook_execute_runs [OF benign_tame [OF b] steady_mid(1) [OF st f2 he2] he2 r0 q2(1), of FRA_REQ_CREATED] q2(2) w3(1)
    by (simp add: FRA_REQ_CREATED_def FRA_HOOK_COUNT_def)
  moreover have "\<exists>w4. free_req r w3 = Inr w4 \<and> \<not> empty_req_lock w4"
    using r0 lk q2(1) same_lib_fields [OF w3(2)] by (simp add: free_req_def hfree_def) (simp add: w2_def)
  ultimately show ?thesis
    using first new m1 by (auto simp: get_req_def lock sz d1 get_req_unlock_cleanup_def pthread_mutex_unlock_def simp flip: r_def q_def w2_def)
qed

text \<open>C30: a failing hook for new requests stops the program. In a server without threads, when a hook
  FRA_REQ_CREATED fails for the first request, \<open>get_req\<close> unlocks the mutex of the cache, which it has locked only if
  \<open>fra_p_pthreads\<close> is set: undefined behaviour instead of the error page.\<close>

theorem failed_request_hook:
  assumes "benign c" and "idle c w" and "\<not> pthreads (w_env w)" and "empty_req w = 0" and "\<forall>a. endpoint (junk c a) = 0"
    and "\<forall>g \<in> set (glob_fns w FRA_REQ_INCOMING). succeeds_glob c g"
    and "f \<in> set (req_fns w 0 FRA_REQ_CREATED)" and "fails c f" and "revs AND POLLIN \<noteq> 0"
  shows "fra_p_req_handle_new c revs w = Inl (Undef Bad_unlock)"
proof -
  have st: "steady c w" using assms(2) by (simp add: idle_def)
  obtain w1 where 1: "run_hooks c False (glob_fns w FRA_REQ_INCOMING) 0 w = Inr (0, w1)" "same_lib w w1"
    using run_glob_hooks_succeed [OF assms(6)] by blast
  have glob: "fra_p_glob_hook_execute c FRA_REQ_INCOMING w = Inr (0, w1)"
    using glob_hook_execute_runs [OF benign_tame [OF assms(1)] steadyD(2) [OF st]] 1(1) by simp
  have sh: "shared c {} (\<lambda>_. {}) w1" by (rule shared_same_lib [OF _ 1(2)]) (use assms(2) idle_shared in blast)
  note s1 = same_lib_fields [OF 1(2)]
  have "f \<in> set (req_fns w1 0 FRA_REQ_CREATED)" using assms(7) frame_hooks [OF same_lib_frame [OF 1(2)]] by simp
  then have "get_req c w1 = Inl (Undef Bad_unlock)"
    using sh assms(3,4) s1 by (intro get_req_hook_fails [OF assms(1) _ _ _ _ assms(5) _ assms(8)]) (simp_all add: shared_def)
  then show ?thesis using assms(9) glob by (simp add: fra_p_req_handle_new_def)
qed

section \<open>A lock that is never released\<close>

text \<open>C31: one failing lock stops all threads for ever. With threads and no cached request, when
  \<open>pthread_mutex_lock\<close> fails in \<open>fra_p_var_store_size_get\<close>, \<open>get_req\<close> returns without unlocking the cache: the
  thread itself goes on to answer with the error page, but every thread that has to take or to give back a request
  from then on waits for ever, with every number of requests it has still to finish.\<close>

theorem lost_lock:
  assumes "pthreads (w_env w)" and "\<not> empty_req_lock w" and "\<not> glob_store_map_lock (w_vars w)" and "empty_req w = 0"
    and "sched (w_env w) = True # False # s"
  shows "\<exists>w'. thread_step c revs Getting w = Inr (Final_cleanup, w') \<and>
    (\<forall>w1. pthreads (w_env w1) \<longrightarrow> empty_req_lock w1 = empty_req_lock w' \<longrightarrow>
       thread_step c revs Getting w1 = Inl Deadlock \<and> thread_step c revs (Handled r) w1 = Inl Deadlock \<and>
       thread_step c revs (Fcgx_cleanup r) w1 = Inl Deadlock \<and> thread_step c revs (Req_cleanup r) w1 = Inl Deadlock)"
proof -
  have "\<exists>w'. get_req c w = Inr (0, w') \<and> empty_req_lock w'"
    using assms by (auto simp: get_req_def lock_empty_req_def fra_p_lock_def pthread_mutex_lock_def draw_def
        fra_p_var_store_size_get_def)
  then obtain w' where "get_req c w = Inr (0, w')" "empty_req_lock w'" by blast
  moreover have "lock_empty_req w1 = Inl Deadlock" if "pthreads (w_env w1)" "empty_req_lock w1" for w1 :: "'a world"
    using that by (simp add: lock_empty_req_def fra_p_lock_def pthread_mutex_lock_def)
  ultimately show ?thesis
    by (intro exI [of _ w'])
      (simp add: get_req_def req_maybe_free_def go_def fcgx_cleanup_def req_cleanup_def say_def)
qed

section \<open>An error after the answer\<close>

text \<open>An error after the answer is given to the next request. With threads, when the request was handled and
  answered and then \<open>pthread_mutex_lock\<close> fails in \<open>req_maybe_free\<close>, the code jumps to \<open>final_cleanup\<close> with
  \<open>rc_ex\<close> still 1: it accepts one more request, of another client, and answers that one with the error page; without one it
  waits in the accept.\<close>

theorem next_request_pays:
  assumes "pthreads (w_env w)" and "\<not> empty_req_lock w" and "sched (w_env w) = False # s"
  shows "(accepts w = [] \<longrightarrow> finish_req c r w = Inl Blocked) \<and>
    (\<forall>arc env rest. accepts w = (arc, env) # rest \<longrightarrow> (\<exists>w'. finish_req c r w = Inr (- 1, w') \<and> accepts w' = rest \<and>
      events w' = events w @ [FCGX_Finish_r (Some r), FCGX_InitRequest None, FCGX_Accept_r None arc, FCGX_FPrintF None error_page,
        FCGX_Finish_r None]))"
  using assms
  by (simp_all add: finish_req_def req_maybe_free_def lock_empty_req_def fra_p_lock_def pthread_mutex_lock_def draw_def say_def
      final_cleanup_def exit_request_def accept_r_def)

section \<open>Witnesses\<close>

text \<open>The sample program with a hook for new requests that fails.\<close>

definition picky_world :: "url_globals \<Rightarrow> nat world" where
  "picky_world = sample_world (one_hook \<lparr>h_next = 0, h_callback = 13, h_priority = Fin 10\<rparr> [1, 0, 0, 0, 0, 0, 0]) [0, 0, 0, 0, 0, 0, 0]"

theorem failed_request_hook_witness:
  "\<exists>g. idle demo_ctx (picky_world g) \<and> fra_p_req_handle_new demo_ctx POLLIN (picky_world g) = Inl (Undef Bad_unlock)"
proof -
  obtain g where g: "routes_ready plain_bstr g" "routes (urls g) = [(''/a'', ''GET'') \<mapsto> 1]"
    using demo_routes by blast
  let ?w = "picky_world g"
  have idle: "idle demo_ctx ?w"
    unfolding picky_world_def by (rule sample_idle [OF g], rule sample_hooks_ok) simp_all
  have w: "\<not> pthreads (w_env ?w)" "empty_req ?w = 0"
    by (simp_all add: picky_world_def sample_world_def demo_world_def quiet_env_def)
  have glob: "\<forall>f \<in> set (glob_fns ?w FRA_REQ_INCOMING). succeeds_glob demo_ctx f"
    by (simp add: glob_fns_def array_fns_def picky_world_def sample_world_def one_hook_def FRA_REQ_INCOMING_def numeral_eq_Suc)
  have f: "13 \<in> set (req_fns ?w 0 FRA_REQ_CREATED)" "fails demo_ctx 13"
    by (simp add: req_fns_def array_fns_def picky_world_def sample_world_def one_hook_def FRA_REQ_CREATED_def eval_nat_numeral)
      (auto simp: fails_def demo_ctx_def)
  have "POLLIN AND POLLIN \<noteq> 0" by (simp add: POLLIN_def)
  with failed_request_hook [OF demo_benign idle w demo_answer_hyps(2) [OF g] glob f] idle show ?thesis by blast
qed

definition threaded :: "bool list \<Rightarrow> nat world" where
  "threaded s = (demo_world no_urls)\<lparr>w_env := \<lparr>sched = s, pthreads = True, live = 20\<rparr>\<rparr>"

theorem lost_lock_witness:
  "\<exists>w'. thread_step demo_ctx POLLIN Getting (threaded [True, False]) = Inr (Final_cleanup, w') \<and>
     (\<forall>v. pthreads v \<longrightarrow> thread_step demo_ctx POLLIN (Handled 1) (w'\<lparr>w_env := v\<rparr>) = Inl Deadlock)"
proof -
  have w: "pthreads (w_env (threaded [True, False]))" "\<not> empty_req_lock (threaded [True, False])"
    "\<not> glob_store_map_lock (w_vars (threaded [True, False]))" "empty_req (threaded [True, False]) = 0"
    "sched (w_env (threaded [True, False])) = [True, False]"
    by (simp_all add: threaded_def demo_world_def)
  from lost_lock [OF w, of demo_ctx POLLIN 1] show ?thesis by fastforce
qed

theorem next_request_pays_witness:
  "\<exists>w'. finish_req demo_ctx 1 (threaded [False]) = Inr (- 1, w') \<and> accepts w' = []"
proof -
  have w: "pthreads (w_env (threaded [False]))" "\<not> empty_req_lock (threaded [False])" "sched (w_env (threaded [False])) = False # []"
    "accepts (threaded [False]) = (0, demo_env) # []"
    by (simp_all add: threaded_def demo_world_def)
  from next_request_pays [OF w(1-3), of demo_ctx 1] w(4) show ?thesis by blast
qed

end
