(* ===== verification/End_Free.thy ===== *)
theory End_Free
  imports Life
begin

text \<open>
  The end of an endpoint, \<open>fra_end_free\<close> of \<open>src/end.c\<close>: its cached stores, hooks and variables are
  freed. Freeing all endpoints before \<open>fra_glob_deinit\<close> gives back everything; freeing one
  while the server goes on leaves a route to a freed endpoint.
\<close>

section \<open>The cached stores\<close>

definition kept :: "'u world \<Rightarrow> 'u world \<Rightarrow> bool" where
  "kept w w' \<longleftrightarrow> empty_req w' = empty_req w \<and> empty_count w' = empty_count w \<and> all_count w' = all_count w \<and>
     empty_req_lock w' = empty_req_lock w \<and> accepts w' = accepts w \<and> fcgx_log w' = fcgx_log w"

lemma kept_refl [simp]: "kept w w"
  by (simp add: kept_def)

lemma kept_trans: "kept w1 w2 \<Longrightarrow> kept w2 w3 \<Longrightarrow> kept w1 w3"
  by (simp add: kept_def)

lemma kept_with [simp]: "kept w (with_end e n w)" "kept w (with_req r q w)" "kept w (w\<lparr>stores := h\<rparr>)"
  by (simp_all add: kept_def fcgx_log_def)

lemma hooks_kept:
  assumes "same_lib w w'" and "events w' = events w @ map (\<lambda>f. Called f r) fs"
  shows "kept w w'"
  using same_lib_fields [OF assms(1)] assms(2) by (simp add: kept_def fcgx_log_def filter_empty_conv)

lemma free_stores_ok:
  assumes "hooks_ok c w" and "heap_ok (reqs w)" and "heap_ok (ends w)" and "heap_ok (stores w)"
    and "cells (ends w) e = Some n" and "cells (reqs w) r = Some q"
    and "chain s_next (cells (stores w)) (store_empty n) ys" and "length ys < k"
    and "\<forall>f \<in> set (req_fns w e FRA_END_STORE_FREE). succeeds c f"
  shows "\<exists>w' q'. free_stores c k e r w = Inr (0, w') \<and> frame w w' \<and> kept w w' \<and>
    cells (ends w') = (cells (ends w))(e \<mapsto> n\<lparr>store_empty := 0\<rparr>) \<and> cells (reqs w') = (cells (reqs w))(r \<mapsto> q') \<and>
    cells (stores w') = (\<lambda>s. if s \<in> set ys then None else cells (stores w) s) \<and>
    heap_ok (reqs w') \<and> heap_ok (ends w') \<and> heap_ok (stores w')"
  using assms
proof (induction ys arbitrary: w n q k)
  case Nil
  then obtain m where k: "k = Suc m" by (cases k) auto
  have "n\<lparr>store_empty := 0\<rparr> = n" using Nil.prems(7) by simp
  then show ?case
    using Nil.prems by (intro exI [of _ w] exI [of _ q]) (simp add: k hget_ok fun_upd_idem)
next
  case (Cons y ys)
  obtain m where k: "k = Suc m" using Cons.prems(8) by (cases k) simp_all
  obtain s where y: "store_empty n = y" "y \<noteq> 0" "cells (stores w) y = Some s" and ch: "chain s_next (cells (stores w)) (s_next s) ys"
    using Cons.prems(7) by (auto split: option.splits)
  have ny: "y \<notin> set ys" using chain_distinct [OF Cons.prems(7)] by simp
  define n1 where "n1 = n\<lparr>store_empty := s_next s\<rparr>"
  define q1 where "q1 = q\<lparr>endpoint := e, fcgx_defined := False, endpoint_store := y\<rparr>"
  define w1 where "w1 = with_req r q1 (with_end e n1 w)"
  have f1: "frame w (with_end e n1 w)" by (rule frame_with_end [OF Cons.prems(5)]) (simp add: n1_def end_core_def)
  then have f1: "frame w w1" unfolding w1_def using frame_with(1) frame_trans by blast
  have h1: "heap_ok (reqs w1)" "heap_ok (ends w1)" "heap_ok (stores w1)" using Cons.prems(2-6) by (simp_all add: w1_def)
  have c1: "cells (reqs w1) = (cells (reqs w))(r \<mapsto> q1)" "cells (ends w1) = (cells (ends w))(e \<mapsto> n1)" "stores w1 = stores w"
    by (simp_all add: w1_def)
  obtain w2 where 2: "fra_p_req_hook_execute c r FRA_END_STORE_FREE w1 = Inr (0, w2)" "same_lib w1 w2"
    "events w2 = events w1 @ map (\<lambda>f. Called f r) (req_fns w1 (endpoint q1) FRA_END_STORE_FREE)"
  proof (rule req_hooks_succeed [OF frame_hooks_ok [OF f1 Cons.prems(1)] h1(2,1)])
    show "cells (reqs w1) r = Some q1" by (simp add: c1)
    show "endpoint q1 \<noteq> 0 \<longrightarrow> cells (ends w1) (endpoint q1) \<noteq> None" by (simp add: q1_def c1)
    show "\<forall>f \<in> set (req_fns w1 (endpoint q1) FRA_END_STORE_FREE). succeeds c f"
      using Cons.prems(9) frame_hooks [OF f1] by (simp add: q1_def)
  qed (auto simp: FRA_END_STORE_FREE_def FRA_HOOK_COUNT_def)
  note s2 = same_lib_fields [OF 2(2)]
  define w3 where "w3 = w2\<lparr>stores := (stores w2)\<lparr>cells := (cells (stores w2))(y := None)\<rparr>\<rparr>"
  have free: "free_store y w2 = Inr w3" using y(2,3) by (simp add: free_store_def hfree_def w3_def s2 c1)
  have f3: "frame w w3"
    unfolding w3_def by (rule frame_trans [OF frame_trans [OF f1 same_lib_frame [OF 2(2)]] frame_with(4)])
  have k3: "kept w w3"
    unfolding w3_def w1_def
    by (rule kept_trans [OF kept_trans [OF kept_trans [OF kept_with(1) kept_with(2)] hooks_kept [OF 2(2,3), unfolded w1_def]] kept_with(3)])
  have c3: "cells (reqs w3) = (cells (reqs w))(r \<mapsto> q1)" "cells (ends w3) = (cells (ends w))(e \<mapsto> n1)"
    "cells (stores w3) = (cells (stores w))(y := None)"
    using c1 s2 by (simp_all add: w3_def)
  have h3: "heap_ok (reqs w3)" "heap_ok (ends w3)" using h1 s2 by (simp_all add: w3_def)
  have h3': "heap_ok (stores w3)" using Cons.prems(4) c1 s2 by (auto simp: w3_def heap_ok_def)
  have ch3: "chain s_next (cells (stores w3)) (store_empty n1) ys"
    using ch ny by (subst chain_cong [of ys _ _ "cells (stores w)"]) (auto simp: c3 n1_def)
  have step: "free_stores c k e r w = free_stores c m e r w3"
  proof -
    have u1: "upd_end e (store_empty_update (\<lambda>_. s_next s)) w = Inr (with_end e n1 w)"
      using upd_end_ok [OF Cons.prems(3,5), of "store_empty_update (\<lambda>_. s_next s)"] by (simp add: n1_def)
    have u2: "upd_req r (\<lambda>q. q\<lparr>endpoint := e, fcgx_defined := False, endpoint_store := y\<rparr>) (with_end e n1 w) = Inr w1"
      using upd_req_ok [of "with_end e n1 w" r q] Cons.prems(2,6) by (simp add: q1_def w1_def)
    show ?thesis
      using y by (simp add: k hget_ok [OF Cons.prems(3,5)] hget_ok [OF Cons.prems(4) y(3)] u1 u2 2(1) free)
  qed
  have "\<forall>f \<in> set (req_fns w3 e FRA_END_STORE_FREE). succeeds c f" using Cons.prems(9) frame_hooks [OF f3] by simp
  moreover have "cells (ends w3) e = Some n1" "cells (reqs w3) r = Some q1" by (simp_all add: c3)
  moreover have "length ys < m" using Cons.prems(8) k by simp
  ultimately obtain w' q' where 4: "free_stores c m e r w3 = Inr (0, w')" "frame w3 w'" "kept w3 w'"
    "cells (ends w') = (cells (ends w3))(e \<mapsto> n1\<lparr>store_empty := 0\<rparr>)" "cells (reqs w') = (cells (reqs w3))(r \<mapsto> q')"
    "cells (stores w') = (\<lambda>s. if s \<in> set ys then None else cells (stores w3) s)"
    "heap_ok (reqs w')" "heap_ok (ends w')" "heap_ok (stores w')"
    using Cons.IH [OF frame_hooks_ok [OF f3 Cons.prems(1)] h3 h3' _ _ ch3, of q1 m] by blast
  show ?case
    using frame_trans [OF f3 4(2)] kept_trans [OF k3 4(3)] 4
    by (intro exI [of _ w'] exI [of _ q']) (auto simp: step c3 n1_def fun_eq_iff)
qed

section \<open>Its hooks and its variables\<close>

lemma free_list_brk: "free_list n p h = Inr h' \<Longrightarrow> brk h' = brk h"
  by (induction n arbitrary: p h) (auto simp: bindo_eq_Inr hfree_def split: if_splits option.splits)

lemma hook_free_brk: "fra_p_hook_free arr n h = Inr h' \<Longrightarrow> brk h' = brk h"
proof -
  have "free_lists ps h = Inr h' \<Longrightarrow> brk h' = brk h" for ps h
    by (induction ps arbitrary: h) (auto simp: bindo_eq_Inr dest: free_list_brk)
  then show "fra_p_hook_free arr n h = Inr h' \<Longrightarrow> brk h' = brk h"
    by (auto simp: fra_p_hook_free_def bindo_eq_Inr split: if_splits)
qed

text \<open>A table of hooks is freed, the others stay.\<close>

lemma hook_tabs_drop:
  assumes tabs: "hook_tabs h A X" and k: "A k = Some arr" and n: "0 < hook_cnt k"
  shows "\<exists>a h'. arr = Live a \<and> fra_p_hook_free arr (hook_cnt k) h = Inr h' \<and> brk h' = brk h \<and> hook_tabs h' (A(k := None)) X \<and>
    cells h' = (\<lambda>x. if x \<in> hook_addrs (X k) then None else cells h x)"
proof -
  from tabs k have "hook_tab h arr (hook_cnt k) (X k)" unfolding hook_tabs_def by blast
  then obtain a where a: "arr = Live a" "int (length a) = hook_cnt k" "hook_table h a (X k)" by (auto simp: hook_tab_def)
  obtain h' where h': "fra_p_hook_free (Live a) (hook_cnt k) h = Inr h'" "heap_ok h'"
    "cells h' = (\<lambda>x. if x \<in> hook_addrs (X k) then None else cells h x)"
    using hook_free_ok [OF a(3) a(2) [symmetric] n] by blast
  have tab: "hook_tab h' b (hook_cnt i) (X i)" if "(A(k := None)) i = Some b" for i b
  proof -
    have i: "A i = Some b" "i \<noteq> k" using that by (auto split: if_splits)
    have t: "hook_tab h b (hook_cnt i) (X i)" and dj: "hook_addrs (X k) \<inter> hook_addrs (X i) = {}"
      using tabs i k unfolding hook_tabs_def by blast+
    then obtain bs where b: "b = Live bs" "int (length bs) = hook_cnt i" "hook_table h bs (X i)" by (auto simp: hook_tab_def)
    have "hook_table h' bs (X i)" by (rule hook_table_free [OF b(3) dj h'(2,3)])
    moreover have "\<forall>x \<in> hook_addrs (X i). hook_val h' x = hook_val h x" using dj by (auto simp: hook_val_def h'(3))
    ultimately show ?thesis using t b by (auto simp: hook_tab_def)
  qed
  have own: "\<exists>i. (A(k := None)) i \<noteq> None \<and> x \<in> hook_addrs (X i)" if "cells h' x \<noteq> None" for x
  proof -
    have x: "cells h x \<noteq> None" "x \<notin> hook_addrs (X k)" using that by (auto simp: h'(3) split: if_splits)
    then obtain i where "A i \<noteq> None" "x \<in> hook_addrs (X i)" using tabs unfolding hook_tabs_def by blast
    moreover from this x have "i \<noteq> k" by auto
    ultimately show ?thesis by (intro exI [of _ i]) simp
  qed
  have "hook_addrs (X i) \<inter> hook_addrs (X j) = {}" if "i \<noteq> j" "(A(k := None)) i = Some b" "(A(k := None)) j = Some b'" for i j b b'
    using tabs that unfolding hook_tabs_def by (auto split: if_splits)
  then have "hook_tabs h' (A(k := None)) X" unfolding hook_tabs_def using h'(2) tab own by blast
  then show ?thesis using a(1) h' hook_free_brk [OF h'(1)] by blast
qed

text \<open>The callbacks of a table that stays are the same.\<close>

lemma array_fns_drop:
  assumes tabs: "hook_tabs h A X" and i: "A i = Some arr" "hook_cnt i = n" and ty: "0 \<le> type" "type < n"
    and c: "\<And>x. x \<in> hook_addrs (X i) \<Longrightarrow> cells h' x = cells h x" and ok: "heap_ok h'"
  shows "array_fns h' arr type = array_fns h arr type"
proof -
  have "hook_tab h arr (hook_cnt i) (X i)" using tabs i(1) unfolding hook_tabs_def by blast
  then obtain a where a: "arr = Live a" "int (length a) = n" "hook_table h a (X i)" using i(2) by (auto simp: hook_tab_def)
  have t: "nat type < length a" using a(2) ty by simp
  have ch: "chain h_next (cells h) (a ! nat type) (X i ! nat type)" by (rule hook_table_chain [OF a(3) t])
  have sub: "x \<in> hook_addrs (X i)" if "x \<in> set (X i ! nat type)" for x
    using that t a(3) by (auto simp: in_hook_addrs hook_table_def)
  have ch': "chain h_next (cells h') (a ! nat type) (X i ! nat type)"
    using ch by (subst chain_cong [of _ _ _ "cells h"]) (auto simp: c sub)
  have okh: "heap_ok h" using a(3) by (simp add: hook_table_def)
  show ?thesis
    using hook_fns_chain [OF ok ch' chain_length [OF ok ch']] hook_fns_chain [OF okh ch chain_length [OF okh ch]] c sub
    by (simp add: array_fns_def a(1) hook_val_def)
qed

lemma map_free_ok:
  assumes "map_ok m"
  shows "\<exists>v'. fra_p_ht_free (Live m) v = Inr v' \<and> live v' = live v - map_blocks m \<and> calm v' = calm v \<and> pthreads v' = pthreads v"
proof -
  obtain v' where f: "fra_p_ht_free (Live m) v = Inr v'" "live v' = live v - map_blocks m"
    using ht_free_live [of m "\<lambda>_. 1" v] assms by (auto simp: map_ok_def fra_p_var_free_def map_blocks_def)
  have "calm v' = calm v" "pthreads v' = pthreads v"
    using ht_free_frame [where f = calm, OF _ _ f(1)] ht_free_frame [where f = pthreads, OF _ _ f(1)] assms
    by (auto simp: map_ok_def fra_p_var_free_def)
  with f show ?thesis by blast
qed

lemma end_blocks_drop:
  assumes "finite (dom E)" and "E e = Some k"
  shows "end_blocks (E(e := None)) = end_blocks E - end_cost k"
  using end_blocks_new [of "E(e := None)" e k] assms by (simp add: fun_upd_idem)

lemma store_lists_drop:
  assumes l: "store_lists Y (\<lambda>_. {}) E S" and e: "E e = Some n"
  shows "store_lists (Y(e := [])) (\<lambda>_. {}) (E(e := None)) (\<lambda>s. if s \<in> set (Y e) then None else S s)"
proof -
  note d = store_listsD [OF l]
  have dj: "s \<notin> set (Y i)" if "s \<in> set (Y e)" "i \<noteq> e" for s i
    using d(6) [of e i s] that by (auto simp: mine_def)
  show ?thesis
  proof (rule store_listsI)
    fix i k assume "(E(e := None)) i = Some k"
    then have i: "i \<noteq> e" "E i = Some k" by (auto split: if_splits)
    have "chain s_next S (store_empty k) (Y i)" by (rule d(1) [OF i(2)])
    then show "chain s_next (\<lambda>s. if s \<in> set (Y e) then None else S s) (store_empty k) ((Y(e := [])) i)"
      using dj i(1) by (subst chain_cong [of _ _ _ S]) auto
    show "store_all_count k = store_empty_count k + int (card {})" "store_empty_count k = int (length ((Y(e := [])) i))"
      using d(3,4) [OF i(2)] i(1) by simp_all
  next
    fix s show "((if s \<in> set (Y e) then None else S s) \<noteq> None) = (\<exists>i. s \<in> mine (Y(e := [])) (\<lambda>_. {}) i)"
      using d(8) [of s] dj [of s] by (auto simp: mine_def split: if_splits)
  next
    fix i i' s assume "i \<noteq> i'" "s \<in> mine (Y(e := [])) (\<lambda>_. {}) i"
    then show "s \<notin> mine (Y(e := [])) (\<lambda>_. {}) i'" using d(6) [of i i' s] by (auto simp: mine_def split: if_splits)
  next
    show "(E(e := None)) i = None \<Longrightarrow> (Y(e := [])) i = [] \<and> ({} :: addr set) = {}" for i using d(7) [of i] by (auto split: if_splits)
  qed simp_all
qed

section \<open>Freeing an endpoint\<close>

lemma end_free_ok:
  assumes cl: "closing c n w" and k: "cells (ends w) e = Some k" and fuel: "store_empty_count k < int (fuel c)"
    and hk: "\<forall>f \<in> set (req_fns w e FRA_END_STORE_FREE). succeeds c f"
  shows "\<exists>w'. fra_end_free c e w = Inr (0, w') \<and> closing c n w' \<and> cells (ends w') = (cells (ends w))(e := None) \<and>
    w_urls w' = w_urls w \<and> w_vars w' = w_vars w \<and> w_poll w' = w_poll w \<and> live (w_env w') = live (w_env w) - end_cost k \<and> kept w w' \<and>
    (\<forall>e'. e' \<noteq> e \<longrightarrow> req_fns w' e' FRA_END_STORE_FREE = req_fns w e' FRA_END_STORE_FREE)"
proof -
  note d = closingD [OF cl]
  have e0: "e \<noteq> 0" using heap_ok_nonnull [OF d(4) k] .
  obtain m where lk: "\<not> end_lock k" and m: "end_map k = Live m" "map_ok m" using d(11) [OF k] by blast
  have same: "with_end e (k\<lparr>end_lock := False\<rparr>) w = w" using lk k by (simp add: with_end_def fun_upd_idem)
  have lock: "lock_end e w = Inr (0, w)" using lock_end_calm [OF d(1,4) k lk] d(2) same by simp
  obtain X where X: "hook_tabs (hookmem (w_hooks w)) (hook_arr (w_hooks w) (cells (ends w))) X"
    using d(8) by (auto simp: hooks_inv_def)
  obtain Y where Y: "store_lists Y (\<lambda>_. {}) (cells (ends w)) (cells (stores w))" using d(7) by (auto simp: store_pool_def)
  note ys = store_listsD(1,4) [OF Y k]
  define r where "r = brk (reqs w)"
  define q where "q = junk c r"
  define h1 where "h1 = (reqs w)\<lparr>cells := (cells (reqs w))(r \<mapsto> q), brk := Suc r\<rparr>"
  have new: "hnew q (reqs w) = (r, h1)" by (simp add: hnew_def r_def h1_def)
  have fresh: "r \<noteq> 0" "cells (reqs w) r = None" using hnew_fresh [OF d(3) new] by simp_all
  have okh1: "heap_ok h1" by (rule heap_ok_hnew [OF d(3) new])
  define w1 where "w1 = w\<lparr>reqs := h1\<rparr>"
  have hooks1: "hooks_ok c w1" by (rule hooks_ok_same [OF hooks_inv_ok [OF d(8,9,2)]]) (simp_all add: w1_def d(2))
  have w1: "heap_ok (reqs w1)" "heap_ok (ends w1)" "heap_ok (stores w1)" "cells (ends w1) e = Some k" "cells (reqs w1) r = Some q"
    "chain s_next (cells (stores w1)) (store_empty k) (Y e)" "length (Y e) < fuel c"
    "\<forall>f \<in> set (req_fns w1 e FRA_END_STORE_FREE). succeeds c f"
    using okh1 d(4,5) k ys fuel hk by (simp_all add: w1_def h1_def req_fns_def)
  obtain w2 q' where 2: "free_stores c (fuel c) e r w1 = Inr (0, w2)" "frame w1 w2" "kept w1 w2"
    "cells (ends w2) = (cells (ends w1))(e \<mapsto> k\<lparr>store_empty := 0\<rparr>)" "cells (reqs w2) = (cells (reqs w1))(r \<mapsto> q')"
    "cells (stores w2) = (\<lambda>s. if s \<in> set (Y e) then None else cells (stores w1) s)"
    "heap_ok (reqs w2)" "heap_ok (ends w2)" "heap_ok (stores w2)"
    using free_stores_ok [OF hooks1 w1] by blast
  have f2: "w_env w2 = w_env w" "w_vars w2 = w_vars w" "w_urls w2 = w_urls w" "w_hooks w2 = w_hooks w" "w_poll w2 = w_poll w"
    using 2(2) by (simp_all add: frame_def w1_def)
  let ?A = "hook_arr (w_hooks w) (cells (ends w))"
  have Ae: "?A (Inr e) = Some (hooks k)" by (simp add: k)
  obtain a h' where h': "hooks k = Live a" "fra_p_hook_free (hooks k) FRA_HOOK_COUNT (hookmem (w_hooks w)) = Inr h'"
    "brk h' = brk (hookmem (w_hooks w))" "hook_tabs h' (?A(Inr e := None)) X"
    "cells h' = (\<lambda>x. if x \<in> hook_addrs (X (Inr e)) then None else cells (hookmem (w_hooks w)) x)"
    using hook_tabs_drop [OF X Ae] by (auto simp: FRA_HOOK_COUNT_def)
  obtain v where v: "fra_p_ht_free (end_map k) (w_env w) = Inr v" "live v = live (w_env w) - map_blocks m" "calm v" "\<not> pthreads v"
    using map_free_ok [OF m(2), of "w_env w"] d(1,2) m(1) by auto
  define w3 where "w3 = w2\<lparr>w_env := drop_block v, w_hooks := (w_hooks w)\<lparr>hookmem := h'\<rparr>\<rparr>"
  have un: "unlock_end e w3 = Inr (0, w3)"
  proof -
    have "cells (ends w3) e = Some (k\<lparr>store_empty := 0\<rparr>)" "heap_ok (ends w3)" "calm (w_env w3)" using 2(4,8) v(3) by (simp_all add: w3_def)
    moreover from this(1) lk have "with_end e (k\<lparr>store_empty := 0, end_lock := False\<rparr>) w3 = w3" by (simp add: with_end_def fun_upd_idem)
    ultimately show ?thesis using unlock_end_calm [of w3 e "k\<lparr>store_empty := 0\<rparr>"] lk v(4) by (simp add: w3_def)
  qed
  define w4 where "w4 = w3\<lparr>ends := (ends w3)\<lparr>cells := (cells (ends w3))(e := None)\<rparr>\<rparr>"
  have fe: "free_end e w3 = Inr w4" using e0 2(4) by (simp add: free_end_def hfree_def w4_def w3_def)
  define w' where "w' = w4\<lparr>reqs := (reqs w4)\<lparr>cells := (cells (reqs w4))(r := None)\<rparr>\<rparr>"
  have dr: "w_draw w3 = (True, w3)" using v(3) by (simp add: w_draw_def draw_calm w3_def)
  have g2: "hget e (ends w2) = Inr (k\<lparr>store_empty := 0\<rparr>)" using 2(4) by (intro hget_ok [OF 2(8)]) simp
  have fa: "free_array (hooks k) v = Inr (drop_block v)" by (simp add: free_array_def h'(1))
  have locked: "end_free_locked c e r w1 = Inr (0, w4)"
    using 2(1) g2 v(1) h'(2) fa un dr fe by (simp add: end_free_locked_def f2 flip: w3_def)
  have fr: "hfree r (reqs w4) = Inr (reqs w')" using fresh(1) 2(5) by (simp add: hfree_def w'_def w4_def w3_def)
  have run: "fra_end_free c e w = Inr (0, w')"
    using e0 new locked fr by (simp add: fra_end_free_def lock flip: r_def q_def w1_def) (simp add: w'_def)
  have ends': "cells (ends w') = (cells (ends w))(e := None)" using 2(4) by (simp add: w'_def w4_def w3_def w1_def)
  have reqs': "cells (reqs w') = cells (reqs w)" using 2(5) fresh(2) by (auto simp: w'_def w4_def w3_def w1_def h1_def fun_eq_iff)
  have "stores w1 = stores w" by (simp add: w1_def)
  with 2(6) have stores': "cells (stores w') = (\<lambda>s. if s \<in> set (Y e) then None else cells (stores w) s)"
    by (simp only: w'_def w4_def w3_def) simp
  have kept': "kept w w'" using 2(3) by (simp add: kept_def fcgx_log_def w'_def w4_def w3_def w1_def)
  have hooks': "w_hooks w' = (w_hooks w)\<lparr>hookmem := h'\<rparr>" by (simp add: w'_def w4_def w3_def f2)
  have arr: "hook_arr (w_hooks w') (cells (ends w')) = ?A(Inr e := None)"
  proof
    fix i show "hook_arr (w_hooks w') (cells (ends w')) i = (?A(Inr e := None)) i"
      by (cases "(w_hooks w', cells (ends w'), i)" rule: hook_arr.cases) (auto simp: hooks' ends')
  qed
  have "closing c n w'"
    unfolding closing_def
  proof (intro conjI)
    show "heap_ok (reqs w')" "heap_ok (ends w')" "heap_ok (stores w')"
      using 2(7-9) by (auto simp: heap_ok_def w'_def w4_def w3_def)
    show "req_pool {} w'" using d(6) kept' reqs' by (simp add: req_pool_def kept_def)
    show "store_pool (\<lambda>_. {}) w'" using store_lists_drop [OF Y k] ends' stores' by (auto simp: store_pool_def)
    show "hooks_inv w'" using h'(4) arr by (auto simp: hooks_inv_def hooks')
    show "brk (hookmem (w_hooks w')) \<le> fuel c" using d(9) h'(3) by (simp add: hooks')
    show "\<forall>e k. cells (ends w') e = Some k \<longrightarrow> \<not> end_lock k \<and> (\<exists>m. end_map k = Live m \<and> map_ok m)"
      using d(11) ends' by (auto split: if_splits)
    have "end_blocks (cells (ends w')) = end_blocks (cells (ends w)) - end_cost k"
      unfolding ends' by (rule end_blocks_drop [OF finite_dom_heap [OF d(4)] k])
    then show "tables_ok n w'"
      using d(10) v(2) by (auto simp: tables_ok_def w'_def w4_def w3_def f2 end_cost_def m(1))
  qed (use d v in \<open>simp_all add: w'_def w4_def w3_def f2\<close>)
  moreover have "req_fns w' e' FRA_END_STORE_FREE = req_fns w e' FRA_END_STORE_FREE" if "e' \<noteq> e" for e'
  proof -
    have keep: "array_fns h' arr FRA_END_STORE_FREE = array_fns (hookmem (w_hooks w)) arr FRA_END_STORE_FREE"
      if i: "?A i = Some arr" "i \<noteq> Inr e" "hook_cnt i = FRA_HOOK_COUNT" for i arr
    proof (rule array_fns_drop [OF X i(1,3)])
      have "hook_addrs (X (Inr e)) \<inter> hook_addrs (X i) = {}" using X Ae i unfolding hook_tabs_def by blast
      then show "cells h' x = cells (hookmem (w_hooks w)) x" if "x \<in> hook_addrs (X i)" for x using that by (auto simp: h'(5))
      show "heap_ok h'" using h'(4) by (simp add: hook_tabs_def)
    qed (simp_all add: FRA_END_STORE_FREE_def FRA_HOOK_COUNT_def)
    show ?thesis
      using keep [of "Inl Req_hooks_lock" "req_hooks (w_hooks w)"] keep [of "Inr e'"] that
      by (auto simp: req_fns_def hooks' ends' split: option.split)
  qed
  moreover have "live (w_env w') = live (w_env w) - end_cost k"
    using v(2) by (simp add: w'_def w4_def w3_def end_cost_def m(1))
  ultimately show ?thesis using run ends' kept' by (intro exI [of _ w']) (simp add: w'_def w4_def w3_def f2)
qed

text \<open>While the library runs, an endpoint to which no route leads can be freed.\<close>

lemma lib_end_free:
  assumes lib: "lib c n w" and cl: "closing c n w'" and u: "w_urls w' = w_urls w" and v: "w_vars w' = w_vars w" and kp: "kept w w'"
    and ends: "cells (ends w') = (cells (ends w))(e := None)" and p: "w_poll w' = w_poll w"
    and none: "\<forall>key. routes (urls (w_urls w)) key \<noteq> Some e"
  shows "lib c n w'"
proof -
  note d = closingD [OF cl] and st = libD(2) [OF lib]
  have "cells (ends w') e' \<noteq> None" if "routes (urls (w_urls w')) key = Some e'" for key e'
  proof -
    have "e' \<noteq> e" using none that u by metis
    then show ?thesis using steadyD(9) [OF st, of key e'] that u ends by simp
  qed
  moreover have "\<not> end_lock k" "unat sizeof_end_store \<le> unat (sizeof_end_store + store_size k)" if "cells (ends w') a = Some k" for a k
    using steadyD(6,7) [OF st, of a k] that ends by (simp_all split: if_splits)
  moreover have "hooks_ok c w'" by (rule hooks_inv_ok [OF d(8,9,2)])
  ultimately have "steady c w'"
    unfolding steady_def using d(1,3,4,5) steadyD(8,10,11) [OF st] u v by simp
  moreover have "\<not> empty_req_lock w'" using libD(1) [OF lib] kp by (simp add: idle_def kept_def)
  ultimately have "idle c w'" using d(6,7) by (simp add: idle_def)
  moreover have "poll_inv (w_poll w')" using lib p by (simp add: lib_def)
  ultimately show ?thesis using d unfolding lib_def by blast
qed

section \<open>Properties\<close>

text \<open>C12: freeing an endpoint while the library is in use. When its hooks for the end of a store succeed,
  \<open>fra_end_free\<close> returns 0; the endpoint with its cached stores, its hooks and its map of variables is gone, exactly
  their blocks are given back, no request is touched, and as long as no route leads to the endpoint
  the library goes on with its invariant.\<close>

theorem end_free_releases:
  assumes "lib c n w" and "cells (ends w) e = Some k" and "store_empty_count k < int (fuel c)"
    and "\<forall>f \<in> set (req_fns w e FRA_END_STORE_FREE). succeeds c f"
  shows "\<exists>w'. fra_end_free c e w = Inr (0, w') \<and> cells (ends w') = (cells (ends w))(e := None) \<and>
    store_pool (\<lambda>_. {}) w' \<and> live (w_env w') = live (w_env w) - end_cost k \<and> req_pool {} w' \<and> fcgx_log w' = fcgx_log w \<and>
    ((\<forall>key. routes (urls (w_urls w)) key \<noteq> Some e) \<longrightarrow> lib c n w')"
proof -
  from end_free_ok [OF lib_closing [OF assms(1)] assms(2-4)] obtain w' where
    w': "fra_end_free c e w = Inr (0, w')" "closing c n w'" "cells (ends w') = (cells (ends w))(e := None)" "w_urls w' = w_urls w"
    "w_vars w' = w_vars w" "w_poll w' = w_poll w" "live (w_env w') = live (w_env w) - end_cost k" "kept w w'"
    by blast
  show ?thesis
    using w' closingD(6,7) [OF w'(2)] lib_end_free [OF assms(1) w'(2,4,5,8,3,6)]
    by (intro exI [of _ w']) (simp add: kept_def)
qed

text \<open>The program frees its endpoints, in the order \<open>es\<close>.\<close>

fun free_ends :: "'u ctx \<Rightarrow> addr list \<Rightarrow> 'u world \<Rightarrow> 'u world outcome" where
  "free_ends c [] w = Inr w"
| "free_ends c (e # es) w = bindo (fra_end_free c e w) (\<lambda>(rc, w). free_ends c es w)"

lemma free_ends_ok:
  assumes "distinct es" and "set es = dom (cells (ends w))" and "closing c n w"
    and "\<And>e k. cells (ends w) e = Some k \<Longrightarrow> store_empty_count k < int (fuel c) \<and> (\<forall>f \<in> set (req_fns w e FRA_END_STORE_FREE). succeeds c f)"
  shows "\<exists>w'. free_ends c es w = Inr w' \<and> closing c n w' \<and> cells (ends w') = Map.empty \<and> kept w w'"
  using assms
proof (induction es arbitrary: w)
  case (Cons e es)
  have "e \<in> dom (cells (ends w))" unfolding Cons.prems(2) [symmetric] by simp
  then obtain k where k: "cells (ends w) e = Some k" by blast
  from end_free_ok [OF Cons.prems(3) k] Cons.prems(4) [OF k] obtain w1 where
    1: "fra_end_free c e w = Inr (0, w1)" "closing c n w1" "cells (ends w1) = (cells (ends w))(e := None)" "kept w w1"
    "\<forall>e'. e' \<noteq> e \<longrightarrow> req_fns w1 e' FRA_END_STORE_FREE = req_fns w e' FRA_END_STORE_FREE"
    by blast
  have "set es = dom (cells (ends w1))" using Cons.prems(1,2) 1(3) by auto
  moreover have "store_empty_count i < int (fuel c) \<and> (\<forall>f \<in> set (req_fns w1 a FRA_END_STORE_FREE). succeeds c f)"
    if "cells (ends w1) a = Some i" for a i
    using Cons.prems(4) [of a i] that 1(3,5) by (simp split: if_splits)
  ultimately obtain w' where "free_ends c es w1 = Inr w'" "closing c n w'" "cells (ends w') = Map.empty" "kept w1 w'"
    using Cons.IH [of w1] Cons.prems(1) 1(2) by auto
  then show ?case using 1(1) kept_trans [OF 1(4)] by auto
qed auto

text \<open>C7: everything is given back. After init, any calls and requests, and freeing of all endpoints in any
  order, \<open>fra_glob_deinit\<close> leaves no request, no endpoint, no store of an endpoint, no hook, and exactly the blocks that
  were live before the init.\<close>

theorem nothing_left:
  assumes "fra_glob_init c w = Inr (0, w0)" and "unborn w" and "(api c)\<^sup>*\<^sup>* w0 w'" and "empty_count w' < int (fuel c)"
    and "1 \<le> fuel c" and "benign c" and "bstr_ok (bs c)" and "\<forall>a. endpoint (junk c a) = 0" and "handle_new_fn c \<noteq> 0"
    and "distinct es" and "set es = dom (cells (ends w'))"
    and "\<And>e k. cells (ends w') e = Some k \<Longrightarrow>
      store_empty_count k < int (fuel c) \<and> (\<forall>f \<in> set (req_fns w' e FRA_END_STORE_FREE). succeeds c f)"
  shows "\<exists>w1 w2. free_ends c es w' = Inr w1 \<and> fra_glob_deinit c w1 = Inr w2 \<and> live (w_env w2) = live (w_env w) \<and>
    cells (reqs w2) = Map.empty \<and> cells (ends w2) = Map.empty \<and> cells (stores w2) = Map.empty \<and>
    cells (hookmem (w_hooks w2)) = Map.empty"
proof -
  have "lib c (live (w_env w)) w0" using init_ok [OF assms(2,5,7,9)] assms(1) by auto
  then have "lib c (live (w_env w)) w'" by (rule api_run_lib [OF assms(3,6,8)])
  from free_ends_ok [OF assms(10,11) lib_closing [OF this] assms(12)] obtain w1 where
    1: "free_ends c es w' = Inr w1" "closing c (live (w_env w)) w1" "cells (ends w1) = Map.empty" "kept w' w1"
    by blast
  have "empty_count w1 < int (fuel c)" using 1(4) assms(4) by (simp add: kept_def)
  from deinit_ok [OF 1(2) assms(6) this] obtain w2 where 2: "fra_glob_deinit c w1 = Inr w2"
    "live (w_env w2) = live (w_env w) + end_blocks (cells (ends w1))" "cells (reqs w2) = Map.empty" "ends w2 = ends w1" "stores w2 = stores w1"
    "cells (hookmem (w_hooks w2)) = Map.empty"
    using 1(3) by blast
  obtain Y where Y: "store_lists Y (\<lambda>_. {}) (cells (ends w1)) (cells (stores w1))" using closingD(7) [OF 1(2)] by (auto simp: store_pool_def)
  have "cells (stores w1) s = None" for s
  proof -
    have "mine Y (\<lambda>_. {}) e = {}" for e using store_listsD(7) [OF Y, of e] 1(3) by (simp add: mine_def)
    then show ?thesis using store_listsD(8) [OF Y, of s] by blast
  qed
  then have "cells (stores w2) = Map.empty" using 2(5) by (simp add: fun_eq_iff)
  then show ?thesis using 1(1,3) 2 by (simp add: end_blocks_def)
qed

text \<open>C13: a freed endpoint is still routed. \<open>fra_end_free\<close> leaves the routes as they are, and there is no function that deletes
  one; the next request for a verb and url of the endpoint gets the freed endpoint from \<open>fra_p_url_to_endpoint\<close>, and the
  handling of the request goes on to use it after free.\<close>

theorem freed_endpoint_routed:
  assumes "lib c n w" and "cells (ends w) e = Some k" and "store_empty_count k < int (fuel c)"
    and "\<forall>f \<in> set (req_fns w e FRA_END_STORE_FREE). succeeds c f"
    and "routes (urls (w_urls w)) (url, verb) = Some e"
  shows "\<exists>w'. fra_end_free c e w = Inr (0, w') \<and> (\<forall>w1 r q. frame w' w1 \<longrightarrow> heap_ok (reqs w1) \<longrightarrow> cells (reqs w1) r = Some q \<longrightarrow>
    endpoint q = 0 \<longrightarrow> bstr_content (base_url q) = url \<longrightarrow> bstr_content (req_verb q) = verb \<longrightarrow>
    (\<exists>w2. find_endpoint c r w1 = Inr (0, w2) \<and> fra_p_end_store_set c r w2 = Inl (Undef Use_after_free)))"
proof -
  from end_free_ok [OF lib_closing [OF assms(1)] assms(2-4)] obtain w' where
    w': "fra_end_free c e w = Inr (0, w')" "closing c n w'" "cells (ends w') = (cells (ends w))(e := None)" "w_urls w' = w_urls w"
    by blast
  have e0: "e \<noteq> 0" by (rule heap_ok_nonnull [OF libD(5) [OF assms(1)] assms(2)])
  have "\<exists>w2. find_endpoint c r w1 = Inr (0, w2) \<and> fra_p_end_store_set c r w2 = Inl (Undef Use_after_free)"
    if f: "frame w' w1" and h: "heap_ok (reqs w1)" and q: "cells (reqs w1) r = Some q" "endpoint q = 0"
      "bstr_content (base_url q) = url" "bstr_content (req_verb q) = verb" for w1 r q
  proof -
    let ?w2 = "with_req r (q\<lparr>endpoint := e\<rparr>) w1"
    have u: "w_urls w1 = w_urls w" "w_env w1 = w_env w'" using f w'(4) by (simp_all add: frame_def)
    have "fra_p_url_to_endpoint (bs c) verb url (w_urls w1) (w_env w1) = Inr (e, w_urls w1, w_env w1)"
      using to_endpoint_ok [OF libD(8) [OF assms(1)], of "w_env w1"] closingD(1) [OF w'(2)] u assms(5) by simp
    then have find: "find_endpoint c r w1 = Inr (0, ?w2)"
      using e0 q upd_req_ok [OF h q(1), of "endpoint_update (\<lambda>_. e)"] by (simp add: find_endpoint_def hget_ok [OF h q(1)])
    have "cells (ends w1) e = None" using frame_none [OF f] w'(3) by simp
    then have "lock_end e ?w2 = Inl (Undef Use_after_free)" using e0 by (simp add: lock_end_def hget_def)
    moreover have "hget r (reqs ?w2) = Inr (q\<lparr>endpoint := e\<rparr>)" by (rule hget_ok) (use h q in simp_all)
    ultimately have "fra_p_end_store_set c r ?w2 = Inl (Undef Use_after_free)"
      using e0 heap_ok_nonnull [OF h q(1)] by (simp add: fra_p_end_store_set_def)
    with find show ?thesis by blast
  qed
  with w'(1) show ?thesis by blast
qed

section \<open>Witnesses\<close>

text \<open>The demo program, which has made one endpoint without hooks.\<close>

lemma demo_no_free_hooks:
  assumes "cells (ends w) = [e \<mapsto> k]" and "hooks k = Live [0, 0, 0, 0, 0, 0, 0]" and "w_hooks w = hooks0"
  shows "req_fns w a FRA_END_STORE_FREE = []"
  by (auto simp: req_fns_def array_fns_def assms hooks0_def no_hooks_def heap_empty_def FRA_END_STORE_FREE_def)

lemma demo_cached:
  assumes "lib demo_ctx n w" and "cells (ends w) e = Some k" and "stores w = heap_empty"
  shows "store_empty_count k < int (fuel demo_ctx)"
proof -
  obtain Y where Y: "store_lists Y (\<lambda>_. {}) (cells (ends w)) (cells (stores w))"
    using libD(1) [OF assms(1)] by (auto simp: idle_def store_pool_def)
  have "s \<notin> set (Y e)" for s using store_listsD(8) [OF Y, of s] assms(3) by (auto simp: heap_empty_def mine_def)
  then have "Y e = []" by (cases "Y e") auto
  then show ?thesis using store_listsD(4) [OF Y assms(2)] by (simp add: demo_ctx_def)
qed

theorem end_free_releases_witness:
  "\<exists>w e k w'. lib demo_ctx 0 w \<and> cells (ends w) = [e \<mapsto> k] \<and> fra_end_free demo_ctx e w = Inr (0, w') \<and>
     cells (ends w') = Map.empty \<and> live (w_env w') = live (w_env w) - end_cost k"
proof -
  obtain w e k where w: "lib demo_ctx 0 w" "cells (ends w) = [e \<mapsto> k]" "hooks k = Live [0, 0, 0, 0, 0, 0, 0]" "w_hooks w = hooks0"
    "stores w = heap_empty"
    using demo_run by blast
  have k: "cells (ends w) e = Some k" using w(2) by simp
  have "\<forall>f \<in> set (req_fns w e FRA_END_STORE_FREE). succeeds demo_ctx f" using demo_no_free_hooks [OF w(2-4)] by simp
  from end_free_releases [OF w(1) k demo_cached [OF w(1) k w(5)] this] obtain w' where
    "fra_end_free demo_ctx e w = Inr (0, w')" "cells (ends w') = (cells (ends w))(e := None)" "live (w_env w') = live (w_env w) - end_cost k"
    by blast
  then show ?thesis using w(1,2) by (intro exI [of _ w] exI [of _ e] exI [of _ k] exI [of _ w']) simp
qed

theorem nothing_left_witness:
  "\<exists>w0 w' w1 w2 e. fra_glob_init demo_ctx demo_start = Inr (0, w0) \<and> (api demo_ctx)\<^sup>*\<^sup>* w0 w' \<and> dom (cells (ends w')) = {e} \<and>
     free_ends demo_ctx [e] w' = Inr w1 \<and> fra_glob_deinit demo_ctx w1 = Inr w2 \<and> live (w_env w2) = live (w_env demo_start) \<and>
     cells (ends w2) = Map.empty"
proof -
  obtain w0 w e k where w: "fra_glob_init demo_ctx demo_start = Inr (0, w0)" "(api demo_ctx)\<^sup>*\<^sup>* w0 w" "lib demo_ctx 0 w"
    "cells (ends w) = [e \<mapsto> k]" "hooks k = Live [0, 0, 0, 0, 0, 0, 0]" "w_hooks w = hooks0" "empty_count w = 0" "stores w = heap_empty"
    using demo_run by blast
  have c: "empty_count w < int (fuel demo_ctx)" using w(7) by (simp add: demo_ctx_def)
  have es: "distinct [e]" "set [e] = dom (cells (ends w))" using w(4) by simp_all
  have "store_empty_count i < int (fuel demo_ctx) \<and> (\<forall>f \<in> set (req_fns w a FRA_END_STORE_FREE). succeeds demo_ctx f)"
    if "cells (ends w) a = Some i" for a i
    using demo_cached [OF w(3) that w(8)] demo_no_free_hooks [OF w(4-6)] by simp
  from nothing_left [OF w(1) demo_unborn w(2) c demo_fuel demo_benign demo_bs demo_junk demo_fn es this]
  obtain w1 w2 where "free_ends demo_ctx [e] w = Inr w1" "fra_glob_deinit demo_ctx w1 = Inr w2"
    "live (w_env w2) = live (w_env demo_start)" "cells (ends w2) = Map.empty"
    by blast
  with w(1,2) es(2) show ?thesis
    by (intro exI [of _ w0] exI [of _ w] exI [of _ w1] exI [of _ w2] exI [of _ e]) simp
qed

text \<open>The endpoint with a route, and a request for it with the object at address 1.\<close>

definition a_request :: fra_req where
  "a_request = (junk demo_ctx 1)\<lparr>base_url := \<lparr>mlen = - 1, slen = 2, data = ''/a?x=1''\<rparr>, req_verb := \<lparr>mlen = - 1, slen = 3, data = ''GET''\<rparr>\<rparr>"

theorem freed_endpoint_routed_witness:
  "\<exists>w e w' w2. lib demo_ctx 0 w \<and> routes (urls (w_urls w)) (''/a'', ''GET'') = Some e \<and> fra_end_free demo_ctx e w = Inr (0, w') \<and>
     find_endpoint demo_ctx 1 (w'\<lparr>reqs := \<lparr>cells = [1 \<mapsto> a_request], brk = 2\<rparr>\<rparr>) = Inr (0, w2) \<and>
     fra_p_end_store_set demo_ctx 1 w2 = Inl (Undef Use_after_free)"
proof -
  obtain w0 w1 e k where w1: "fra_glob_init demo_ctx demo_start = Inr (0, w0)" "(api demo_ctx)\<^sup>*\<^sup>* w0 w1" "lib demo_ctx 0 w1"
    "cells (ends w1) = [e \<mapsto> k]" "hooks k = Live [0, 0, 0, 0, 0, 0, 0]" "w_hooks w1 = hooks0" "stores w1 = heap_empty"
    using demo_run by blast
  have live: "cells (ends w1) e \<noteq> None" using w1(4) by simp
  have "length ''/a'' < FRA_CORE_MAX_ENDPOINT_LENGTH" by (simp add: FRA_CORE_MAX_ENDPOINT_LENGTH_def)
  with lib_url_add [OF w1(3) live, of "''GET''" "''/a''"] obtain g v where
    g: "lib demo_ctx 0 (w1\<lparr>w_urls := g, w_env := v\<rparr>)" "routes (urls g) = first_wins (routes (urls (w_urls w1))) (''/a'', ''GET'') e"
    by blast
  let ?w = "w1\<lparr>w_urls := g, w_env := v\<rparr>"
  have "routes (urls (w_urls w1)) key = Some e' \<Longrightarrow> e' = e" for key e'
    using steadyD(9) [OF libD(2) [OF w1(3)], of key e'] w1(4) by (auto split: if_splits)
  then have r: "routes (urls (w_urls ?w)) (''/a'', ''GET'') = Some e" using g(2) by (auto simp: first_wins_def split: option.splits)
  have ends: "cells (ends ?w) = [e \<mapsto> k]" "stores ?w = heap_empty" "w_hooks ?w = hooks0" using w1 by simp_all
  have k: "cells (ends ?w) e = Some k" using w1(4) by simp
  have "\<forall>f \<in> set (req_fns ?w e FRA_END_STORE_FREE). succeeds demo_ctx f" using demo_no_free_hooks [OF ends(1) w1(5) ends(3)] by simp
  from freed_endpoint_routed [OF g(1) k demo_cached [OF g(1) k ends(2)] this r] obtain w' where
    w': "fra_end_free demo_ctx e ?w = Inr (0, w')" and next_req: "\<And>u r q. frame w' u \<Longrightarrow> heap_ok (reqs u) \<Longrightarrow> cells (reqs u) r = Some q \<Longrightarrow>
      endpoint q = 0 \<Longrightarrow> bstr_content (base_url q) = ''/a'' \<Longrightarrow> bstr_content (req_verb q) = ''GET'' \<Longrightarrow>
      \<exists>w2. find_endpoint demo_ctx r u = Inr (0, w2) \<and> fra_p_end_store_set demo_ctx r w2 = Inl (Undef Use_after_free)"
    by blast
  let ?u = "w'\<lparr>reqs := \<lparr>cells = [1 \<mapsto> a_request], brk = 2\<rparr>\<rparr>"
  have "\<exists>w2. find_endpoint demo_ctx 1 ?u = Inr (0, w2) \<and> fra_p_end_store_set demo_ctx 1 w2 = Inl (Undef Use_after_free)"
    by (rule next_req [of ?u 1 a_request])
      (simp_all add: frame_def heap_ok_def a_request_def bstr_content_def demo_ctx_def numeral_eq_Suc)
  then show ?thesis using g(1) r w' by blast
qed

end
