(* ===== verification/Dbg.thy ===== *)
theory Dbg
  imports Prelude
begin

text \<open>
  The debugging macros of \<open>src/dbg.h\<close>: what \<open>debug\<close>, the \<open>log_\<close> macros and the \<open>check\<close> macros
  write to the standard error output and where they jump to. The other theories take only
  the jumps of \<open>check\<close> over, as branches. Here is shown what else the macros do, that no message
  of the library makes \<open>fprintf\<close> misbehave, and how an error is reported on its way up.
\<close>

section \<open>Formatted output\<close>

text \<open>
  The arguments of \<open>fprintf\<close> that the library uses: a terminated string, an \<open>int\<close>, and a
  pointer or a \<open>double\<close>, for which the text printed is up to the system.
\<close>

datatype arg = Str string | Num int | Shown string

fun digits :: "nat \<Rightarrow> string" where
  "digits n = (if n < 10 then [''0123456789'' ! n] else digits (n div 10) @ [''0123456789'' ! (n mod 10)])"

definition decimal :: "int \<Rightarrow> string" where
  "decimal i = (if i < 0 then ''-'' else '''') @ digits (nat \<bar>i\<bar>)"

text \<open>
  The conversions of a format, with what each takes from the arguments. A format that asks for an argument
  that is not there, or for one of another type, is undefined, and so is an unknown conversion.
\<close>

datatype conv = Lit char | Conv_s | Conv_d | Conv_prec_s | Conv_other

definition simple_conv :: "char \<Rightarrow> conv option" where
  "simple_conv d =
     (if d = CHR ''%'' then Some (Lit d) else if d = CHR ''s'' then Some Conv_s else if d = CHR ''d'' then Some Conv_d
      else if d = CHR ''p'' \<or> d = CHR ''f'' then Some Conv_other else None)"

fun parse_format :: "string \<Rightarrow> conv list option" where
  "parse_format [] = Some []"
| "parse_format (c # f) =
     (if c \<noteq> CHR ''%'' then map_option (Cons (Lit c)) (parse_format f)
      else case f of
          [] \<Rightarrow> None
        | d # f1 \<Rightarrow>
            (case simple_conv d of
               Some k \<Rightarrow> map_option (Cons k) (parse_format f1)
             | None \<Rightarrow>
                 if take 3 f = ''.*s'' then map_option (Cons Conv_prec_s) (parse_format (drop 3 f)) else None))"

fun print_convs :: "conv list \<Rightarrow> arg list \<Rightarrow> string outcome" where
  "print_convs [] args = Inr []"
| "print_convs (Lit c # cs) args = bindo (print_convs cs args) (\<lambda>t. Inr (c # t))"
| "print_convs (Conv_s # cs) (Str s # args) = bindo (print_convs cs args) (\<lambda>t. Inr (s @ t))"
| "print_convs (Conv_d # cs) (Num i # args) = bindo (print_convs cs args) (\<lambda>t. Inr (decimal i @ t))"
| "print_convs (Conv_prec_s # cs) (Num n # Str s # args) =
     bindo (print_convs cs args) (\<lambda>t. Inr ((if n < 0 then s else take (nat n) s) @ t))"
| "print_convs (Conv_other # cs) (Shown s # args) = bindo (print_convs cs args) (\<lambda>t. Inr (s @ t))"
| "print_convs cs args = Inl (Undef Uninit_read)"

definition format_text :: "string \<Rightarrow> arg list \<Rightarrow> string outcome" where
  "format_text f args = (case parse_format f of None \<Rightarrow> Inl (Undef Uninit_read) | Some cs \<Rightarrow> print_convs cs args)"

section \<open>The macros\<close>

text \<open>\<open>errno\<close> of the thread and all that was written to \<open>stderr\<close>.\<close>

record dbg =
  errno :: int
  err_out :: string

text \<open>\<open>__FILE__\<close> and \<open>__LINE__\<close> of the place where the macro is used.\<close>

type_synonym pos = "string \<times> int"

definition nl :: string where
  "nl = [CHR 0x0A]"

definition pos_args :: "pos \<Rightarrow> arg list" where
  "pos_args p = [Str (fst p), Num (snd p)]"

definition jak_print :: "string \<Rightarrow> arg list \<Rightarrow> dbg \<Rightarrow> dbg outcome" where
  "jak_print f args d = bindo (format_text f args) (\<lambda>t. Inr (d\<lparr>err_out := err_out d @ t\<rparr>))"

text \<open>\<open>debug\<close> and \<open>debug_v\<close>, which are empty in a build with \<open>NDEBUG\<close>.\<close>

definition debug_v :: "bool \<Rightarrow> pos \<Rightarrow> string \<Rightarrow> arg list \<Rightarrow> dbg \<Rightarrow> dbg outcome" where
  "debug_v ndebug p m args d = (if ndebug then Inr d else jak_print (''DEBUG %s:%d: '' @ m @ nl) (pos_args p @ args) d)"

definition clean_errno :: "(int \<Rightarrow> string) \<Rightarrow> int \<Rightarrow> string" where
  "clean_errno strerror e = (if e = 0 then ''None'' else strerror e)"

definition log_err_v :: "pos \<Rightarrow> string \<Rightarrow> arg list \<Rightarrow> dbg \<Rightarrow> dbg outcome" where
  "log_err_v p m args = jak_print (''[ERROR] (%s:%d) '' @ m @ nl) (pos_args p @ args)"

definition log_warn_v :: "pos \<Rightarrow> string \<Rightarrow> arg list \<Rightarrow> dbg \<Rightarrow> dbg outcome" where
  "log_warn_v p m args = jak_print (''[WARN] (%s:%d) '' @ m @ nl) (pos_args p @ args)"

definition log_info_v :: "pos \<Rightarrow> string \<Rightarrow> arg list \<Rightarrow> dbg \<Rightarrow> dbg outcome" where
  "log_info_v p m args = jak_print (''[INFO] (%s:%d) '' @ m @ nl) (pos_args p @ args)"

definition log_err_empty :: "(int \<Rightarrow> string) \<Rightarrow> pos \<Rightarrow> dbg \<Rightarrow> dbg outcome" where
  "log_err_empty strerror p d =
     jak_print (''[ERROR] (%s:%d: errno: %s)'' @ nl) (pos_args p @ [Str (clean_errno strerror (errno d))]) d"

text \<open>\<open>check( A, B )\<close>: \<open>Some b\<close> is the jump to the label \<open>b\<close>, \<open>None\<close> goes on behind the macro.\<close>

definition check :: "(int \<Rightarrow> string) \<Rightarrow> pos \<Rightarrow> bool \<Rightarrow> 'l \<Rightarrow> dbg \<Rightarrow> ('l option \<times> dbg) outcome" where
  "check strerror p a b d =
     (if \<not> a then bindo (log_err_empty strerror p d) (\<lambda>d. Inr (Some b, d\<lparr>errno := 0\<rparr>)) else Inr (None, d))"

definition check_msg_v ::
  "(int \<Rightarrow> string) \<Rightarrow> pos \<Rightarrow> bool \<Rightarrow> 'l \<Rightarrow> string \<Rightarrow> arg list \<Rightarrow> dbg \<Rightarrow> ('l option \<times> dbg) outcome"
where
  "check_msg_v strerror p a b m args d =
     (if \<not> a then
        bindo (jak_print (''[ERROR] (%s:%d: errno: %s) '' @ m @ nl) (pos_args p @ [Str (clean_errno strerror (errno d))] @ args) d)
          (\<lambda>d. Inr (Some b, d\<lparr>errno := 0\<rparr>))
      else Inr (None, d))"

section \<open>The messages of the library\<close>

datatype kind = A_string | A_number | A_other

fun kind_of :: "arg \<Rightarrow> kind" where
  "kind_of (Str s) = A_string"
| "kind_of (Num i) = A_number"
| "kind_of (Shown s) = A_other"

text \<open>Every message with the kinds of its arguments, by file.\<close>

definition pl_messages :: "(string \<times> kind list) list" where
  "pl_messages =
     [(''Loading the shared library \"%s\", failed with error: \"%s\".'', [A_string, A_string]),
      (''You must specify which function to call to initialize the \"%s\" library '' @
       ''by providing a json string array  for the \"%s\" key in the config file '' @
       ''(first element is the function name and all the elements get passed to '' @
       ''the init function using the int main( int argc, char * * argv ) style ).'', [A_string, A_string]),
      (''Could not find the function \"%s\" in the \"%s\" library.'' @ ''The error was: \"%s\".'',
       [A_string, A_string, A_string]),
      (''The \"%s\" function from the \"%s\" library '' @ ''returned a non-zero value: %d.'' @ nl @ ''Aborting...'',
       [A_string, A_string, A_number])]"

definition conf_messages :: "(string \<times> kind list) list" where
  "conf_messages =
     [(''Error while parsing the \"enabled plugins\" configuration option.'' @ nl @
       ''It should look similar to this: \"enabled plugins\": {\"fra_pl\": [\"/etc/fra/fra_pl.conf\"]}'', []),
      (''Error in configuration file. The value for the \"%.*s\" key has to be a string.'', [A_number, A_string]),
      (''Error in configuration file. The value for the \"%.*s\" key has to be a boolean (true or false).'', [A_number, A_string]),
      (''Error in configuration file. The value for the \"%.*s\" key has to be an integer number.'', [A_number, A_string]),
      (''Error in configuration file. The value for the \"%.*s\" key '' @
       ''has to be a json array of strings. Example: [ \"hej\", \"hoj\" ]'', [A_number, A_string]),
      (''No configuration file found at path \"%s\".'', [A_string]),
      (''Invalid json in configuration file \"%s\".'', [A_string]),
      (''Error in configuration file. The value for the \"include\" key has to be a string.'', []),
      (''Error in configuration file. The value for the \"include dir\" key has to be a string.'', [])]"

definition var_messages :: "(string \<times> kind list) list" where
  "var_messages =
     [(''You have already registered a variable with the same name.'', []),
      (''Variable name can'' @ [CHR 0x27] @ ''t be an empty string.'', []),
      (''Wrong type specified when getting global variable \"%s\". '' @ ''Correct type is \"%s\" but you wrote \"%s\"'',
       [A_string, A_string, A_string]),
      (''No global variable \"%s\" found.'', [A_string]),
      (''No variable \"%s\" found for endpoint %p'', [A_string, A_other]),
      (''Wrong type specified when getting variable \"%s\" from endpoint %p'' @ nl @
       ''Correct type is \"%s\" but you wrote \"%s\"'', [A_string, A_other, A_string, A_string])]"

text \<open>Those of \<open>hook.c\<close>, \<open>url.c\<close> and \<open>ht.c\<close>, and the debugging messages of \<open>glob.c\<close>, \<open>poll.c\<close> and \<open>req.c\<close>.\<close>

definition other_messages :: "(string \<times> kind list) list" where
  "other_messages =
     [(''You can'' @ [CHR 0x27] @ ''t register a hook for this type'', []),
      (''You can'' @ [CHR 0x27] @ ''t register a hook with callback equal to NULL'', []),
      (''Endpoint url to long or not '' @ [CHR 0x5C] @ ''0 terminated in fra_end_url_add().'' @ nl @
       ''Set FRA_CORE_MAX_ENDPOINT_LENGTH to a higher value in config.h.'' @ nl @
       ''First 50 chars are: \"%.*s\".'', [A_number, A_string]),
      (''There are more than 10%% collisions in the hashtable.'' @ nl @
       ''To improve performance consider setting the max_vars_count in the '' @ nl @
       ''fra_glob_init() call to a higher value.'', []),
      (''I'' @ [CHR 0x27] @ ''m alive :)'', []), (''m_grow() call'', []), (''fd_add called'', []), (''init called'', []),
      (''before lock'', []), (''before poll'', []), (''Polling for %d file descriptors:'', [A_number]), (''fd is %d'', [A_number]),
      (''all_count is %d and empty_count is %d, growth factor is %f'', [A_number, A_number, A_other]),
      (''Freeing request.'', []), (''Caching request for later use.'', []), (''Handling new request'', [])]"

definition messages :: "(string \<times> kind list) list" where
  "messages = pl_messages @ conf_messages @ var_messages @ other_messages"

section \<open>No message makes the output misbehave\<close>

fun wants :: "conv list \<Rightarrow> kind list \<Rightarrow> bool" where
  "wants [] ks = True"
| "wants (Lit c # cs) ks = wants cs ks"
| "wants (Conv_s # cs) (A_string # ks) = wants cs ks"
| "wants (Conv_d # cs) (A_number # ks) = wants cs ks"
| "wants (Conv_prec_s # cs) (A_number # A_string # ks) = wants cs ks"
| "wants (Conv_other # cs) (A_other # ks) = wants cs ks"
| "wants cs ks = False"

declare digits.simps [simp del]

lemma kind_eq:
  "A_string = kind_of a \<longleftrightarrow> (\<exists>s. a = Str s)" "A_number = kind_of a \<longleftrightarrow> (\<exists>i. a = Num i)" "A_other = kind_of a \<longleftrightarrow> (\<exists>s. a = Shown s)"
  by (cases a; simp)+

lemma print_wanted: "wants cs ks \<Longrightarrow> ks = map kind_of args \<Longrightarrow> \<exists>t. print_convs cs args = Inr t"
  by (induction cs ks arbitrary: args rule: wants.induct) (auto simp: kind_eq Cons_eq_map_conv, (metis bindo_Inr)+)

lemma wants_lit: "wants cs ks \<Longrightarrow> wants (cs @ [Lit c]) ks"
  by (induction cs ks rule: wants.induct) auto

lemma append_fun: "(@) (x # xs) = (\<lambda>ys. x # xs @ ys)"
  by (simp add: fun_eq_iff)

lemma parse_append: "parse_format f = Some cs \<Longrightarrow> parse_format (f @ g) = map_option ((@) cs) (parse_format g)"
proof (induction f arbitrary: cs rule: parse_format.induct)
  case 1
  then show ?case by (simp add: option.map_ident)
next
  case (2 c f)
  show ?case
  proof (cases "c = CHR ''%''")
    case False
    with 2 show ?thesis by (auto simp: option.map_comp comp_def append_fun)
  next
    case True
    then obtain d f1 where f: "f = d # f1" using 2 by (cases f) auto
    show ?thesis
    proof (cases "simple_conv d")
      case None
      have t: "take 3 f = ''.*s''" using 2 True f None by (auto split: if_splits)
      then have "3 \<le> length f" by (cases "3 \<le> length f") auto
      then have a: "take 3 (f @ g) = take 3 f" "drop 3 (f @ g) = drop 3 f @ g" by simp_all
      from 2(4) True f None t obtain ds where ds: "parse_format (drop 3 f) = Some ds" "cs = Conv_prec_s # ds" by auto
      have "parse_format (drop 3 f @ g) = map_option ((@) ds) (parse_format g)"
        by (rule 2(2) [OF _ f None t ds(1)]) (simp add: True)
      then show ?thesis using True f None t a ds by (simp add: option.map_comp comp_def append_fun)
    next
      case (Some k)
      with 2 True f show ?thesis by (auto simp: option.map_comp comp_def append_fun)
    qed
  qed
qed

lemma messages_checked: "list_all (\<lambda>(m, ks). case parse_format m of None \<Rightarrow> False | Some cs \<Rightarrow> wants cs ks) messages"
  by code_simp

lemma messages_parse: "(m, ks) \<in> set messages \<Longrightarrow> \<exists>cs. parse_format m = Some cs \<and> wants cs ks"
  using messages_checked by (auto simp: list_all_iff split: option.splits)

text \<open>A message behind a prefix that takes its own arguments.\<close>

lemma print_message:
  assumes "(m, ks) \<in> set messages" and "map kind_of args = ks"
    and f: "parse_format f \<noteq> None" "\<And>cs. wants cs ks \<Longrightarrow> wants (the (parse_format f) @ cs) (map kind_of pre @ ks)"
  shows "\<exists>t. jak_print (f @ m @ nl) (pre @ args) d = Inr (d\<lparr>err_out := err_out d @ t\<rparr>)"
proof -
  from messages_parse assms(1) obtain cs where cs: "parse_format m = Some cs" "wants cs ks" by blast
  from f obtain fs where fs: "parse_format f = Some fs" "\<And>cs. wants cs ks \<Longrightarrow> wants (fs @ cs) (map kind_of pre @ ks)" by auto
  have "parse_format (f @ m @ nl) = Some (fs @ cs @ [Lit (CHR 0x0A)])"
    using parse_append [OF fs(1)] parse_append [OF cs(1)] by (simp add: nl_def)
  moreover have "\<exists>t. print_convs (fs @ cs @ [Lit (CHR 0x0A)]) (pre @ args) = Inr t"
    by (rule print_wanted [OF fs(2) [OF wants_lit [OF cs(2)]]]) (simp add: assms(2))
  ultimately show ?thesis by (auto simp: jak_print_def format_text_def)
qed


section \<open>An error on its way up\<close>

text \<open>The line that \<open>check\<close> prints.\<close>

definition error_line :: "pos \<Rightarrow> string \<Rightarrow> string" where
  "error_line p e = ''[ERROR] ('' @ fst p @ '':'' @ decimal (snd p) @ '': errno: '' @ e @ '')'' @ nl"

lemma check_passes: "check strerror p True b d = Inr (None, d)"
  by (simp add: check_def)

lemma check_fails:
  "check strerror p False b d =
     Inr (Some b, \<lparr>errno = 0, err_out = err_out d @ error_line p (clean_errno strerror (errno d))\<rparr>)"
  by (simp add: check_def log_err_empty_def jak_print_def format_text_def pos_args_def simple_conv_def nl_def error_line_def)

text \<open>
  A check fails, the function returns -1 from its cleanup label, its caller checks the result and does the same, up to
  the last caller: the places \<open>ps\<close> of the checks that fail, innermost first, with no system call between them.
\<close>

fun give_up :: "(int \<Rightarrow> string) \<Rightarrow> pos list \<Rightarrow> dbg \<Rightarrow> dbg outcome" where
  "give_up strerror [] d = Inr d"
| "give_up strerror (p # ps) d =
     bindo (check strerror p False () d) (\<lambda>(label, d). case label of None \<Rightarrow> Inr d | Some _ \<Rightarrow> give_up strerror ps d)"

lemma give_up_none:
  "errno d = 0 \<Longrightarrow> give_up strerror ps d = Inr \<lparr>errno = 0, err_out = err_out d @ concat (map (\<lambda>p. error_line p ''None'') ps)\<rparr>"
  by (induction ps arbitrary: d) (simp_all add: check_fails clean_errno_def)

text \<open>An error that passes through several functions leaves one line for each, in the order of the return, and the
  reason the system gave for it is in the line of the innermost check, and only there: all others say that there
  is no error number. (A stale \<open>errno\<close> cannot be blamed on the next error.)\<close>

theorem errno_reported_once:
  "ps \<noteq> [] \<Longrightarrow> give_up strerror ps d =
     Inr \<lparr>errno = 0, err_out = err_out d @ error_line (hd ps) (clean_errno strerror (errno d)) @
       concat (map (\<lambda>p. error_line p ''None'') (tl ps))\<rparr>"
  by (cases ps) (simp_all add: check_fails give_up_none)


theorem errno_reported_once_witness:
  "\<exists>d. give_up (\<lambda>e. ''No such file or directory'') [(''conf.c'', 376), (''conf.c'', 365)] \<lparr>errno = 2, err_out = []\<rparr> = Inr d \<and>
     err_out d = ''[ERROR] (conf.c:376: errno: No such file or directory)'' @ nl @ ''[ERROR] (conf.c:365: errno: None)'' @ nl"
  using errno_reported_once [of "[(''conf.c'', 376), (''conf.c'', 365)]" "\<lambda>e. ''No such file or directory''" "\<lparr>errno = 2, err_out = []\<rparr>"]
  by (simp add: error_line_def decimal_def digits.simps clean_errno_def)

end
