(* ===== verification/Spec2Isabelle.thy ===== *)
theory Spec2Isabelle
  imports Murmur3 Typed_Heap Cfloat Bstr Registry Ht Var Url Hook World Hook_Exec End Req Pool Sample Serve Routing Poll Glob Life Access Plugins Conf Conf_Safe Conf_Plugins Conf_Cycle Store_Fault Macros Example Thread Threads Lock_Faults End_Free Dbg
begin

text \<open>
  Verification of the FastCGI REST API library: the C code of \<open>src/src\<close>, its public header
  \<open>src/include/fra/core.h\<close> and what they promise to a program that serves requests with them.

  The program. A program starts the library (\<open>glob.c\<close>), registers variables (\<open>var.c\<close>), hooks
  (\<open>hook.c\<close>) and endpoints (\<open>end.c\<close>) with routes (\<open>url.c\<close>), and enters the loop of \<open>poll.c\<close>. The loop
  calls \<open>fra_p_req_handle_new\<close> (\<open>req.c\<close>) for the listening socket: it takes a request object from a
  cache or makes one, accepts the request from the FastCGI library, splits its url, looks for the
  endpoint, gives the request a store for the variables of the endpoint, runs hooks in between, calls
  the endpoint's callback and puts everything back. Routes and variables lie in hash tables (\<open>ht.c\<close>)
  over MurmurHash3 (\<open>murmur3.c\<close>). Next to this stand the configuration (\<open>conf.c\<close>), JSON files that set
  values and enable plugins, and the list of plugins (\<open>pl.c\<close>), shared libraries that are loaded and
  started. \<open>src/example/fra-server-example.c\<close> is a complete program on top of it.

  How C is modelled (theories Prelude, Typed_Heap, Cfloat, Bstr). A function that can misbehave gives
  an \<open>outcome\<close>: \<open>Inr\<close> is a normal return, return codes like -1 included, \<open>Inl\<close> says why there is none:
  undefined behaviour (null or freed pointer, out of bounds, reading what was never written, unlocking a
  free mutex), a deadlock, a blocking system call that never returns, or exhausted fuel. Calls that
  may fail (\<open>malloc\<close>, mutexes, the string library) draw their success from a stream in the record \<open>env\<close>,
  so every error path can be taken; \<open>live\<close> counts the allocated blocks. Structs that are linked by
  pointers lie in typed heaps whose addresses are never used again, so that a stale pointer is always
  recognised; a block that only one variable points to is a \<open>ptr\<close> (\<open>Null\<close>, \<open>Live\<close>, \<open>Freed\<close>). \<open>size_t\<close> and
  the hashes are words and wrap; an \<open>int\<close> that could overflow is checked or bounded by a lemma. \<open>float\<close>
  is exact where the code uses it: the order of hook priorities with NaN and infinities, and
  products and conversions rounded to 24 bits. The platform is x86-64.

  Components and theories.
  Murmur3: \<open>murmur3.c\<close>, all three functions on byte buffers with checked reads.
  Registry: the interface of tables in which the first entry of a key wins; Ht (\<open>ht.c\<close>), Var (\<open>var.c\<close>)
  and Url (\<open>url.c\<close>) provide it (interpretations \<open>ht\<close>, \<open>vars\<close>, \<open>route\<close>).
  Typed_Heap: the interface \<open>linked\<close> of linked lists; it is interpreted for hooks (Hook), cached
  requests and stores (Pool) and plugins (Plugins).
  Hook: registration and release of the hooks of \<open>hook.c\<close>; Hook_Exec: their execution.
  World: the whole state, with the structs of \<open>req.h\<close> and \<open>end.h\<close>, the static variables of every file,
  the requests and \<open>poll\<close> results to come and a trace of calls; callbacks of the program are functions
  of the whole world in the record \<open>ctx\<close>.
  End: \<open>end.c\<close>. Req: \<open>req.c\<close>. Poll: \<open>poll.c\<close>. Glob: \<open>glob.c\<close>. Access: \<open>var_get\<close> of \<open>var.c\<close>. The macros of
  \<open>lock.h\<close> are \<open>fra_p_lock\<close> and \<open>fra_p_unlock\<close> in Prelude; the code never sets \<open>fra_p_pthreads\<close>, the field
  \<open>pthreads\<close> of \<open>env\<close>, so both of its values are covered where a theorem does not fix it.
  Plugins: \<open>pl.c\<close> and \<open>pl.h\<close>. Conf: \<open>conf.c\<close> and \<open>conf.h\<close>; these two keep a state of their own, as the code
  does not connect them with the server. Macros: the macros of \<open>core.h\<close> that register and access
  variables of the C types. Example: the callbacks and \<open>main\<close> of the example program, linked with
  the library as the functions of \<open>ctx\<close>. Thread: \<open>fra_p_req_handle_new\<close> of \<open>req.c\<close> once more, as the steps of a
  thread; Threads: the step relation \<open>threads\<close> of any number of them. Dbg: the macros of \<open>dbg.h\<close> with the texts
  they print; the other theories take over only the jumps of \<open>check\<close>, as branches.

  What is shown. Each component: the hash functions equal recursive reference definitions (Murmur3); the
  hash table is a map, keeps its counters in range and frees everything (Ht); variables never overlap
  (Var) and are read back inside their block (Access); routing finds the first registration (Url); hooks
  are sorted and stable (Hook), and run in order until one fails (Hook_Exec).
  Handling a request: the caches keep their invariants (Pool); every call with callbacks that leave
  the library alone answers exactly one request once and leaves the library idle (Serve); what is
  called, in which order and with which url and endpoint in the request (Routing); a hook that
  fails at the wrong moment leads to a use after free (Store_Fault) or to the unlocking of a free mutex (Lock_Faults).
  Several threads: one thread alone does exactly what the function does (Thread); in every interleaving no
  two threads share a request or a store, the counters are right and every thread can go on (Threads); one
  failing lock stops them all (Lock_Faults).
  The whole: \<open>lib\<close> (Life) is the invariant of the running library. Init establishes it, every public
  call and every request keeps it, in it every call returns without undefined behaviour, and deinit
  gives back all blocks. Freeing the endpoints before gives back their part, so that nothing at all is left; an
  endpoint freed while the server goes on stays routed (End_Free). The loop answers all requests in order (Poll), and the cases in which its
  locks and arrays go wrong are stated there too; its lemma \<open>loop_handles\<close> carries any invariant of
  a program through the loop.
  The program: a variable that is registered with a type is accessed by the macros with this type
  only and within its block (Macros); the example program sets itself up and writes the right page
  for each of its requests, in their order, however many there are (Example).
  Plugins and configuration: \<open>fra_p_pl_load\<close> refines a function on lists of plugin descriptions, load and
  unload are paired (Plugins); reading any configuration without include cycles returns, is memory
  safe, keeps all values well typed and leaks nothing (Conf_Safe), and with such a cycle it never ends
  (Conf_Cycle); the enabled plugins are the ones that are started (Conf_Plugins). No message that is printed asks for an
  argument that is not there, and an error number is reported once (Dbg). Theorems of kind error state what the code does wrong, as it is.

  Assumptions. \<open>benign c\<close>: callbacks return and change only the program's own state (the step relation
  \<open>api\<close> of Life covers registration between requests); where one request is followed (Routing) the
  hooks and the handler need to do so only on this request and in its state, \<open>pass_at\<close> and \<open>tame\<close>, and
  for the callbacks of the example program this is proved. \<open>bstr_ok\<close>: the string library copies and
  compares as documented. \<open>calm\<close>: no allocation or mutex call fails, used only where a request is followed
  to its end. \<open>outer_ok\<close>: jsmn and jsmn-jsonpath return tokens inside the text and indices inside the
  tokens. \<open>endpoint (junk c a) = 0\<close>: fresh memory of a request holds a null endpoint, which the code relies
  on without setting it. Each such property has a witness on a concrete program (Sample, Life,
  Conf_Plugins, Example).

  Bounds. Lists in a heap are walked with the fuel \<open>brk\<close>, the number of addresses used so far, which is
  more than the length of any list in it. \<open>fuel c\<close> bounds the loops that run callbacks, which could
  register for ever: lists of hooks, dispatching, the poll loop, freeing of cached objects. Every
  theorem says how much is enough: more than the hooks of a type, or more than the number of \<open>poll\<close>
  results. The configuration has one bound, on the depth of includes; a rank that falls with every
  include and starts below it is enough, and the loops inside are bounded by the number of tokens.

  Not modelled.
  The tests are clients of the library, and the two calls of \<open>freopen\<close> in the example program are left
  out. The string library bstrlib, jsmn and
  jsmn-jsonpath are submodules whose code is not in the repository, and FastCGI, \<open>poll\<close>, \<open>dlopen\<close> and the
  file system belong to the system: parameters with the assumptions above. Threads take turns at the calls of
  \<open>fra_p_req_handle_new\<close>, each of which holds the lock of the shared data it changes from its beginning to its end;
  what a thread does inside such a call, and registration while requests are handled, is not interleaved with
  others, and the memory model of the machine is not part of the model. Mutexes are state, so a self deadlock, a
  leaked lock and an unlock of a free mutex show.
\<close>

end
